(* ===== verification/AR_Prelude.thy ===== *)
theory AR_Prelude
  imports
    Main
    "HOL-Library.Word"
    "HOL-Library.Multiset"
    "HOL-Library.AList"
    "HOL-Library.List_Lexorder"
    "HOL-Library.Char_ord"
    "HOL-Library.Product_Lexorder"
begin

text \<open>
  Shared material of the development: the widths of the machine integers the code uses,
  \<^verbatim>\<open>std::sort\<close> with a comparator, waiting on a condition variable, and the collections
  of facts the component theories extend.

  Strings are byte strings; \<^verbatim>\<open>std::string::operator<\<close> is the lexicographic order on
  unsigned bytes, which is the order of \<open>List_Lexorder\<close> over \<open>Char_ord\<close>.
\<close>

section \<open>Types\<close>

type_synonym u64 = "64 word"
type_synonym u32 = "32 word"

text \<open>A point of \<^verbatim>\<open>std::chrono::steady_clock\<close>, in nanoseconds since the clock's epoch.\<close>

type_synonym time_point = nat

text \<open>
  A \<^verbatim>\<open>shared_ptr<InferenceRequest>\<close>: the null pointer, or the address of an object of
  the shared store.
\<close>

type_synonym addr = nat
type_synonym RequestPtr = "addr option"
type_synonym WorkerId = nat

text \<open>A constructor that throws \<^verbatim>\<open>std::invalid_argument\<close> returns the message on the left.\<close>

type_synonym 'a or_throw = "string + 'a"

named_theorems world_mono \<open>every operation of a thread only moves the shared store forward\<close>
named_theorems inv_rules \<open>operations keep the invariant of their component\<close>
named_theorems quiet_simps \<open>operations while no other thread interferes\<close>

section \<open>Sorting with a comparator\<close>

fun ins_by :: "('a \<Rightarrow> 'a \<Rightarrow> bool) \<Rightarrow> 'a \<Rightarrow> 'a list \<Rightarrow> 'a list" where
  "ins_by lt x [] = [x]"
| "ins_by lt x (y # ys) = (if lt y x then y # ins_by lt x ys else x # y # ys)"

fun sort_by :: "('a \<Rightarrow> 'a \<Rightarrow> bool) \<Rightarrow> 'a list \<Rightarrow> 'a list" where
  "sort_by lt [] = []"
| "sort_by lt (x # xs) = ins_by lt x (sort_by lt xs)"

lemma mset_ins_by [simp]: "mset (ins_by lt x xs) = add_mset x (mset xs)"
  by (induction xs) auto

lemma mset_sort_by [simp]: "mset (sort_by lt xs) = mset xs"
  by (induction xs) auto

lemma set_sort_by [simp]: "set (sort_by lt xs) = set xs"
  by (metis mset_sort_by set_mset_mset)

lemma length_sort_by [simp]: "length (sort_by lt xs) = length xs"
  by (metis mset_sort_by size_mset)

lemma sort_by_Nil_iff [simp]: "sort_by lt xs = [] \<longleftrightarrow> xs = []"
  by (metis length_0_conv length_sort_by)

lemma set_ins_by: "set (ins_by lt x xs) = insert x (set xs)"
  by (induction xs) auto

text \<open>
  What \<^verbatim>\<open>std::sort\<close> demands of its comparator: a strict weak order.
\<close>

locale strict_weak_order =
  fixes lt :: "'a \<Rightarrow> 'a \<Rightarrow> bool"
  assumes irrefl: "\<not> lt x x"
    and trans: "lt x y \<Longrightarrow> lt y z \<Longrightarrow> lt x z"
    and neg_trans: "\<not> lt x y \<Longrightarrow> \<not> lt y z \<Longrightarrow> \<not> lt x z"
begin

lemma asym: "lt x y \<Longrightarrow> \<not> lt y x"
  using irrefl trans by blast

lemma sorted_ins_by:
  "sorted_wrt (\<lambda>a b. \<not> lt b a) xs \<Longrightarrow> sorted_wrt (\<lambda>a b. \<not> lt b a) (ins_by lt x xs)"
proof (induction xs)
  case Nil
  then show ?case by simp
next
  case (Cons y ys)
  have "\<not> lt z x" if "z \<in> set ys" "\<not> lt y x" for z
    using that Cons.prems neg_trans [of z y x] by simp
  with Cons show ?case by (simp add: set_ins_by asym)
qed

lemma sorted_sort_by: "sorted_wrt (\<lambda>a b. \<not> lt b a) (sort_by lt xs)"
  by (induction xs) (auto intro: sorted_ins_by)

lemma sort_by_head:
  assumes "sort_by lt xs = v # vs" and "x \<in> set xs"
  shows "\<not> lt x v"
proof -
  have "x \<in> set (v # vs)" using assms by (metis set_sort_by)
  moreover have "sorted_wrt (\<lambda>a b. \<not> lt b a) (v # vs)" using sorted_sort_by assms(1) by metis
  ultimately show ?thesis using irrefl by auto
qed

text \<open>
  When the comparator separates the elements, the sorted list does not depend on the
  order they come in.
\<close>

lemma sorted_unique:
  assumes "sorted_wrt (\<lambda>a b. \<not> lt b a) xs" and "sorted_wrt (\<lambda>a b. \<not> lt b a) ys"
    and "mset xs = mset ys"
    and "\<And>x y. x \<in> set xs \<Longrightarrow> y \<in> set xs \<Longrightarrow> \<not> lt x y \<Longrightarrow> \<not> lt y x \<Longrightarrow> x = y"
  shows "xs = ys"
  using assms
proof (induction xs arbitrary: ys)
  case Nil
  then show ?case by simp
next
  case (Cons x xs)
  from Cons.prems(3) obtain y zs where ys: "ys = y # zs" by (cases ys) auto
  have sets: "set (x # xs) = set (y # zs)"
    using Cons.prems(3) ys by (metis set_mset_mset)
  have "y \<in> set (x # xs)" and "x \<in> set (y # zs)" using sets by auto
  then have "\<not> lt y x" and "\<not> lt x y"
    using Cons.prems(1,2) ys irrefl by auto
  moreover have "y \<in> set (x # xs)" using sets by simp
  ultimately have eq: "x = y"
    using Cons.prems(4) [of x y] by simp
  then have "mset xs = mset zs" using Cons.prems(3) ys by simp
  moreover have "sorted_wrt (\<lambda>a b. \<not> lt b a) xs" "sorted_wrt (\<lambda>a b. \<not> lt b a) zs"
    using Cons.prems ys by auto
  moreover have "\<And>u v. u \<in> set xs \<Longrightarrow> v \<in> set xs \<Longrightarrow> \<not> lt u v \<Longrightarrow> \<not> lt v u \<Longrightarrow> u = v"
    by (rule Cons.prems(4)) simp_all
  ultimately have "xs = zs" using Cons.IH by blast
  then show ?case using eq ys by simp
qed

lemma sort_by_perm_invariant:
  assumes "mset xs = mset ys"
    and "\<And>x y. x \<in> set xs \<Longrightarrow> y \<in> set xs \<Longrightarrow> \<not> lt x y \<Longrightarrow> \<not> lt y x \<Longrightarrow> x = y"
  shows "sort_by lt xs = sort_by lt ys"
proof (rule sorted_unique [OF sorted_sort_by sorted_sort_by])
  show "mset (sort_by lt xs) = mset (sort_by lt ys)" using assms(1) by simp
  fix x y
  assume "x \<in> set (sort_by lt xs)" "y \<in> set (sort_by lt xs)" "\<not> lt x y" "\<not> lt y x"
  then show "x = y" by (intro assms(2)) simp_all
qed

end

lemma sort_by_sorted: "sorted_wrt (\<lambda>a b. \<not> lt b a) xs \<Longrightarrow> sort_by lt xs = xs"
proof (induction xs)
  case (Cons x xs)
  then show ?case by (cases xs) auto
qed simp

lemma strict_sort_by:
  fixes xs :: "'a::linorder list"
  assumes "distinct xs"
  shows "sorted_wrt (<) (sort_by (<) xs)"
proof -
  have "strict_weak_order ((<) :: 'a \<Rightarrow> 'a \<Rightarrow> bool)" by unfold_locales auto
  from strict_weak_order.sorted_sort_by [OF this] have "sorted (sort_by (<) xs)" by (simp add: not_less)
  moreover have "distinct (sort_by (<) xs)" using assms by (metis mset_sort_by mset_eq_imp_distinct_iff)
  ultimately show ?thesis by (simp add: strict_sorted_iff)
qed

text \<open>
  A comparator that compares the fields one after the other is the order of a key; between
  objects with different keys the sorted list does not depend on the order they come in.
\<close>

locale keyed_order =
  fixes lt :: "'a \<Rightarrow> 'a \<Rightarrow> bool" and key :: "'a \<Rightarrow> 'k::linorder"
  assumes lt_key: "lt x y \<longleftrightarrow> key x < key y"

sublocale keyed_order \<subseteq> strict_weak_order lt
  by unfold_locales (auto simp: lt_key)

context keyed_order
begin

lemma head_least:
  assumes "sort_by lt xs = v # vs" "x \<in> set xs"
  shows "key v \<le> key x"
  using sort_by_head [OF assms] by (simp add: lt_key not_less)

lemma order_irrelevant:
  assumes "mset xs = mset ys" "inj_on key (set xs)"
  shows "sort_by lt xs = sort_by lt ys"
proof (rule sort_by_perm_invariant [OF assms(1)])
  fix x y assume "x \<in> set xs" "y \<in> set xs" "\<not> lt x y" "\<not> lt y x"
  then show "x = y" using assms(2) by (simp add: lt_key not_less inj_on_def)
qed

end

text \<open>The comparator \<open><\<close> of strings, used to sort lists of model identifiers.\<close>

interpretation str_lt: strict_weak_order "(<) :: string \<Rightarrow> string \<Rightarrow> bool"
  by unfold_locales auto

section \<open>Waiting on a condition variable\<close>

text \<open>
  \<^verbatim>\<open>cv.wait(lock, pred)\<close> tests the predicate, and as long as it fails sleeps and tests it
  again on the state the other threads have left. \<open>wakes\<close> lists the states found at the
  successive wake-ups, spurious ones included; the answer is the state in which the predicate
  held and the wake-ups not used, and \<open>None\<close> means that the thread is still blocked after
  the last of them.
\<close>

fun cv_wait :: "('s \<Rightarrow> bool) \<Rightarrow> 's list \<Rightarrow> 's \<Rightarrow> ('s \<times> 's list) option" where
  "cv_wait pred wakes s =
     (if pred s then Some (s, wakes)
      else (case wakes of [] \<Rightarrow> None | s' # ws \<Rightarrow> cv_wait pred ws s'))"

text \<open>
  The loop \<^verbatim>\<open>while (!pred) if (cv.wait_until(lock, deadline) == timeout) ...\<close>: a wake-up
  also says whether the wait timed out, and the answer says whether the loop was left that way.
\<close>

fun cv_wait_until ::
  "('s \<Rightarrow> bool) \<Rightarrow> ('s \<times> bool) list \<Rightarrow> 's \<Rightarrow> (bool \<times> 's \<times> ('s \<times> bool) list) option" where
  "cv_wait_until pred wakes s =
     (if pred s then Some (False, s, wakes)
      else (case wakes of
              [] \<Rightarrow> None
            | (s', timed_out) # ws \<Rightarrow>
                if timed_out then Some (True, s', ws) else cv_wait_until pred ws s'))"

declare cv_wait.simps [simp del] cv_wait_until.simps [simp del]

lemma cv_wait_now [simp]: "pred s \<Longrightarrow> cv_wait pred wakes s = Some (s, wakes)"
  by (subst cv_wait.simps) simp

lemma cv_wait_Nil: "\<not> pred s \<Longrightarrow> cv_wait pred [] s = None"
  by (subst cv_wait.simps) simp

lemma cv_wait_Cons: "\<not> pred s \<Longrightarrow> cv_wait pred (s' # ws) s = cv_wait pred ws s'"
  by (subst cv_wait.simps) simp

lemma cv_wait_Some:
  "cv_wait pred wakes s = Some (t, rest) \<Longrightarrow>
     pred t \<and> t \<in> insert s (set wakes) \<and> set rest \<subseteq> set wakes \<and>
     (t = s \<and> rest = wakes \<or> length rest < length wakes)"
proof (induction wakes arbitrary: s)
  case Nil
  then show ?case by (cases "pred s") (auto simp: cv_wait_Nil)
next
  case (Cons a wakes)
  then show ?case by (cases "pred s") (fastforce simp: cv_wait_Cons)+
qed

lemma cv_wait_blocked_iff:
  "cv_wait pred wakes s = None \<longleftrightarrow> (\<forall>t \<in> insert s (set wakes). \<not> pred t)"
proof (induction wakes arbitrary: s)
  case Nil
  then show ?case by (cases "pred s") (auto simp: cv_wait_Nil)
next
  case (Cons a wakes)
  then show ?case by (cases "pred s") (auto simp: cv_wait_Cons)
qed

lemma cv_wait_until_now [simp]: "pred s \<Longrightarrow> cv_wait_until pred wakes s = Some (False, s, wakes)"
  by (subst cv_wait_until.simps) simp

lemma cv_wait_until_Nil: "\<not> pred s \<Longrightarrow> cv_wait_until pred [] s = None"
  by (subst cv_wait_until.simps) simp

lemma cv_wait_until_Cons:
  "\<not> pred s \<Longrightarrow> cv_wait_until pred ((s', timed_out) # ws) s =
     (if timed_out then Some (True, s', ws) else cv_wait_until pred ws s')"
  by (subst cv_wait_until.simps) simp

lemma cv_wait_until_Some:
  "cv_wait_until pred wakes s = Some (timed_out, t, rest) \<Longrightarrow>
     (if timed_out then (t, True) \<in> set wakes else pred t \<and> t \<in> insert s (fst ` set wakes)) \<and>
     set rest \<subseteq> set wakes \<and> (t = s \<and> rest = wakes \<or> length rest < length wakes)"
proof (induction wakes arbitrary: s)
  case Nil
  then show ?case by (cases "pred s") (auto simp: cv_wait_until_Nil)
next
  case (Cons a wakes)
  show ?case
  proof (cases "pred s")
    case True
    with Cons.prems show ?thesis by simp
  next
    case False
    with Cons show ?thesis
      by (cases a; cases "snd a") (fastforce simp: cv_wait_until_Cons)+
  qed
qed

section \<open>Unsigned words that do not wrap\<close>

lemma word_inc_nowrap: "(x :: 'a::len word) \<noteq> - 1 \<Longrightarrow> unat (x + 1) = unat x + 1"
  using unatSuc [of x] max_word_wrap [of x] by (auto simp: add.commute)

lemma word_less_inc: "(x :: 'a::len word) < y \<Longrightarrow> y \<noteq> - 1 \<Longrightarrow> x < y + 1"
  by (simp add: word_inc_nowrap word_less_nat_alt)

lemma word_inc_less: "(y :: 'a::len word) \<noteq> - 1 \<Longrightarrow> y < y + 1"
  by (simp add: word_inc_nowrap word_less_nat_alt)

lemma unat_sub_le: "(b :: 'a::len word) \<le> a \<Longrightarrow> unat (a - b) = unat a - unat b"
  by (simp add: unat_sub)

lemma unat_u64_less: "unat (x :: u64) < 2 ^ 64"
  using unsigned_less [of x] by simp

lemma unat_room: "unat (x :: u64) + 1 < 2 ^ 64 \<Longrightarrow> x \<noteq> - 1"
proof
  assume room: "unat x + 1 < 2 ^ 64" and "x = - 1"
  then have "unat x + unat (1 :: u64) = unat (x + 1)" using unat_add_lem [of x 1] by simp
  then show False using \<open>x = - 1\<close> by simp
qed

lemma unat_add_u64: "unat (x :: u64) + unat y < 2 ^ 64 \<Longrightarrow> unat (x + y) = unat x + unat y"
  using unat_add_lem [of x y] by simp

lemma unat_ucast_u64: "unat (ucast (x :: u32) :: u64) = unat x"
  by transfer (simp add: take_bit_eq_mod)

lemma sint_nonnegative:
  assumes "unat (w :: 'a::len word) < 2 ^ (LENGTH('a) - 1)"
  shows "sint w = int (unat w)"
proof -
  have "int (unat w) < int (2 ^ (LENGTH('a) - 1))" using assms by (simp only: of_nat_less_iff)
  then have "signed_take_bit (LENGTH('a) - 1) (uint w) = uint w"
    by (intro signed_take_bit_int_eq_self) (auto intro: order_trans [OF _ uint_ge_0])
  then show ?thesis by (simp add: sint_uint)
qed

end
