(* ===== verification/AR_Status.thy ===== *)
theory AR_Status
  imports AR_Prelude
begin

text \<open>
  The value types every component passes around: error codes and statuses
  (\<^verbatim>\<open>status.hpp\<close>), inference outputs and results, and the model specification
  (\<^verbatim>\<open>model.hpp\<close>).
\<close>

datatype ErrorCode =
    EC_None | EC_InvalidStateTransition | EC_QueueFull | EC_QueueClosed | EC_ModelNotFound
  | EC_ModelLoadFailed | EC_InferenceFailed | EC_RuntimeStopped | EC_InternalError
  | EC_InsufficientMemory | EC_NoFeasibleWorker | EC_Cancelled | EC_TimedOut
  | EC_ContextLengthExceeded

record Status =
  st_code :: ErrorCode
  st_message :: string

definition status_ok :: "Status \<Rightarrow> bool" where
  "status_ok s \<longleftrightarrow> st_code s = EC_None"

definition status_success :: Status where
  "status_success = \<lparr>st_code = EC_None, st_message = []\<rparr>"

definition status_error :: "ErrorCode \<Rightarrow> string \<Rightarrow> Status" where
  "status_error c m = \<lparr>st_code = c, st_message = m\<rparr>"

record InferenceOutput =
  out_text :: string
  out_output_tokens :: u64

record InferenceResult =
  res_status :: Status
  res_output :: "InferenceOutput option"

definition result_success :: "InferenceOutput \<Rightarrow> InferenceResult" where
  "result_success o_in = \<lparr>res_status = status_success, res_output = Some o_in\<rparr>"

definition result_failure :: "Status \<Rightarrow> InferenceResult" where
  "result_failure s = \<lparr>res_status = s, res_output = None\<rparr>"

definition result_ok :: "InferenceResult \<Rightarrow> bool" where
  "result_ok r \<longleftrightarrow> status_ok (res_status r)"

record ModelSpec =
  ms_model_id :: string
  ms_estimated_memory_bytes :: u64
  ms_estimated_load_cost :: u64

datatype ModelState = MS_Unloaded | MS_Loading | MS_Resident | MS_Evicting | MS_Failed

lemma status_ok_success [simp]: "status_ok status_success"
  by (simp add: status_ok_def status_success_def)

lemma status_ok_error [simp]: "status_ok (status_error c m) \<longleftrightarrow> c = EC_None"
  by (simp add: status_ok_def status_error_def)

lemma st_code_success [simp]: "st_code status_success = EC_None"
  by (simp add: status_success_def)

lemma st_code_error [simp]: "st_code (status_error c m) = c"
  by (simp add: status_error_def)

lemma st_message_error [simp]: "st_message (status_error c m) = m"
  by (simp add: status_error_def)

lemma status_error_neq_success [simp]:
  "c \<noteq> EC_None \<Longrightarrow> status_error c m \<noteq> status_success"
  by (simp add: status_error_def status_success_def)

lemma res_status_failure [simp]: "res_status (result_failure s) = s"
  by (simp add: result_failure_def)

lemma res_output_failure [simp]: "res_output (result_failure s) = None"
  by (simp add: result_failure_def)

lemma result_ok_success [simp]: "result_ok (result_success o_in)"
  by (simp add: result_ok_def result_success_def)

lemma result_ok_failure [simp]: "result_ok (result_failure s) \<longleftrightarrow> status_ok s"
  by (simp add: result_ok_def)

end
