(* ===== verification/AR_Request.thy ===== *)
theory AR_Request
  imports AR_Status
begin

text \<open>
  One request object (\<^verbatim>\<open>request.hpp\<close>, \<^verbatim>\<open>request.cpp\<close>): its lifecycle states, the
  transitions the code allows, and the critical section of each operation as a function of
  the object. An operation that settles the request also hands back the observers it has
  taken out of the object, together with the snapshot they are to be called with; the
  calls themselves happen after the lock is released and are modelled in \<open>AR_World\<close>.

  The lemmas show that the first terminal state wins, that a settled request always carries
  the result that belongs to its state, and that an observer is told about a terminal state
  at most once.
\<close>

section \<open>State\<close>

datatype RequestState =
  Received | Queued | Running | Completed | Rejected | Failed | Cancelled | TimedOut

text \<open>Observers are callbacks; the model keeps an identifier for each.\<close>

type_synonym observer = nat

record InferenceRequest =
  rq_request_id :: string
  rq_model_id :: string
  rq_prompt :: string
  rq_max_output_tokens :: u64
  rq_state :: RequestState
  rq_result :: "InferenceResult option"
  rq_deadline :: "time_point option"
  rq_observers :: "observer list"

record RequestSnapshot =
  sn_request_id :: string
  sn_model_id :: string
  sn_state :: RequestState
  sn_result :: "InferenceResult option"

definition new_request :: "string \<Rightarrow> string \<Rightarrow> string \<Rightarrow> u64 \<Rightarrow> InferenceRequest" where
  "new_request rid mid p n =
     \<lparr>rq_request_id = rid, rq_model_id = mid, rq_prompt = p, rq_max_output_tokens = n,
      rq_state = Received, rq_result = None, rq_deadline = None, rq_observers = []\<rparr>"

definition snapshot :: "InferenceRequest \<Rightarrow> RequestSnapshot" where
  "snapshot r =
     \<lparr>sn_request_id = rq_request_id r, sn_model_id = rq_model_id r,
      sn_state = rq_state r, sn_result = rq_result r\<rparr>"

definition set_deadline :: "time_point option \<Rightarrow> InferenceRequest \<Rightarrow> InferenceRequest" where
  "set_deadline d r = r\<lparr>rq_deadline := d\<rparr>"

definition is_expired :: "time_point \<Rightarrow> InferenceRequest \<Rightarrow> bool" where
  "is_expired now r \<longleftrightarrow> (case rq_deadline r of None \<Rightarrow> False | Some d \<Rightarrow> d \<le> now)"

definition is_terminal_state :: "RequestState \<Rightarrow> bool" where
  "is_terminal_state s \<longleftrightarrow>
     s = Completed \<or> s = Rejected \<or> s = Failed \<or> s = Cancelled \<or> s = TimedOut"

lemma is_terminal_state_simps [simp]:
  "\<not> is_terminal_state Received" "\<not> is_terminal_state Queued" "\<not> is_terminal_state Running"
  "is_terminal_state Completed" "is_terminal_state Rejected" "is_terminal_state Failed"
  "is_terminal_state Cancelled" "is_terminal_state TimedOut"
  by (simp_all add: is_terminal_state_def)

definition is_terminal :: "InferenceRequest \<Rightarrow> bool" where
  "is_terminal r \<longleftrightarrow> is_terminal_state (rq_state r)"

definition is_valid_transition :: "RequestState \<Rightarrow> RequestState \<Rightarrow> bool" where
  "is_valid_transition from to \<longleftrightarrow>
     (if is_terminal_state from then False
      else (case from of
          Received \<Rightarrow> to = Queued \<or> to = Rejected \<or> to = Cancelled \<or> to = TimedOut
        | Queued \<Rightarrow> to = Running \<or> to = Rejected \<or> to = Cancelled \<or> to = TimedOut
        | Running \<Rightarrow> to = Completed \<or> to = Failed \<or> to = Cancelled \<or> to = TimedOut
        | _ \<Rightarrow> False))"

section \<open>Critical sections\<close>

text \<open>\<open>None\<close> is the return value \<open>false\<close>: the object is left as it was.\<close>

definition try_transition_to_locked ::
  "RequestState \<Rightarrow> InferenceRequest \<Rightarrow> InferenceRequest option" where
  "try_transition_to_locked next r =
     (if \<not> is_valid_transition (rq_state r) next then None
      else Some (r\<lparr>rq_state := next\<rparr>))"

text \<open>
  The common part of the settling operations: the transition, the result, the snapshot, and
  the observers moved out of the object by \<^verbatim>\<open>callbacks.swap(observers_)\<close>.
\<close>

type_synonym notification = "observer list \<times> RequestSnapshot"

definition settle_locked ::
  "RequestState \<Rightarrow> InferenceResult \<Rightarrow> InferenceRequest \<Rightarrow>
     (InferenceRequest \<times> notification) option" where
  "settle_locked next res r =
     (case try_transition_to_locked next r of
        None \<Rightarrow> None
      | Some r1 \<Rightarrow>
          (let r2 = r1\<lparr>rq_result := Some res\<rparr>
           in Some (r2\<lparr>rq_observers := []\<rparr>, (rq_observers r2, snapshot r2))))"

definition complete_locked ::
  "InferenceResult \<Rightarrow> InferenceRequest \<Rightarrow> (InferenceRequest \<times> notification) option" where
  "complete_locked res = settle_locked Completed res"

definition fail_locked ::
  "Status \<Rightarrow> InferenceRequest \<Rightarrow> (InferenceRequest \<times> notification) option" where
  "fail_locked e = settle_locked Failed (result_failure e)"

definition reject_locked ::
  "Status \<Rightarrow> InferenceRequest \<Rightarrow> (InferenceRequest \<times> notification) option" where
  "reject_locked e = settle_locked Rejected (result_failure e)"

definition cancel_locked ::
  "InferenceRequest \<Rightarrow> (InferenceRequest \<times> notification) option" where
  "cancel_locked =
     settle_locked Cancelled (result_failure (status_error EC_Cancelled ''request cancelled''))"

definition timeout_locked ::
  "InferenceRequest \<Rightarrow> (InferenceRequest \<times> notification) option" where
  "timeout_locked =
     settle_locked TimedOut (result_failure (status_error EC_TimedOut ''request timed out''))"

text \<open>
  \<^verbatim>\<open>notify_observers_locked\<close>: a terminal state takes the observers away, any other state
  leaves them registered. Without observers nothing is called.
\<close>

definition notify_observers_locked ::
  "InferenceRequest \<Rightarrow> InferenceRequest \<times> notification" where
  "notify_observers_locked r =
     (if rq_observers r = [] then (r, ([], snapshot r))
      else (if is_terminal_state (rq_state r)
            then (r\<lparr>rq_observers := []\<rparr>, (rq_observers r, snapshot r))
            else (r, (rq_observers r, snapshot r))))"

definition transition_locked ::
  "RequestState \<Rightarrow> InferenceRequest \<Rightarrow> (InferenceRequest \<times> notification) option" where
  "transition_locked next r =
     (case try_transition_to_locked next r of
        None \<Rightarrow> None
      | Some r1 \<Rightarrow> Some (notify_observers_locked r1))"

text \<open>
  \<^verbatim>\<open>add_observer\<close>: on a settled request the observer is called at once with the snapshot,
  otherwise it is registered.
\<close>

definition add_observer_locked ::
  "observer \<Rightarrow> InferenceRequest \<Rightarrow> InferenceRequest \<times> notification" where
  "add_observer_locked ob r =
     (if is_terminal_state (rq_state r) then (r, ([ob], snapshot r))
      else (r\<lparr>rq_observers := rq_observers r @ [ob]\<rparr>, ([], snapshot r)))"

text \<open>The operations other threads may apply to a request, as data.\<close>

datatype req_op =
    OpTransition RequestState
  | OpComplete InferenceResult
  | OpFail Status
  | OpReject Status
  | OpCancel
  | OpTimeout
  | OpObserve observer
  | OpSetDeadline "time_point option"

fun op_locked ::
  "req_op \<Rightarrow> InferenceRequest \<Rightarrow> (InferenceRequest \<times> notification) option" where
  "op_locked (OpTransition s) r = transition_locked s r"
| "op_locked (OpComplete res) r = complete_locked res r"
| "op_locked (OpFail e) r = fail_locked e r"
| "op_locked (OpReject e) r = reject_locked e r"
| "op_locked OpCancel r = cancel_locked r"
| "op_locked OpTimeout r = timeout_locked r"
| "op_locked (OpObserve ob) r = Some (add_observer_locked ob r)"
| "op_locked (OpSetDeadline d) r = Some (set_deadline d r, ([], snapshot r))"

section \<open>The object after an operation\<close>

definition op_apply :: "req_op \<Rightarrow> InferenceRequest \<Rightarrow> InferenceRequest" where
  "op_apply x r = (case op_locked x r of None \<Rightarrow> r | Some (r', _) \<Rightarrow> r')"

lemmas settle_defs =
  complete_locked_def fail_locked_def reject_locked_def cancel_locked_def timeout_locked_def

lemmas locked_defs =
  settle_defs settle_locked_def try_transition_to_locked_def transition_locked_def
  notify_observers_locked_def add_observer_locked_def set_deadline_def

lemma terminal_no_transition: "is_terminal_state s \<Longrightarrow> \<not> is_valid_transition s t"
  by (simp add: is_valid_transition_def)

lemma snapshot_sels [simp]:
  "sn_state (snapshot r) = rq_state r" "sn_result (snapshot r) = rq_result r"
  "sn_request_id (snapshot r) = rq_request_id r" "sn_model_id (snapshot r) = rq_model_id r"
  by (simp_all add: snapshot_def)

lemma settle_locked_Some_iff:
  "settle_locked s res r = Some (r', obs, sn) \<longleftrightarrow>
     is_valid_transition (rq_state r) s \<and>
     r' = r\<lparr>rq_state := s, rq_result := Some res, rq_observers := []\<rparr> \<and>
     obs = rq_observers r \<and> sn = snapshot (r\<lparr>rq_state := s, rq_result := Some res\<rparr>)"
  by (auto simp: settle_locked_def try_transition_to_locked_def Let_def)

lemma settle_locked_None_iff:
  "settle_locked s res r = None \<longleftrightarrow> \<not> is_valid_transition (rq_state r) s"
  by (auto simp: settle_locked_def try_transition_to_locked_def Let_def)

section \<open>Moving forward\<close>

text \<open>How many more changes of state a request may see.\<close>

fun rank :: "RequestState \<Rightarrow> nat" where
  "rank Received = 3"
| "rank Queued = 2"
| "rank Running = 1"
| "rank _ = 0"

lemma rank_terminal: "rank s = 0 \<longleftrightarrow> is_terminal_state s"
  by (cases s) simp_all

lemma valid_transition_rank: "is_valid_transition s t \<Longrightarrow> rank t < rank s"
  by (cases s) (auto simp: is_valid_transition_def)

text \<open>
  What a request may become while other threads work on it: the fields given at construction
  never change, it only moves forward in its lifecycle, and a settled request keeps its state
  and its result.
\<close>

definition evolves :: "InferenceRequest \<Rightarrow> InferenceRequest \<Rightarrow> bool" where
  "evolves r r' \<longleftrightarrow>
     rq_request_id r' = rq_request_id r \<and> rq_model_id r' = rq_model_id r \<and>
     rq_prompt r' = rq_prompt r \<and> rq_max_output_tokens r' = rq_max_output_tokens r \<and>
     rank (rq_state r') \<le> rank (rq_state r) \<and>
     (is_terminal r \<longrightarrow> rq_state r' = rq_state r \<and> rq_result r' = rq_result r)"

lemma evolves_refl [simp, intro]: "evolves r r"
  by (simp add: evolves_def)

lemma evolves_trans [trans]: "evolves a b \<Longrightarrow> evolves b c \<Longrightarrow> evolves a c"
  by (auto simp: evolves_def is_terminal_def)

lemma evolves_terminal: "evolves r r' \<Longrightarrow> is_terminal r \<Longrightarrow> is_terminal r'"
  by (simp add: evolves_def is_terminal_def)

lemma evolves_model_id: "evolves r r' \<Longrightarrow> rq_model_id r' = rq_model_id r"
  by (simp add: evolves_def)

lemma op_locked_evolves: "op_locked x r = Some (r', n) \<Longrightarrow> evolves r r'"
  by (cases x)
    (auto simp: evolves_def is_terminal_def locked_defs terminal_no_transition Let_def
          dest: valid_transition_rank split: if_splits)

lemma op_apply_evolves [intro]: "evolves r (op_apply x r)"
  by (auto simp: op_apply_def split: option.splits intro: op_locked_evolves)

lemma fold_op_apply_evolves: "evolves r (fold op_apply xs r)"
  by (induction xs arbitrary: r) (auto intro: evolves_trans)

section \<open>Runs of operations\<close>

fun op_run :: "req_op list \<Rightarrow> InferenceRequest \<Rightarrow> InferenceRequest \<times> notification list" where
  "op_run [] r = (r, [])"
| "op_run (x # xs) r =
     (case op_locked x r of
        None \<Rightarrow> op_run xs r
      | Some (r1, n) \<Rightarrow> (let (r2, ns) = op_run xs r1 in (r2, n # ns)))"

lemma op_run_fst: "fst (op_run xs r) = fold op_apply xs r"
  by (induction xs arbitrary: r)
    (auto simp: op_apply_def Let_def case_prod_beta split: option.splits)

subsection \<open>The first terminal state wins\<close>

text \<open>
  C1: First terminal state wins. Once a request is completed, rejected, failed, cancelled or
  timed out, no sequence of later operations, in any order, changes its state or its result.
\<close>

theorem first_terminal_wins:
  assumes "is_terminal r"
  shows "rq_state (fst (op_run xs r)) = rq_state r \<and> rq_result (fst (op_run xs r)) = rq_result r"
  using fold_op_apply_evolves [of r xs] assms by (simp add: op_run_fst evolves_def)

theorem first_terminal_wins_witness:
  "is_terminal ((new_request ''r'' ''m'' ''p'' 4)\<lparr>rq_state := Cancelled\<rparr>) \<and>
   rq_state (fst (op_run [OpComplete (result_failure status_success), OpTimeout]
     ((new_request ''r'' ''m'' ''p'' 4)\<lparr>rq_state := Cancelled\<rparr>))) = Cancelled"
proof -
  have h: "is_terminal ((new_request ''r'' ''m'' ''p'' 4)\<lparr>rq_state := Cancelled\<rparr>)"
    by (simp add: is_terminal_def is_terminal_state_def)
  show ?thesis
    using h first_terminal_wins [OF h, of "[OpComplete (result_failure status_success), OpTimeout]"]
    by simp
qed

subsection \<open>The lifecycle as a transition system\<close>

text \<open>
  The lifecycle the documentation describes: admission queues a request, a worker runs it,
  and it ends in exactly one of the terminal states.
\<close>

inductive lifecycle :: "RequestState \<Rightarrow> RequestState \<Rightarrow> bool" where
  admit: "lifecycle Received Queued"
| run: "lifecycle Queued Running"
| complete: "lifecycle Running Completed"
| fail: "lifecycle Running Failed"
| reject: "s = Received \<or> s = Queued \<Longrightarrow> lifecycle s Rejected"
| cancel: "\<not> is_terminal_state s \<Longrightarrow> lifecycle s Cancelled"
| timeout: "\<not> is_terminal_state s \<Longrightarrow> lifecycle s TimedOut"

inductive_simps lifecycle_simps:
  "lifecycle Received t" "lifecycle Queued t" "lifecycle Running t" "lifecycle Completed t"
  "lifecycle Rejected t" "lifecycle Failed t" "lifecycle Cancelled t" "lifecycle TimedOut t"

lemma valid_transition_lifecycle: "is_valid_transition s t \<longleftrightarrow> lifecycle s t"
  by (cases s) (auto simp: lifecycle_simps is_valid_transition_def is_terminal_state_def)

text \<open>The states a request goes through during a run, without repetitions.\<close>

fun state_changes :: "req_op list \<Rightarrow> InferenceRequest \<Rightarrow> RequestState list" where
  "state_changes [] r = []"
| "state_changes (x # xs) r =
     (if rq_state (op_apply x r) = rq_state r then state_changes xs (op_apply x r)
      else rq_state (op_apply x r) # state_changes xs (op_apply x r))"

fun lifecycle_path :: "RequestState \<Rightarrow> RequestState list \<Rightarrow> bool" where
  "lifecycle_path s [] = True"
| "lifecycle_path s (t # ts) = (lifecycle s t \<and> lifecycle_path t ts)"

lemma op_apply_state:
  "rq_state (op_apply x r) = rq_state r \<or> lifecycle (rq_state r) (rq_state (op_apply x r))"
  by (cases x)
    (auto simp: op_apply_def locked_defs valid_transition_lifecycle Let_def
          split: if_splits option.splits)

lemma state_changes_path: "lifecycle_path (rq_state r) (state_changes xs r)"
proof (induction xs arbitrary: r)
  case Nil
  then show ?case by simp
next
  case (Cons x xs)
  show ?case
    using Cons.IH [of "op_apply x r"] op_apply_state [of x r]
    by (cases "rq_state (op_apply x r) = rq_state r") simp_all
qed

lemma lifecycle_rank: "lifecycle s t \<Longrightarrow> rank t < rank s"
  using valid_transition_rank by (simp add: valid_transition_lifecycle)

lemma lifecycle_path_rank: "lifecycle_path s ts \<Longrightarrow> length ts \<le> rank s"
  by (induction ts arbitrary: s) (fastforce dest: lifecycle_rank)+

text \<open>
  C15: Lifecycle refinement. Whatever operations are applied to a request, the states it goes
  through follow the documented lifecycle (admission, queueing, running, one terminal state),
  and there are at most three changes of state from construction on.
\<close>

theorem lifecycle_refinement:
  "lifecycle_path Received (state_changes xs (new_request rid mid p n)) \<and>
   length (state_changes xs (new_request rid mid p n)) \<le> 3"
proof -
  have "lifecycle_path Received (state_changes xs (new_request rid mid p n))"
    using state_changes_path [of "new_request rid mid p n" xs] by (simp add: new_request_def)
  then show ?thesis using lifecycle_path_rank by force
qed

subsection \<open>A settled request carries the result of its state\<close>

text \<open>
  The code calls \<^verbatim>\<open>transition_to\<close> for the two states before the terminal ones only, and
  never passes a success status to \<^verbatim>\<open>try_fail\<close> or \<^verbatim>\<open>try_reject\<close>.
\<close>

fun code_op :: "req_op \<Rightarrow> bool" where
  "code_op (OpTransition s) = (\<not> is_terminal_state s)"
| "code_op (OpComplete res) = result_ok res"
| "code_op (OpFail e) = (\<not> status_ok e)"
| "code_op (OpReject e) = (\<not> status_ok e)"
| "code_op _ = True"

definition result_inv :: "InferenceRequest \<Rightarrow> bool" where
  "result_inv r \<longleftrightarrow>
     (case rq_result r of
        None \<Rightarrow> \<not> is_terminal r
      | Some res \<Rightarrow>
          (case rq_state r of
             Completed \<Rightarrow> result_ok res
           | Failed \<Rightarrow> \<not> result_ok res
           | Rejected \<Rightarrow> \<not> result_ok res
           | Cancelled \<Rightarrow> st_code (res_status res) = EC_Cancelled
           | TimedOut \<Rightarrow> st_code (res_status res) = EC_TimedOut
           | _ \<Rightarrow> False)) \<and>
     (is_terminal r \<longrightarrow> rq_observers r = [])"

lemma result_inv_new [inv_rules]: "result_inv (new_request rid mid p n)"
  by (simp add: result_inv_def new_request_def is_terminal_def is_terminal_state_def)

lemma op_locked_result_inv [inv_rules]:
  assumes "op_locked x r = Some (r', (obs, sn))" "result_inv r" "code_op x"
  shows "result_inv r'"
proof (cases x)
  case (OpTransition s)
  with assms show ?thesis
    by (auto simp: transition_locked_def try_transition_to_locked_def notify_observers_locked_def
          result_inv_def is_terminal_def terminal_no_transition
          split: if_splits option.splits RequestState.splits)
next
  case (OpObserve ob)
  with assms show ?thesis
    by (auto simp: add_observer_locked_def result_inv_def is_terminal_def
          split: if_splits option.splits)
next
  case (OpSetDeadline d)
  with assms show ?thesis
    by (auto simp: set_deadline_def result_inv_def is_terminal_def split: option.splits)
qed (use assms in \<open>auto simp: settle_defs settle_locked_Some_iff result_inv_def is_terminal_def\<close>)

lemma op_run_result_inv:
  "result_inv r \<Longrightarrow> list_all code_op xs \<Longrightarrow> result_inv (fst (op_run xs r))"
proof (induction xs arbitrary: r)
  case Nil
  then show ?case by simp
next
  case (Cons x xs)
  show ?case
  proof (cases "op_locked x r")
    case None
    with Cons show ?thesis by simp
  next
    case (Some y)
    then have "result_inv (fst y)"
      using Cons.prems op_locked_result_inv [of x r "fst y" "fst (snd y)" "snd (snd y)"] by simp
    then show ?thesis
      using Cons.IH [of "fst y"] Cons.prems Some by (simp add: case_prod_beta Let_def)
  qed
qed

text \<open>
  C22: Results match states. After any sequence of the calls the code makes, a request has a
  result exactly when it is terminal, and the result is the one of its state: successful for
  a completed request, an error for a failed or rejected one, the cancellation or timeout
  error for a cancelled or timed out one.
\<close>

theorem result_matches_state:
  assumes "list_all code_op xs"
  shows "result_inv (fst (op_run xs (new_request rid mid p n)))"
  using assms by (intro op_run_result_inv inv_rules)

theorem result_matches_state_witness:
  "list_all code_op [OpTransition Queued, OpTransition Running, OpCancel, OpFail (status_error EC_InternalError [])] \<and>
   result_inv (fst (op_run
     [OpTransition Queued, OpTransition Running, OpCancel, OpFail (status_error EC_InternalError [])]
     (new_request ''r'' ''m'' ''p'' 4)))"
proof -
  have h: "list_all code_op
      [OpTransition Queued, OpTransition Running, OpCancel, OpFail (status_error EC_InternalError [])]"
    by (simp add: is_terminal_state_def)
  show ?thesis using h result_matches_state [OF h] by blast
qed

subsection \<open>Observers hear about the end exactly once\<close>

fun terminal_calls :: "observer \<Rightarrow> notification list \<Rightarrow> nat" where
  "terminal_calls ob [] = 0"
| "terminal_calls ob ((obs, sn) # ns) =
     (if is_terminal_state (sn_state sn) then count_list obs ob else 0) + terminal_calls ob ns"

fun registrations :: "observer \<Rightarrow> req_op list \<Rightarrow> nat" where
  "registrations ob [] = 0"
| "registrations ob (OpObserve ob' # xs) = (if ob' = ob then 1 else 0) + registrations ob xs"
| "registrations ob (_ # xs) = registrations ob xs"

lemma op_locked_calls:
  assumes "op_locked x r = Some (r', (obs, sn))" "is_terminal r \<longrightarrow> rq_observers r = []"
  shows "(is_terminal r' \<longrightarrow> rq_observers r' = []) \<and>
    count_list (rq_observers r') ob + (if is_terminal_state (sn_state sn) then count_list obs ob else 0)
      = count_list (rq_observers r) ob + registrations ob [x]"
  using assms
  by (cases x)
    (auto simp: locked_defs is_terminal_def terminal_no_transition Let_def snapshot_def
          split: if_splits option.splits)

lemma op_locked_None_calls: "op_locked x r = None \<Longrightarrow> registrations ob [x] = 0"
  by (cases x) (auto simp: locked_defs)

lemma registrations_Cons: "registrations ob (x # xs) = registrations ob [x] + registrations ob xs"
  by (cases x) auto

lemma op_run_calls:
  assumes "op_run xs r = (r', ns)" "is_terminal r \<longrightarrow> rq_observers r = []"
  shows "(is_terminal r' \<longrightarrow> rq_observers r' = []) \<and>
    count_list (rq_observers r') ob + terminal_calls ob ns
      = count_list (rq_observers r) ob + registrations ob xs"
  using assms
proof (induction xs arbitrary: r ns)
  case Nil
  then show ?case by simp
next
  case (Cons x xs)
  show ?case
  proof (cases "op_locked x r")
    case None
    then show ?thesis
      using Cons registrations_Cons [of ob x xs] op_locked_None_calls [OF None, of ob] by simp
  next
    case (Some y)
    obtain r1 obs sn where y: "y = (r1, (obs, sn))" by (cases y) auto
    obtain ms where ms: "op_run xs r1 = (r', ms)" "ns = (obs, sn) # ms"
      using Cons.prems(1) Some y by (auto split: prod.splits)
    have step: "(is_terminal r1 \<longrightarrow> rq_observers r1 = []) \<and>
      count_list (rq_observers r1) ob
        + (if is_terminal_state (sn_state sn) then count_list obs ob else 0)
      = count_list (rq_observers r) ob + registrations ob [x]"
      using op_locked_calls Some y Cons.prems(2) by blast
    from Cons.IH [OF ms(1)] step
    show ?thesis using ms(2) registrations_Cons [of ob x xs] by (simp split: if_splits)
  qed
qed

text \<open>
  C16: Terminal notification is exact. Over any run of operations from construction, once the
  request is terminal every registration of an observer, early or late, has led to exactly
  one call of it with a terminal snapshot.
\<close>

theorem terminal_notified_once:
  assumes "op_run xs (new_request rid mid p n) = (r, ns)" and "is_terminal r"
  shows "terminal_calls ob ns = registrations ob xs"
  using op_run_calls [OF assms(1), of ob] assms(2)
  by (auto simp: new_request_def)

theorem terminal_notified_once_witness:
  "terminal_calls 7 (snd (op_run [OpObserve 7, OpTransition Queued, OpCancel, OpTimeout, OpObserve 7]
      (new_request ''r'' ''m'' ''p'' 4))) = 2"
proof -
  let ?xs = "[OpObserve 7, OpTransition Queued, OpCancel, OpTimeout, OpObserve 7]"
  let ?r = "new_request ''r'' ''m'' ''p'' 4"
  have t: "is_terminal (fst (op_run ?xs ?r))" by code_simp
  show ?thesis
    using terminal_notified_once [OF prod.collapse [symmetric] t, of 7] by simp
qed

end
