(* ===== verification/AR_BoundedQueue.thy ===== *)
theory AR_BoundedQueue
  imports AR_Status
begin

text \<open>
  \<^verbatim>\<open>BoundedQueue<T>\<close> (\<^verbatim>\<open>bounded_queue.hpp\<close>): a closable first-in first-out queue with a
  capacity. Each operation runs under the queue's mutex, so it is a function of the queue.

  A queue lives in a larger shared state: a worker's lane in the memory of the process, the
  queue of a scheduler beside the requests. The waiting operations are therefore written for
  any state \<open>'s\<close> that holds the queue, with the functions that read and write it, and get
  the states found at their wake-ups (\<open>cv_wait\<close>, \<open>cv_wait_until\<close>). They answer with the new
  state and the wake-ups not used; \<open>None\<close> means that the caller is still blocked. The locale
  \<open>queue_slot\<close> states the laws of reading and writing; its lemmas are the contracts of the
  waiting operations wherever the queue lives.

  The lemmas give the capacity invariant, the behaviour of each operation on each branch,
  and that a history of operations by any number of threads hands out exactly the accepted
  values, in order.
\<close>

section \<open>State and operations\<close>

record 'a BoundedQueue =
  bq_capacity :: nat
  bq_queue :: "'a list"
  bq_closed :: bool

definition make_queue :: "nat \<Rightarrow> 'a BoundedQueue or_throw" where
  "make_queue c =
     (if c = 0 then Inl ''BoundedQueue capacity must be positive''
      else Inr \<lparr>bq_capacity = c, bq_queue = [], bq_closed = False\<rparr>)"

definition push_back :: "'a \<Rightarrow> 'a BoundedQueue \<Rightarrow> 'a BoundedQueue" where
  "push_back v q = q\<lparr>bq_queue := bq_queue q @ [v]\<rparr>"

definition try_push :: "'a \<Rightarrow> 'a BoundedQueue \<Rightarrow> Status \<times> 'a BoundedQueue" where
  "try_push v q =
     (if bq_closed q then (status_error EC_QueueClosed ''queue is closed'', q)
      else if bq_capacity q \<le> length (bq_queue q)
      then (status_error EC_QueueFull ''queue is full'', q)
      else (status_success, push_back v q))"

definition wait_push ::
  "('s \<Rightarrow> 'a BoundedQueue) \<Rightarrow> ('a BoundedQueue \<Rightarrow> 's \<Rightarrow> 's) \<Rightarrow> 'a \<Rightarrow> 's list \<Rightarrow> 's \<Rightarrow>
     (Status \<times> 's \<times> 's list) option" where
  "wait_push get put v wakes s0 =
     (case cv_wait (\<lambda>s. length (bq_queue (get s)) < bq_capacity (get s) \<or> bq_closed (get s)) wakes s0 of
        None \<Rightarrow> None
      | Some (s, rest) \<Rightarrow>
          Some (if bq_closed (get s) then (status_error EC_QueueClosed ''queue is closed'', s, rest)
                else (status_success, put (push_back v (get s)) s, rest)))"

definition wait_push_until ::
  "('s \<Rightarrow> 'a BoundedQueue) \<Rightarrow> ('a BoundedQueue \<Rightarrow> 's \<Rightarrow> 's) \<Rightarrow> 'a \<Rightarrow> ('s \<times> bool) list \<Rightarrow> 's \<Rightarrow>
     (Status \<times> 's \<times> ('s \<times> bool) list) option" where
  "wait_push_until get put v wakes s0 =
     (case cv_wait_until
             (\<lambda>s. \<not> (bq_capacity (get s) \<le> length (bq_queue (get s)) \<and> \<not> bq_closed (get s))) wakes s0 of
        None \<Rightarrow> None
      | Some (timed_out, s, rest) \<Rightarrow>
          Some (if timed_out
                then (status_error EC_TimedOut ''queue push deadline exceeded'', s, rest)
                else if bq_closed (get s)
                then (status_error EC_QueueClosed ''queue is closed'', s, rest)
                else if bq_capacity (get s) \<le> length (bq_queue (get s))
                then (status_error EC_TimedOut ''queue push deadline exceeded'', s, rest)
                else (status_success, put (push_back v (get s)) s, rest)))"

text \<open>The end of both pop operations: nothing on an empty queue, otherwise the front.\<close>

definition pop_front_or_none :: "'a BoundedQueue \<Rightarrow> 'a option \<times> 'a BoundedQueue" where
  "pop_front_or_none q =
     (case bq_queue q of
        [] \<Rightarrow> (None, q)
      | v # vs \<Rightarrow> (Some v, q\<lparr>bq_queue := vs\<rparr>))"

definition pop_in ::
  "('s \<Rightarrow> 'a BoundedQueue) \<Rightarrow> ('a BoundedQueue \<Rightarrow> 's \<Rightarrow> 's) \<Rightarrow> 's \<Rightarrow> 'a option \<times> 's" where
  "pop_in get put s = (case pop_front_or_none (get s) of (r, q) \<Rightarrow> (r, put q s))"

definition wait_pop ::
  "('s \<Rightarrow> 'a BoundedQueue) \<Rightarrow> ('a BoundedQueue \<Rightarrow> 's \<Rightarrow> 's) \<Rightarrow> 's list \<Rightarrow> 's \<Rightarrow>
     ('a option \<times> 's \<times> 's list) option" where
  "wait_pop get put wakes s0 =
     (case cv_wait (\<lambda>s. bq_queue (get s) \<noteq> [] \<or> bq_closed (get s)) wakes s0 of
        None \<Rightarrow> None
      | Some (s, rest) \<Rightarrow> (case pop_in get put s of (r, s') \<Rightarrow> Some (r, s', rest)))"

definition wait_pop_until ::
  "('s \<Rightarrow> 'a BoundedQueue) \<Rightarrow> ('a BoundedQueue \<Rightarrow> 's \<Rightarrow> 's) \<Rightarrow> ('s \<times> bool) list \<Rightarrow> 's \<Rightarrow>
     ('a option \<times> 's \<times> ('s \<times> bool) list) option" where
  "wait_pop_until get put wakes s0 =
     (case cv_wait_until (\<lambda>s. \<not> (bq_queue (get s) = [] \<and> \<not> bq_closed (get s))) wakes s0 of
        None \<Rightarrow> None
      | Some (_, s, rest) \<Rightarrow> (case pop_in get put s of (r, s') \<Rightarrow> Some (r, s', rest)))"

definition close_queue :: "'a BoundedQueue \<Rightarrow> 'a BoundedQueue" where
  "close_queue q = q\<lparr>bq_closed := True\<rparr>"

definition queue_size :: "'a BoundedQueue \<Rightarrow> nat" where
  "queue_size q = length (bq_queue q)"

section \<open>The capacity invariant\<close>

definition bq_inv :: "'a BoundedQueue \<Rightarrow> bool" where
  "bq_inv q \<longleftrightarrow> 0 < bq_capacity q \<and> length (bq_queue q) \<le> bq_capacity q"

lemma make_queue_inv [inv_rules]: "make_queue c = Inr q \<Longrightarrow> bq_inv q"
  by (auto simp: make_queue_def bq_inv_def split: if_splits)

lemma push_back_inv [inv_rules]:
  "bq_inv q \<Longrightarrow> length (bq_queue q) < bq_capacity q \<Longrightarrow> bq_inv (push_back v q)"
  by (simp add: push_back_def bq_inv_def)

lemma try_push_inv [inv_rules]: "bq_inv q \<Longrightarrow> bq_inv (snd (try_push v q))"
  by (auto simp: try_push_def intro: push_back_inv)

lemma pop_front_inv [inv_rules]: "bq_inv q \<Longrightarrow> bq_inv (snd (pop_front_or_none q))"
  by (auto simp: pop_front_or_none_def bq_inv_def split: list.splits)

lemma close_queue_inv [inv_rules]: "bq_inv q \<Longrightarrow> bq_inv (close_queue q)"
  by (simp add: close_queue_def bq_inv_def)

lemma capacity_const [simp]:
  "bq_capacity (push_back v q) = bq_capacity q"
  "bq_capacity (snd (try_push v q)) = bq_capacity q"
  "bq_capacity (snd (pop_front_or_none q)) = bq_capacity q"
  "bq_capacity (close_queue q) = bq_capacity q"
  by (auto simp: push_back_def try_push_def pop_front_or_none_def close_queue_def
      split: list.splits)

section \<open>Which answer means what\<close>

lemma try_push_ok_iff:
  "status_ok (fst (try_push v q)) \<longleftrightarrow> \<not> bq_closed q \<and> length (bq_queue q) < bq_capacity q"
  by (auto simp: try_push_def)

lemma try_push_cases:
  "try_push v q = (s, q') \<Longrightarrow>
     (s = status_success \<and> q' = push_back v q) \<or>
     (st_code s = EC_QueueFull \<and> \<not> bq_closed q \<and> q' = q) \<or>
     (st_code s = EC_QueueClosed \<and> bq_closed q \<and> q' = q)"
  by (auto simp: try_push_def split: if_splits)

lemma pop_front_None_iff: "fst (pop_front_or_none q) = None \<longleftrightarrow> bq_queue q = []"
  by (cases "bq_queue q") (simp_all add: pop_front_or_none_def)

lemma pop_front_empty [simp]: "bq_queue q = [] \<Longrightarrow> pop_front_or_none q = (None, q)"
  by (simp add: pop_front_or_none_def)

lemma try_push_queue:
  "try_push v q = (s, q') \<Longrightarrow> bq_queue q' = bq_queue q @ (if status_ok s then [v] else [])"
  by (auto simp: try_push_def push_back_def split: if_splits)

lemma pop_front_queue:
  "pop_front_or_none q = (r, q') \<Longrightarrow> bq_queue q = (case r of None \<Rightarrow> [] | Some v \<Rightarrow> [v]) @ bq_queue q'"
  by (auto simp: pop_front_or_none_def split: list.splits)

locale queue_slot =
  fixes get :: "'s \<Rightarrow> 'a BoundedQueue"
    and put :: "'a BoundedQueue \<Rightarrow> 's \<Rightarrow> 's"
  assumes get_put: "get (put q s) = q"
    and put_get: "put (get s) s = s"
begin

lemma pop_in_empty: "bq_queue (get s) = [] \<Longrightarrow> pop_in get put s = (None, s)"
  by (simp add: pop_in_def put_get)

lemma pop_in_get: "get (snd (pop_in get put s)) = snd (pop_front_or_none (get s))"
  by (simp add: pop_in_def get_put case_prod_beta)

lemma wait_pop_blocked:
  "wait_pop get put wakes s0 = None \<longleftrightarrow>
     (\<forall>s \<in> insert s0 (set wakes). bq_queue (get s) = [] \<and> \<not> bq_closed (get s))"
proof -
  have "wait_pop get put wakes s0 = None \<longleftrightarrow>
      cv_wait (\<lambda>s. bq_queue (get s) \<noteq> [] \<or> bq_closed (get s)) wakes s0 = None"
    by (auto simp: wait_pop_def split: option.splits prod.splits)
  then show ?thesis by (simp add: cv_wait_blocked_iff)
qed

lemma wait_pop_Some:
  assumes "wait_pop get put wakes s0 = Some (r, s', rest)"
  obtains s where "cv_wait (\<lambda>s. bq_queue (get s) \<noteq> [] \<or> bq_closed (get s)) wakes s0 = Some (s, rest)"
    and "pop_in get put s = (r, s')"
  using assms by (auto simp: wait_pop_def split: option.splits prod.splits)

lemma wait_pop_None:
  assumes "wait_pop get put wakes s0 = Some (None, s', rest)"
  shows "bq_closed (get s') \<and> bq_queue (get s') = []"
proof -
  obtain s where s: "cv_wait (\<lambda>s. bq_queue (get s) \<noteq> [] \<or> bq_closed (get s)) wakes s0 = Some (s, rest)"
    "pop_in get put s = (None, s')"
    by (rule wait_pop_Some [OF assms])
  then have e: "bq_queue (get s) = []"
    using pop_front_None_iff [of "get s"] by (auto simp: pop_in_def split: prod.splits)
  then have "s' = s" using s(2) pop_in_empty by simp
  then show ?thesis using e cv_wait_Some [OF s(1)] by auto
qed

lemma wait_push_answer:
  assumes "wait_push get put v wakes s0 = Some (st, s', rest)"
  shows "\<exists>s \<in> insert s0 (set wakes).
     (st = status_success \<and> s' = put (push_back v (get s)) s \<and> \<not> bq_closed (get s) \<and>
        length (bq_queue (get s)) < bq_capacity (get s)) \<or>
     (st_code st = EC_QueueClosed \<and> s' = s \<and> bq_closed (get s))"
  using assms by (auto simp: wait_push_def dest!: cv_wait_Some split: option.splits if_splits)

lemma wait_push_until_answer:
  assumes "wait_push_until get put v wakes s0 = Some (st, s', rest)"
  shows "(\<exists>s \<in> insert s0 (fst ` set wakes).
     (st = status_success \<and> s' = put (push_back v (get s)) s \<and> \<not> bq_closed (get s) \<and>
        length (bq_queue (get s)) < bq_capacity (get s)) \<or>
     (st_code st = EC_QueueClosed \<and> s' = s \<and> bq_closed (get s))) \<or>
     (st_code st = EC_TimedOut \<and> (s', True) \<in> set wakes)"
proof -
  let ?pred = "\<lambda>s. \<not> (bq_capacity (get s) \<le> length (bq_queue (get s)) \<and> \<not> bq_closed (get s))"
  obtain timed_out s where s: "cv_wait_until ?pred wakes s0 = Some (timed_out, s, rest)"
    and a: "(st, s') =
      (if timed_out then (status_error EC_TimedOut ''queue push deadline exceeded'', s)
       else if bq_closed (get s) then (status_error EC_QueueClosed ''queue is closed'', s)
       else if bq_capacity (get s) \<le> length (bq_queue (get s))
       then (status_error EC_TimedOut ''queue push deadline exceeded'', s)
       else (status_success, put (push_back v (get s)) s))"
    using assms by (auto simp: wait_push_until_def split: option.splits if_splits)
  show ?thesis
    using cv_wait_until_Some [OF s] a by (cases timed_out) (auto split: if_splits)
qed

lemma wait_pop_until_answer:
  assumes "wait_pop_until get put wakes s0 = Some (r, s', rest)"
  shows "\<exists>s. pop_in get put s = (r, s') \<and>
     (s \<in> insert s0 (fst ` set wakes) \<and> (bq_queue (get s) \<noteq> [] \<or> bq_closed (get s)) \<or>
      (s, True) \<in> set wakes)"
proof -
  obtain timed_out s where
    s: "cv_wait_until (\<lambda>s. \<not> (bq_queue (get s) = [] \<and> \<not> bq_closed (get s))) wakes s0
          = Some (timed_out, s, rest)"
    and "pop_in get put s = (r, s')"
    using assms by (auto simp: wait_pop_until_def split: option.splits prod.splits)
  with cv_wait_until_Some [OF s] show ?thesis by (cases timed_out) auto
qed

end

text \<open>A queue on its own, and a queue beside other shared state.\<close>

interpretation own: queue_slot "\<lambda>q. q" "\<lambda>q' _. q'"
  by unfold_locales auto

interpretation beside: queue_slot fst "\<lambda>q s. (q, snd s)"
  by unfold_locales auto

text \<open>
  C23: The consumer's contract. A waiting consumer stays blocked only while every state it
  sees is open and empty, and the answer "no more items" is given only for a queue that is
  closed and empty.
\<close>

theorem wait_pop_contract:
  "(wait_pop (\<lambda>q. q) (\<lambda>q' _. q') wakes q0 = None \<longleftrightarrow>
      (\<forall>q \<in> insert q0 (set wakes). bq_queue q = [] \<and> \<not> bq_closed q)) \<and>
   (\<forall>q rest. wait_pop (\<lambda>q. q) (\<lambda>q' _. q') wakes q0 = Some (None, q, rest) \<longrightarrow>
      bq_closed q \<and> bq_queue q = [])"
  using own.wait_pop_blocked own.wait_pop_None by blast

theorem wait_pop_contract_witness:
  "wait_pop (\<lambda>q. q) (\<lambda>q' _. q') [\<lparr>bq_capacity = 2, bq_queue = [], bq_closed = True\<rparr>]
      \<lparr>bq_capacity = 2, bq_queue = [], bq_closed = False\<rparr>
     = Some (None :: nat option, \<lparr>bq_capacity = 2, bq_queue = [], bq_closed = True\<rparr>, [])"
proof -
  have "wait_pop (\<lambda>q. q) (\<lambda>q' _. q') [\<lparr>bq_capacity = 2, bq_queue = [] :: nat list, bq_closed = True\<rparr>]
      \<lparr>bq_capacity = 2, bq_queue = [], bq_closed = False\<rparr> \<noteq> None"
    using wait_pop_contract [of "[\<lparr>bq_capacity = 2, bq_queue = [], bq_closed = True\<rparr>]"
        "\<lparr>bq_capacity = 2, bq_queue = [], bq_closed = False\<rparr>"] by auto
  then show ?thesis
    by (simp add: wait_pop_def cv_wait_Cons pop_in_def)
qed

section \<open>Histories: first in, first out\<close>

text \<open>
  The queue is shared by several threads; the mutex makes their operations happen one after
  the other. A history lists them in that order: accepted or refused pushes, pops that found
  the queue in a state their wait accepts, and closing.
\<close>

datatype 'a queue_op = QPush 'a | QPop | QClose

fun queue_run ::
  "'a queue_op list \<Rightarrow> 'a BoundedQueue \<Rightarrow> 'a list \<times> 'a list \<times> 'a BoundedQueue" where
  "queue_run [] q = ([], [], q)"
| "queue_run (QPush v # ops) q =
     (case try_push v q of (s, q1) \<Rightarrow>
       (case queue_run ops q1 of (ins, outs, q2) \<Rightarrow>
          (if status_ok s then v # ins else ins, outs, q2)))"
| "queue_run (QPop # ops) q =
     (case pop_front_or_none q of (r, q1) \<Rightarrow>
       (case queue_run ops q1 of (ins, outs, q2) \<Rightarrow>
          (ins, (case r of None \<Rightarrow> outs | Some v \<Rightarrow> v # outs), q2)))"
| "queue_run (QClose # ops) q = queue_run ops (close_queue q)"

lemma queue_run_fifo:
  "queue_run ops q = (ins, outs, q') \<Longrightarrow> outs @ bq_queue q' = bq_queue q @ ins"
proof (induction ops q arbitrary: ins outs q' rule: queue_run.induct)
  case (1 q)
  then show ?case by simp
next
  case (2 v ops q)
  then show ?case
    by (auto dest!: try_push_queue split: prod.splits if_splits)
next
  case (3 ops q)
  then show ?case
    by (auto dest!: pop_front_queue split: prod.splits option.splits)
next
  case (4 ops q)
  then show ?case by (simp add: close_queue_def)
qed

lemma queue_run_inv:
  "bq_inv q \<Longrightarrow> bq_inv (snd (snd (queue_run ops q))) \<and>
     bq_capacity (snd (snd (queue_run ops q))) = bq_capacity q"
proof (induction ops q rule: queue_run.induct)
  case (2 v ops q)
  obtain st q1 where p: "try_push v q = (st, q1)" by fastforce
  then have "bq_inv q1" "bq_capacity q1 = bq_capacity q"
    using "2.prems" try_push_inv [of q v] capacity_const(2) [of v q] by auto
  with "2.IH" [OF p [symmetric]] p show ?case by (auto split: prod.splits)
next
  case (3 ops q)
  obtain r q1 where p: "pop_front_or_none q = (r, q1)" by fastforce
  then have "bq_inv q1" "bq_capacity q1 = bq_capacity q"
    using "3.prems" pop_front_inv [of q] capacity_const(3) [of q] by auto
  with "3.IH" [OF p [symmetric]] p show ?case by (auto split: prod.splits)
qed (simp_all add: close_queue_inv)

text \<open>
  C18: Bounded first-in first-out. For every interleaving of pushes, pops and closing by any
  number of threads on a fresh queue, the values handed out followed by the values still
  queued are exactly the accepted values in the order of acceptance, and the queue never
  holds more than its capacity.
\<close>

theorem bounded_fifo:
  assumes "make_queue c = Inr q" and "queue_run ops q = (ins, outs, q')"
  shows "outs @ bq_queue q' = ins \<and> length (bq_queue q') \<le> c"
  using queue_run_inv [OF make_queue_inv [OF assms(1)], of ops] queue_run_fifo [OF assms(2)] assms
  by (auto simp: make_queue_def bq_inv_def split: if_splits)

theorem bounded_fifo_witness:
  "fst (snd (queue_run [QPush 1, QPush 2, QPush 3, QPop, QPush (4::nat), QClose, QPop, QPop, QPop]
      \<lparr>bq_capacity = 2, bq_queue = [], bq_closed = False\<rparr>)) = [1, 2, 4]"
proof -
  let ?q = "\<lparr>bq_capacity = 2, bq_queue = [] :: nat list, bq_closed = False\<rparr>"
  let ?ops = "[QPush 1, QPush 2, QPush 3, QPop, QPush (4::nat), QClose, QPop, QPop, QPop]"
  have m: "make_queue 2 = Inr ?q" by (simp add: make_queue_def)
  obtain ins outs q' where r: "queue_run ?ops ?q = (ins, outs, q')" by (metis prod_cases3)
  have "ins = [1, 2, 4] \<and> bq_queue q' = []"
    using r by (auto simp: try_push_def push_back_def pop_front_or_none_def close_queue_def)
  with bounded_fifo [OF m r] r show ?thesis by simp
qed

end
