(* ===== verification/AR_World.thy ===== *)
theory AR_World
  imports AR_Request AR_BoundedQueue "HOL-Library.Sublist"
begin

text \<open>
  The memory the threads share: the request objects behind the \<^verbatim>\<open>RequestPtr\<close>s, the clock,
  the calls made to observers, and for each worker its lane, its queued counter and its
  accepting flag. A thread of the program is a function on this record.

  The other threads are part of the record too: \<open>w_env\<close> lists what they do, one group of
  actions for each point at which they can get between two steps of the thread at hand
  (\<open>interfere\<close>). Theorems are stated for every such list, that is for every interleaving.
  An empty list means that the thread runs undisturbed while the clock stands still; such a
  state is called quiet.

  The order \<open>world_le\<close> says that the shared state only moves forward; every operation of
  the development respects it.
\<close>

section \<open>State\<close>

datatype env_action =
    EnvTick nat
  | EnvReq addr req_op
  | EnvLanePush WorkerId RequestPtr
  | EnvQueuedInc WorkerId
  | EnvStopAccepting WorkerId
  | EnvLaneClose WorkerId

record World =
  w_reqs :: "addr \<Rightarrow> InferenceRequest"
  w_clock :: time_point
  w_calls :: "(observer \<times> RequestSnapshot) list"
  w_lane :: "WorkerId \<Rightarrow> RequestPtr BoundedQueue"
  w_queued_count :: "WorkerId \<Rightarrow> u64"
  w_accepting :: "WorkerId \<Rightarrow> bool"
  w_env :: "env_action list list"

text \<open>
  \<^verbatim>\<open>invoke_observers\<close>: each callback is called with the snapshot, in order; an exception
  of a callback is swallowed and has no effect on the others.
\<close>

definition invoke_observers :: "observer list \<Rightarrow> RequestSnapshot \<Rightarrow> World \<Rightarrow> World" where
  "invoke_observers obs sn w = w\<lparr>w_calls := w_calls w @ map (\<lambda>ob. (ob, sn)) obs\<rparr>"

fun env_apply :: "env_action \<Rightarrow> World \<Rightarrow> World" where
  "env_apply (EnvTick d) w = w\<lparr>w_clock := w_clock w + d\<rparr>"
| "env_apply (EnvReq a x) w =
     (case op_locked x (w_reqs w a) of
        None \<Rightarrow> w
      | Some (r, (obs, sn)) \<Rightarrow> invoke_observers obs sn (w\<lparr>w_reqs := (w_reqs w)(a := r)\<rparr>))"
| "env_apply (EnvLanePush k p) w =
     w\<lparr>w_lane := (w_lane w)(k := snd (try_push p (w_lane w k)))\<rparr>"
| "env_apply (EnvQueuedInc k) w =
     w\<lparr>w_queued_count := (w_queued_count w)(k := w_queued_count w k + 1)\<rparr>"
| "env_apply (EnvStopAccepting k) w = w\<lparr>w_accepting := (w_accepting w)(k := False)\<rparr>"
| "env_apply (EnvLaneClose k) w =
     w\<lparr>w_lane := (w_lane w)(k := close_queue (w_lane w k))\<rparr>"

definition interfere :: "World \<Rightarrow> World" where
  "interfere w =
     (case w_env w of
        [] \<Rightarrow> w
      | acts # rest \<Rightarrow> fold env_apply acts (w\<lparr>w_env := rest\<rparr>))"

section \<open>Operations of a thread on a request\<close>

definition steady_now :: "World \<Rightarrow> time_point \<times> World" where
  "steady_now w = (let w1 = interfere w in (w_clock w1, w1))"

definition read_req :: "addr \<Rightarrow> World \<Rightarrow> InferenceRequest \<times> World" where
  "read_req a w = (let w1 = interfere w in (w_reqs w1 a, w1))"

text \<open>
  An operation takes the lock, runs its critical section and releases the lock; the
  callbacks run afterwards, so other threads may get in between.
\<close>

definition perform :: "req_op \<Rightarrow> addr \<Rightarrow> World \<Rightarrow> bool \<times> World" where
  "perform x a w =
     (let w1 = interfere w in
      (case op_locked x (w_reqs w1 a) of
         None \<Rightarrow> (False, w1)
       | Some (r, (obs, sn)) \<Rightarrow>
           (True, invoke_observers obs sn (interfere (w1\<lparr>w_reqs := (w_reqs w1)(a := r)\<rparr>)))))"

definition transition_to :: "RequestState \<Rightarrow> addr \<Rightarrow> World \<Rightarrow> Status \<times> World" where
  "transition_to s a w =
     (case perform (OpTransition s) a w of
        (False, w1) \<Rightarrow>
          (status_error EC_InvalidStateTransition ''invalid request state transition'', w1)
      | (True, w1) \<Rightarrow> (status_success, w1))"

definition try_complete :: "InferenceResult \<Rightarrow> addr \<Rightarrow> World \<Rightarrow> bool \<times> World" where
  "try_complete res = perform (OpComplete res)"

definition try_fail :: "Status \<Rightarrow> addr \<Rightarrow> World \<Rightarrow> bool \<times> World" where
  "try_fail e = perform (OpFail e)"

definition try_reject :: "Status \<Rightarrow> addr \<Rightarrow> World \<Rightarrow> bool \<times> World" where
  "try_reject e = perform (OpReject e)"

definition try_cancel :: "addr \<Rightarrow> World \<Rightarrow> bool \<times> World" where
  "try_cancel = perform OpCancel"

definition try_timeout :: "addr \<Rightarrow> World \<Rightarrow> bool \<times> World" where
  "try_timeout = perform OpTimeout"

definition add_observer :: "observer \<Rightarrow> addr \<Rightarrow> World \<Rightarrow> World" where
  "add_observer ob a w = snd (perform (OpObserve ob) a w)"

definition try_timeout_if_expired :: "time_point \<Rightarrow> addr \<Rightarrow> World \<Rightarrow> bool \<times> World" where
  "try_timeout_if_expired now a w =
     (case read_req a w of (r, w1) \<Rightarrow>
        if is_terminal r then (False, w1)
        else if (case rq_deadline r of None \<Rightarrow> True | Some d \<Rightarrow> now < d) then (False, w1)
        else try_timeout a w1)"

definition legacy_status :: "bool \<times> World \<Rightarrow> Status \<times> World" where
  "legacy_status bw =
     (if fst bw then status_success
      else status_error EC_InvalidStateTransition ''request already terminal'', snd bw)"

definition complete_request :: "InferenceResult \<Rightarrow> addr \<Rightarrow> World \<Rightarrow> Status \<times> World" where
  "complete_request res a w = legacy_status (try_complete res a w)"

definition fail_request :: "Status \<Rightarrow> addr \<Rightarrow> World \<Rightarrow> Status \<times> World" where
  "fail_request e a w = legacy_status (try_fail e a w)"

definition reject_request :: "Status \<Rightarrow> addr \<Rightarrow> World \<Rightarrow> Status \<times> World" where
  "reject_request e a w = legacy_status (try_reject e a w)"

text \<open>
  \<^verbatim>\<open>is_dead_request\<close>, which the schedulers and the worker each have a copy of: null and
  settled requests are dead, and so is one whose deadline has passed, which is timed out on
  the way.
\<close>

definition is_dead_request :: "RequestPtr \<Rightarrow> World \<Rightarrow> bool \<times> World" where
  "is_dead_request p w =
     (case p of
        None \<Rightarrow> (True, w)
      | Some a \<Rightarrow>
          (case read_req a w of (r, w1) \<Rightarrow>
             if is_terminal r then (True, w1)
             else
               (case steady_now w1 of (now, w2) \<Rightarrow>
                (case try_timeout_if_expired now a w2 of (_, w3) \<Rightarrow>
                 (case read_req a w3 of (r', w4) \<Rightarrow> (is_terminal r', w4))))))"

text \<open>
  \<^verbatim>\<open>wait_for_terminal\<close>: without a timeout the caller sleeps until it finds the request
  settled; with one it also gives up when a wake-up is a timeout, and answers what it sees.
\<close>

definition wait_for_terminal ::
  "InferenceRequest list \<Rightarrow> InferenceRequest \<Rightarrow> bool option" where
  "wait_for_terminal wakes r = map_option (\<lambda>_. True) (cv_wait is_terminal wakes r)"

definition wait_for_terminal_timed ::
  "(InferenceRequest \<times> bool) list \<Rightarrow> InferenceRequest \<Rightarrow> bool option" where
  "wait_for_terminal_timed wakes r =
     map_option (\<lambda>(_, r', _). is_terminal r') (cv_wait_until is_terminal wakes r)"

text \<open>
  A thread that sleeps on a condition variable finds, at its wake-ups, the states the other
  threads leave. A timed wait has timed out when the clock has reached the deadline, which
  it does at the latest after the last action of the other threads.
\<close>

primrec env_wakes_n :: "nat \<Rightarrow> World \<Rightarrow> World list" where
  "env_wakes_n 0 w = []"
| "env_wakes_n (Suc n) w = (let w1 = interfere w in w1 # env_wakes_n n w1)"

definition env_wakes :: "World \<Rightarrow> World list" where
  "env_wakes w = env_wakes_n (length (w_env w)) w"

definition timed_wakes :: "time_point \<Rightarrow> World \<Rightarrow> (World \<times> bool) list" where
  "timed_wakes deadline w =
     map (\<lambda>w'. (w', deadline \<le> w_clock w')) (env_wakes w) @
     [(let l = last (w # env_wakes w) in l\<lparr>w_clock := max (w_clock l) deadline\<rparr>, True)]"

section \<open>The shared state only moves forward\<close>

definition world_le :: "World \<Rightarrow> World \<Rightarrow> bool" where
  "world_le w w' \<longleftrightarrow>
     (\<forall>a. evolves (w_reqs w a) (w_reqs w' a)) \<and>
     w_clock w \<le> w_clock w' \<and>
     (\<exists>cs. w_calls w' = w_calls w @ cs) \<and>
     (\<exists>es. w_env w = es @ w_env w') \<and>
     (\<forall>k. bq_capacity (w_lane w' k) = bq_capacity (w_lane w k)) \<and>
     (\<forall>k. bq_closed (w_lane w k) \<longrightarrow> bq_closed (w_lane w' k)) \<and>
     (\<forall>k. bq_inv (w_lane w k) \<longrightarrow> bq_inv (w_lane w' k)) \<and>
     (\<forall>k. w_accepting w' k \<longrightarrow> w_accepting w k)"

lemma world_le_refl [simp, intro]: "world_le w w"
  by (auto simp: world_le_def)

lemma world_le_trans [trans]:
  assumes ab: "world_le a b" and bc: "world_le b c"
  shows "world_le a c"
  unfolding world_le_def
proof (intro conjI allI)
  fix x show "evolves (w_reqs a x) (w_reqs c x)"
    using ab bc evolves_trans unfolding world_le_def by blast
next
  show "w_clock a \<le> w_clock c" using ab bc unfolding world_le_def by linarith
next
  show "\<exists>cs. w_calls c = w_calls a @ cs"
    using ab bc unfolding world_le_def by (metis append.assoc)
next
  show "\<exists>es. w_env a = es @ w_env c"
    using ab bc unfolding world_le_def by (metis append.assoc)
next
  fix k
  show "bq_capacity (w_lane c k) = bq_capacity (w_lane a k)"
    and "bq_closed (w_lane a k) \<longrightarrow> bq_closed (w_lane c k)"
    and "bq_inv (w_lane a k) \<longrightarrow> bq_inv (w_lane c k)"
    and "w_accepting c k \<longrightarrow> w_accepting a k"
    using ab bc unfolding world_le_def by simp_all
qed

lemma world_le_evolves: "world_le w w' \<Longrightarrow> evolves (w_reqs w a) (w_reqs w' a)"
  by (simp add: world_le_def)

lemma world_le_terminal:
  "world_le w w' \<Longrightarrow> is_terminal (w_reqs w a) \<Longrightarrow> is_terminal (w_reqs w' a)"
  by (meson evolves_terminal world_le_evolves)

lemma world_le_model_id:
  "world_le w w' \<Longrightarrow> rq_model_id (w_reqs w' a) = rq_model_id (w_reqs w a)"
  by (meson evolves_model_id world_le_evolves)

lemma invoke_observers_sels [simp]:
  "w_reqs (invoke_observers obs sn w) = w_reqs w"
  "w_clock (invoke_observers obs sn w) = w_clock w"
  "w_lane (invoke_observers obs sn w) = w_lane w"
  "w_queued_count (invoke_observers obs sn w) = w_queued_count w"
  "w_accepting (invoke_observers obs sn w) = w_accepting w"
  "w_env (invoke_observers obs sn w) = w_env w"
  by (simp_all add: invoke_observers_def)

lemma invoke_observers_le [world_mono]: "world_le w (invoke_observers obs sn w)"
  by (auto simp: world_le_def invoke_observers_def)

lemma update_req_le:
  "evolves (w_reqs w a) r \<Longrightarrow> world_le w (w\<lparr>w_reqs := (w_reqs w)(a := r)\<rparr>)"
  by (auto simp: world_le_def)

lemma env_apply_le [world_mono]: "world_le w (env_apply e w)"
proof (cases e)
  case (EnvReq a x)
  show ?thesis
  proof (cases "op_locked x (w_reqs w a)")
    case None
    then show ?thesis using EnvReq by simp
  next
    case (Some y)
    obtain r obs sn where y: "y = (r, (obs, sn))" by (cases y) auto
    have "world_le w (w\<lparr>w_reqs := (w_reqs w)(a := r)\<rparr>)"
      using Some y by (intro update_req_le op_locked_evolves) simp
    then show ?thesis
      using EnvReq Some y by (auto intro: world_le_trans invoke_observers_le)
  qed
next
  case (EnvLanePush k p)
  then show ?thesis
    by (auto simp: world_le_def try_push_def push_back_def bq_inv_def)
qed (auto simp: world_le_def close_queue_def bq_inv_def)

lemma env_apply_env [simp]: "w_env (env_apply e w) = w_env w"
  by (cases e) (auto split: option.splits)

lemma fold_env_apply_le: "world_le w (fold env_apply es w)"
  by (induction es arbitrary: w) (auto intro: world_le_trans env_apply_le)

lemma interfere_le [world_mono]: "world_le w (interfere w)"
proof (cases "w_env w")
  case Nil
  then show ?thesis by (simp add: interfere_def)
next
  case (Cons acts rest)
  then have "world_le w (w\<lparr>w_env := rest\<rparr>)" by (auto simp: world_le_def)
  then show ?thesis
    using Cons by (auto simp: interfere_def intro: world_le_trans fold_env_apply_le)
qed

lemma steady_now_le [world_mono]: "world_le w (snd (steady_now w))"
  by (simp add: steady_now_def Let_def interfere_le)

lemma read_req_le [world_mono]: "world_le w (snd (read_req a w))"
  by (simp add: read_req_def Let_def interfere_le)

lemma perform_le [world_mono]: "world_le w (snd (perform x a w))"
proof (cases "op_locked x (w_reqs (interfere w) a)")
  case None
  then show ?thesis by (simp add: perform_def Let_def interfere_le)
next
  case (Some y)
  obtain r obs sn where y: "y = (r, (obs, sn))" by (cases y) auto
  let ?w1 = "interfere w"
  let ?w2 = "?w1\<lparr>w_reqs := (w_reqs ?w1)(a := r)\<rparr>"
  have "world_le w ?w1" by (rule interfere_le)
  also have "world_le ?w1 ?w2" using Some y by (intro update_req_le op_locked_evolves) simp
  also have "world_le ?w2 (interfere ?w2)" by (rule interfere_le)
  also have "world_le (interfere ?w2) (invoke_observers obs sn (interfere ?w2))"
    by (rule invoke_observers_le)
  finally show ?thesis using Some y by (simp add: perform_def Let_def)
qed

lemma try_le [world_mono]:
  "world_le w (snd (try_complete res a w))" "world_le w (snd (try_fail e a w))"
  "world_le w (snd (try_reject e a w))" "world_le w (snd (try_cancel a w))"
  "world_le w (snd (try_timeout a w))" "world_le w (add_observer ob a w)"
  by (simp_all add: try_complete_def try_fail_def try_reject_def try_cancel_def try_timeout_def
      add_observer_def perform_le)

lemma transition_to_le [world_mono]: "world_le w (snd (transition_to s a w))"
  using perform_le [of w "OpTransition s" a]
  by (auto simp: transition_to_def split: prod.splits bool.splits)

lemma try_timeout_if_expired_le [world_mono]:
  "world_le w (snd (try_timeout_if_expired now a w))"
proof -
  obtain r w1 where r: "read_req a w = (r, w1)" by fastforce
  then have "world_le w w1" using read_req_le [of w a] by simp
  moreover have "world_le w1 (snd (try_timeout a w1))" by (rule try_le)
  ultimately show ?thesis
    using r by (auto simp: try_timeout_if_expired_def intro: world_le_trans)
qed

lemma is_dead_request_le [world_mono]: "world_le w (snd (is_dead_request p w))"
proof (cases p)
  case None
  then show ?thesis by (simp add: is_dead_request_def)
next
  case (Some a)
  obtain r w1 where 1: "read_req a w = (r, w1)" by fastforce
  obtain now w2 where 2: "steady_now w1 = (now, w2)" by fastforce
  obtain b w3 where 3: "try_timeout_if_expired now a w2 = (b, w3)" by fastforce
  obtain r' w4 where 4: "read_req a w3 = (r', w4)" by fastforce
  have "world_le w w1" using read_req_le [of w a] 1 by simp
  moreover have "world_le w1 w2" using steady_now_le [of w1] 2 by simp
  moreover have "world_le w2 w3" using try_timeout_if_expired_le [of w2 now a] 3 by simp
  moreover have "world_le w3 w4" using read_req_le [of w3 a] 4 by simp
  ultimately show ?thesis
    using Some 1 2 3 4 by (auto simp: is_dead_request_def intro: world_le_trans)
qed

text \<open>What the answer of \<^verbatim>\<open>is_dead_request\<close> says of the state it leaves behind.\<close>

lemma is_dead_request_False:
  "is_dead_request p w = (False, w') \<Longrightarrow> \<exists>a. p = Some a \<and> \<not> is_terminal (w_reqs w' a)"
  by (auto simp: is_dead_request_def read_req_def Let_def split: option.splits prod.splits if_splits)

lemma is_dead_request_True:
  "is_dead_request (Some a) w = (True, w') \<Longrightarrow> is_terminal (w_reqs w' a)"
  by (auto simp: is_dead_request_def read_req_def Let_def split: prod.splits if_splits)

lemma is_dead_request_null [simp]: "is_dead_request None w = (True, w)"
  by (simp add: is_dead_request_def)

lemma is_dead_request_sound:
  "is_dead_request (Some a) w = (b, w') \<Longrightarrow> b \<longleftrightarrow> is_terminal (w_reqs w' a)"
  by (cases b) (auto dest: is_dead_request_False is_dead_request_True)

section \<open>Quiet states\<close>

definition quiet :: "World \<Rightarrow> bool" where
  "quiet w \<longleftrightarrow> w_env w = []"

lemma interfere_quiet [quiet_simps]: "quiet w \<Longrightarrow> interfere w = w"
  by (simp add: quiet_def interfere_def)

lemma quiet_le: "quiet w \<Longrightarrow> world_le w w' \<Longrightarrow> quiet w'"
  by (auto simp: quiet_def world_le_def)

lemma perform_quiet [quiet_simps]:
  "quiet w \<Longrightarrow> perform x a w =
     (case op_locked x (w_reqs w a) of
        None \<Rightarrow> (False, w)
      | Some (r, (obs, sn)) \<Rightarrow>
          (True, invoke_observers obs sn (w\<lparr>w_reqs := (w_reqs w)(a := r)\<rparr>)))"
  by (auto simp: perform_def interfere_quiet quiet_def interfere_def Let_def
      split: option.splits)

text \<open>The requests a quiet thread finds dead, and the state after it has looked.\<close>

definition dead_now :: "World \<Rightarrow> RequestPtr \<Rightarrow> bool" where
  "dead_now w p \<longleftrightarrow>
     (case p of None \<Rightarrow> True
      | Some a \<Rightarrow> is_terminal (w_reqs w a) \<or> is_expired (w_clock w) (w_reqs w a))"

definition reap :: "RequestPtr \<Rightarrow> World \<Rightarrow> World" where
  "reap p w = snd (is_dead_request p w)"

lemma timeout_locked_Some:
  "\<not> is_terminal r \<Longrightarrow>
   timeout_locked r =
     (let r2 = r\<lparr>rq_state := TimedOut,
          rq_result := Some (result_failure (status_error EC_TimedOut ''request timed out''))\<rparr>
      in Some (r2\<lparr>rq_observers := []\<rparr>, (rq_observers r, snapshot r2)))"
  by (cases "rq_state r")
    (auto simp: timeout_locked_def settle_locked_def try_transition_to_locked_def
      is_valid_transition_def is_terminal_def Let_def)

lemma is_dead_request_quiet [quiet_simps]:
  assumes "quiet w"
  shows "is_dead_request p w = (dead_now w p, reap p w)"
proof -
  have "fst (is_dead_request p w) = dead_now w p"
    using assms
    by (auto simp: is_dead_request_def dead_now_def read_req_def steady_now_def
        try_timeout_if_expired_def try_timeout_def perform_quiet interfere_quiet
        is_expired_def timeout_locked_Some Let_def is_terminal_def quiet_def interfere_def
        split: option.splits if_splits)
  then show ?thesis by (simp add: reap_def prod_eq_iff)
qed

lemma reap_le [world_mono]: "world_le w (reap p w)"
  by (simp add: reap_def is_dead_request_le)

lemma reap_quiet [simp]: "quiet w \<Longrightarrow> quiet (reap p w)"
  by (rule quiet_le [OF _ reap_le])

lemma reap_reqs:
  assumes "quiet w"
  shows "w_reqs (reap p w) a =
    (if p = Some a \<and> \<not> is_terminal (w_reqs w a) \<and> is_expired (w_clock w) (w_reqs w a)
     then fst (the (timeout_locked (w_reqs w a))) else w_reqs w a)"
  using assms
  by (auto simp: reap_def is_dead_request_def read_req_def steady_now_def
      try_timeout_if_expired_def try_timeout_def perform_quiet interfere_quiet
      is_expired_def timeout_locked_Some Let_def quiet_def interfere_def
      split: option.splits if_splits)

lemma reap_frame [simp]:
  assumes "quiet w"
  shows "w_clock (reap p w) = w_clock w" "w_lane (reap p w) = w_lane w"
    "w_queued_count (reap p w) = w_queued_count w" "w_accepting (reap p w) = w_accepting w"
  using assms
  by (auto simp: reap_def is_dead_request_def read_req_def steady_now_def
      try_timeout_if_expired_def try_timeout_def perform_quiet interfere_quiet
      is_expired_def timeout_locked_Some Let_def quiet_def interfere_def
      split: option.splits if_splits)

lemma timeout_locked_terminal:
  "\<not> is_terminal r \<Longrightarrow> is_terminal (fst (the (timeout_locked r)))"
  by (simp add: timeout_locked_Some Let_def is_terminal_def)

lemma dead_now_reap [quiet_simps]: "quiet w \<Longrightarrow> dead_now (reap p w) q = dead_now w q"
  by (auto simp: dead_now_def reap_reqs timeout_locked_terminal split: option.splits)

lemma reap_live_reqs: "quiet w \<Longrightarrow> \<not> dead_now w (Some a) \<Longrightarrow> w_reqs (reap p w) a = w_reqs w a"
  by (simp add: reap_reqs dead_now_def)

text \<open>The state before anything has run: the given requests, closed doors, no other threads.\<close>

definition fresh_world :: "(addr \<Rightarrow> InferenceRequest) \<Rightarrow> World" where
  "fresh_world reqs =
     \<lparr>w_reqs = reqs, w_clock = 0, w_calls = [],
      w_lane = \<lambda>_. \<lparr>bq_capacity = 1, bq_queue = [], bq_closed = False\<rparr>,
      w_queued_count = \<lambda>_. 0, w_accepting = \<lambda>_. False, w_env = []\<rparr>"

lemma fresh_world_quiet [simp]: "quiet (fresh_world reqs)"
  by (simp add: quiet_def fresh_world_def)

section \<open>Wake-ups\<close>

lemma env_wakes_n_le: "w' \<in> set (env_wakes_n n w) \<Longrightarrow> world_le w w'"
proof (induction n arbitrary: w)
  case 0
  then show ?case by simp
next
  case (Suc n)
  then show ?case
    by (auto simp: Let_def intro: interfere_le world_le_trans [OF interfere_le])
qed

lemma env_wakes_le: "w' \<in> set (env_wakes w) \<Longrightarrow> world_le w w'"
  by (simp add: env_wakes_def env_wakes_n_le)

lemma clock_le: "world_le w (w\<lparr>w_clock := max (w_clock w) d\<rparr>)"
  by (auto simp: world_le_def)

lemma timed_wakes_le: "(w', b) \<in> set (timed_wakes d w) \<Longrightarrow> world_le w w'"
proof -
  assume "(w', b) \<in> set (timed_wakes d w)"
  moreover have "world_le w (last (w # env_wakes w))"
    using env_wakes_le [of "last (env_wakes w)" w] by (auto simp: last_in_set)
  ultimately show ?thesis
    by (auto simp: timed_wakes_def Let_def intro: env_wakes_le world_le_trans [OF _ clock_le])
qed

lemma timed_wait_answers: "\<exists>r. cv_wait_until pred (timed_wakes d w) s = Some r"
proof -
  have "\<exists>r. cv_wait_until pred (xs @ [(t, True)]) s = Some r" for xs t
  proof (induction xs arbitrary: s)
    case Nil
    then show ?case by (cases "pred s") (auto simp: cv_wait_until_Cons)
  next
    case (Cons x xs)
    then show ?case
      by (cases "pred s"; cases x; cases "snd x") (auto simp: cv_wait_until_Cons)
  qed
  then show ?thesis by (simp add: timed_wakes_def Let_def)
qed

text \<open>Every lane of the shared state is a queue slot.\<close>

definition set_lane :: "WorkerId \<Rightarrow> RequestPtr BoundedQueue \<Rightarrow> World \<Rightarrow> World" where
  "set_lane k q w = w\<lparr>w_lane := (w_lane w)(k := q)\<rparr>"

interpretation lane: queue_slot "\<lambda>w. w_lane w k" "set_lane k" for k
  by unfold_locales (auto simp: set_lane_def)

lemma set_lane_le:
  "bq_capacity q = bq_capacity (w_lane w k) \<Longrightarrow> (bq_closed (w_lane w k) \<longrightarrow> bq_closed q) \<Longrightarrow>
   (bq_inv (w_lane w k) \<longrightarrow> bq_inv q) \<Longrightarrow> world_le w (set_lane k q w)"
  by (auto simp: world_le_def set_lane_def)

section \<open>A request that only one thread moves through its lifecycle\<close>

text \<open>
  At any time one thread at most is in charge of taking a request to its next state: the
  thread that submits it, then the routing thread, then a worker. The others may settle it
  (cancel it, time it out) but never call \<^verbatim>\<open>transition_to\<close> on it.
\<close>

definition sole_owner :: "addr \<Rightarrow> World \<Rightarrow> bool" where
  "sole_owner a w \<longleftrightarrow> (\<forall>acts \<in> set (w_env w). \<forall>s. EnvReq a (OpTransition s) \<notin> set acts)"

definition settles :: "addr \<Rightarrow> World \<Rightarrow> World \<Rightarrow> bool" where
  "settles a w w' \<longleftrightarrow>
     world_le w w' \<and>
     (rq_state (w_reqs w' a) = rq_state (w_reqs w a) \<or> is_terminal (w_reqs w' a))"

lemma settles_refl [simp, intro]: "settles a w w"
  by (simp add: settles_def)

lemma settles_trans [trans]: "settles a u v \<Longrightarrow> settles a v w \<Longrightarrow> settles a u w"
  unfolding settles_def by (metis world_le_terminal world_le_trans is_terminal_def)

lemma settles_le: "settles a w w' \<Longrightarrow> world_le w w'"
  by (simp add: settles_def)

lemma sole_owner_le: "sole_owner a w \<Longrightarrow> world_le w w' \<Longrightarrow> sole_owner a w'"
  by (fastforce simp: sole_owner_def world_le_def)

lemma sole_owner_quiet: "quiet w \<Longrightarrow> sole_owner a w"
  by (simp add: quiet_def sole_owner_def)

lemma op_locked_settles:
  "op_locked x r = Some (r', n) \<Longrightarrow> \<forall>s. x \<noteq> OpTransition s \<Longrightarrow>
     rq_state r' = rq_state r \<or> is_terminal r'"
  by (cases x) (auto simp: locked_defs is_terminal_def Let_def split: if_splits)

lemma env_apply_settles:
  assumes "\<forall>s. e \<noteq> EnvReq a (OpTransition s)"
  shows "settles a w (env_apply e w)"
proof (cases e)
  case (EnvReq b x)
  show ?thesis
  proof (cases "op_locked x (w_reqs w b)")
    case None
    then show ?thesis using EnvReq by simp
  next
    case (Some y)
    then show ?thesis
      using EnvReq assms env_apply_le [of w e] op_locked_settles [of x "w_reqs w b" "fst y" "snd y"]
      by (cases y) (auto simp: settles_def)
  qed
qed (use env_apply_le [of w e] in \<open>auto simp: settles_def\<close>)

lemma fold_env_apply_settles:
  "\<forall>s. EnvReq a (OpTransition s) \<notin> set es \<Longrightarrow> settles a w (fold env_apply es w)"
proof (induction es arbitrary: w)
  case Nil
  then show ?case by simp
next
  case (Cons e es)
  then have "settles a w (env_apply e w)" by (intro env_apply_settles) auto
  with Cons show ?case using settles_trans by fastforce
qed

lemma interfere_settles: "sole_owner a w \<Longrightarrow> settles a w (interfere w)"
proof (cases "w_env w")
  case Nil
  then show ?thesis by (simp add: interfere_def)
next
  case (Cons acts rest)
  assume "sole_owner a w"
  with Cons have "settles a (w\<lparr>w_env := rest\<rparr>) (fold env_apply acts (w\<lparr>w_env := rest\<rparr>))"
    by (intro fold_env_apply_settles) (simp add: sole_owner_def)
  moreover have "world_le w (interfere w)" by (rule interfere_le)
  ultimately show ?thesis using Cons by (simp add: settles_def interfere_def)
qed

lemma read_req_settles: "sole_owner a w \<Longrightarrow> settles a w (snd (read_req b w))"
  by (simp add: read_req_def Let_def interfere_settles)

lemma steady_now_settles: "sole_owner a w \<Longrightarrow> settles a w (snd (steady_now w))"
  by (simp add: steady_now_def Let_def interfere_settles)

lemma perform_settles:
  assumes "sole_owner a w" and "b \<noteq> a \<or> (\<forall>s. x \<noteq> OpTransition s)"
  shows "settles a w (snd (perform x b w))"
proof (cases "op_locked x (w_reqs (interfere w) b)")
  case None
  then show ?thesis using assms(1) by (simp add: perform_def Let_def interfere_settles)
next
  case (Some y)
  obtain r obs sn where y: "y = (r, (obs, sn))" by (cases y) auto
  let ?w1 = "interfere w"
  let ?w2 = "?w1\<lparr>w_reqs := (w_reqs ?w1)(b := r)\<rparr>"
  have so: "sole_owner a ?w1" using assms(1) sole_owner_le interfere_le by blast
  have "settles a w ?w1" using assms(1) by (rule interfere_settles)
  also have "settles a ?w1 ?w2"
    using Some y assms(2) op_locked_settles [of x "w_reqs ?w1 b" r "(obs, sn)"]
    by (auto simp: settles_def intro: update_req_le op_locked_evolves)
  also have "settles a ?w2 (interfere ?w2)"
    by (rule interfere_settles) (use so in \<open>simp add: sole_owner_def\<close>)
  also have "settles a (interfere ?w2) (invoke_observers obs sn (interfere ?w2))"
    by (simp add: settles_def invoke_observers_le)
  finally show ?thesis using Some y by (simp add: perform_def Let_def)
qed

lemma try_timeout_if_expired_settles:
  assumes "sole_owner a w"
  shows "settles a w (snd (try_timeout_if_expired now b w))"
proof -
  obtain r w1 where r: "read_req b w = (r, w1)" by fastforce
  then have 1: "settles a w w1" using read_req_settles [OF assms, of b] by simp
  then have "settles a w1 (snd (try_timeout b w1))"
    unfolding try_timeout_def
    by (intro perform_settles sole_owner_le [OF assms] settles_le) auto
  with 1 r show ?thesis
    by (auto simp: try_timeout_if_expired_def intro: settles_trans)
qed

lemma is_dead_request_settles:
  assumes "sole_owner a w"
  shows "settles a w (snd (is_dead_request p w))"
proof (cases p)
  case None
  then show ?thesis by simp
next
  case (Some b)
  obtain r w1 where 1: "read_req b w = (r, w1)" by fastforce
  obtain now w2 where 2: "steady_now w1 = (now, w2)" by fastforce
  obtain x w3 where 3: "try_timeout_if_expired now b w2 = (x, w3)" by fastforce
  obtain r' w4 where 4: "read_req b w3 = (r', w4)" by fastforce
  have s1: "settles a w w1" using read_req_settles [OF assms, of b] 1 by simp
  have s2: "settles a w1 w2"
    using steady_now_settles [OF sole_owner_le [OF assms settles_le [OF s1]]] 2 by simp
  have s12: "settles a w w2" using s1 s2 by (rule settles_trans)
  have s3: "settles a w2 w3"
    using try_timeout_if_expired_settles [OF sole_owner_le [OF assms settles_le [OF s12]], of now b] 3
    by simp
  have s13: "settles a w w3" using s12 s3 by (rule settles_trans)
  have s4: "settles a w3 w4"
    using read_req_settles [OF sole_owner_le [OF assms settles_le [OF s13]], of b] 4 by simp
  show ?thesis
    using Some 1 2 3 4 s1 settles_trans [OF s13 s4] by (auto simp: is_dead_request_def)
qed

section \<open>Steps that leave the lanes alone\<close>

text \<open>
  The steps of a thread outside the queue operations take nothing from a lane, and unless
  other threads act in between, the lanes stay the same.
\<close>

definition lane_frame :: "World \<Rightarrow> World \<Rightarrow> bool" where
  "lane_frame w w' \<longleftrightarrow> world_le w w' \<and> (w_env w' = w_env w \<longrightarrow> w_lane w' = w_lane w) \<and>
     (\<forall>k. prefix (bq_queue (w_lane w k)) (bq_queue (w_lane w' k)))"

lemma world_le_env: "world_le w w' \<Longrightarrow> \<exists>es. w_env w = es @ w_env w'"
  by (simp add: world_le_def)

lemma world_le_env_antisym:
  assumes "world_le u v" "world_le v w" "w_env w = w_env u"
  shows "w_env v = w_env u"
proof -
  obtain es es' where e: "w_env u = es @ w_env v" "w_env v = es' @ w_env w"
    using assms(1,2) world_le_env by blast
  then have "length (w_env u) = length es + length es' + length (w_env w)" by (metis add.assoc length_append)
  then have "es = []" using assms(3) by simp
  then show ?thesis using e(1) by simp
qed

lemma lane_frame_refl [simp, intro]: "lane_frame w w"
  by (simp add: lane_frame_def)

lemma lane_frame_trans [trans]:
  assumes "lane_frame u v" "lane_frame v w"
  shows "lane_frame u w"
proof -
  have le: "world_le u v" "world_le v w" using assms by (simp_all add: lane_frame_def)
  have "w_lane w = w_lane u" if "w_env w = w_env u"
  proof -
    have "w_env v = w_env u" using world_le_env_antisym [OF le that] .
    then show ?thesis using assms that by (simp add: lane_frame_def)
  qed
  moreover have "prefix (bq_queue (w_lane u k)) (bq_queue (w_lane w k))" for k
    using assms prefix_order.trans unfolding lane_frame_def by blast
  ultimately show ?thesis using world_le_trans [OF le] by (simp add: lane_frame_def)
qed

lemma lane_frame_le: "lane_frame w w' \<Longrightarrow> world_le w w'"
  by (simp add: lane_frame_def)

lemma fold_env_apply_env [simp]: "w_env (fold env_apply es w) = w_env w"
  by (induction es arbitrary: w) auto

lemma interfere_env: "w_env (interfere w) = tl (w_env w)"
  by (auto simp: interfere_def split: list.splits)

lemma env_apply_prefix: "prefix (bq_queue (w_lane w k)) (bq_queue (w_lane (env_apply e w) k))"
  by (cases e) (auto simp: try_push_def push_back_def close_queue_def split: option.splits)

lemma fold_env_apply_prefix: "prefix (bq_queue (w_lane w k)) (bq_queue (w_lane (fold env_apply es w) k))"
proof (induction es arbitrary: w)
  case (Cons e es)
  then show ?case using prefix_order.trans [OF env_apply_prefix [of w k e]] by simp
qed simp

lemma interfere_frame: "lane_frame w (interfere w)"
proof (cases "w_env w")
  case Nil
  then show ?thesis by (simp add: interfere_def)
next
  case (Cons acts rest)
  have "prefix (bq_queue (w_lane w k)) (bq_queue (w_lane (interfere w) k))" for k
    using Cons fold_env_apply_prefix [of "w\<lparr>w_env := rest\<rparr>" k acts] by (simp add: interfere_def)
  then show ?thesis using Cons by (simp add: lane_frame_def interfere_le interfere_env)
qed

lemma steady_now_frame: "lane_frame w (snd (steady_now w))"
  by (simp add: steady_now_def Let_def interfere_frame)

lemma read_req_frame: "lane_frame w (snd (read_req a w))"
  by (simp add: read_req_def Let_def interfere_frame)

lemma perform_frame: "lane_frame w (snd (perform x a w))"
proof (cases "op_locked x (w_reqs (interfere w) a)")
  case None
  then show ?thesis by (simp add: perform_def Let_def interfere_frame)
next
  case (Some y)
  obtain r obs sn where y: "y = (r, (obs, sn))" by (cases y) auto
  let ?w1 = "interfere w"
  let ?w2 = "?w1\<lparr>w_reqs := (w_reqs ?w1)(a := r)\<rparr>"
  have "lane_frame w ?w1" by (rule interfere_frame)
  also have "lane_frame ?w1 ?w2"
    using Some y by (auto simp: lane_frame_def intro: update_req_le op_locked_evolves)
  also have "lane_frame ?w2 (interfere ?w2)" by (rule interfere_frame)
  also have "lane_frame (interfere ?w2) (invoke_observers obs sn (interfere ?w2))"
    by (simp add: lane_frame_def invoke_observers_le)
  finally show ?thesis using Some y by (simp add: perform_def Let_def)
qed

lemma try_frame:
  "lane_frame w (snd (try_complete res a w))" "lane_frame w (snd (try_fail e a w))"
  "lane_frame w (snd (try_reject e a w))" "lane_frame w (snd (try_timeout a w))"
  by (simp_all add: try_complete_def try_fail_def try_reject_def try_timeout_def perform_frame)

lemma transition_to_snd: "snd (transition_to s a w) = snd (perform (OpTransition s) a w)"
  by (auto simp: transition_to_def split: prod.splits bool.splits)

lemma transition_to_frame: "lane_frame w (snd (transition_to s a w))"
  by (simp add: transition_to_snd perform_frame)

lemma try_timeout_if_expired_frame: "lane_frame w (snd (try_timeout_if_expired now a w))"
proof -
  obtain r w1 where r: "read_req a w = (r, w1)" by fastforce
  then have "lane_frame w w1" using read_req_frame [of w a] by simp
  then show ?thesis
    using r lane_frame_trans [OF _ try_frame(4)] by (auto simp: try_timeout_if_expired_def)
qed

lemma is_dead_request_frame: "lane_frame w (snd (is_dead_request p w))"
proof (cases p)
  case None
  then show ?thesis by simp
next
  case (Some a)
  obtain r w1 where 1: "read_req a w = (r, w1)" by fastforce
  obtain now w2 where 2: "steady_now w1 = (now, w2)" by fastforce
  obtain b w3 where 3: "try_timeout_if_expired now a w2 = (b, w3)" by fastforce
  obtain r' w4 where 4: "read_req a w3 = (r', w4)" by fastforce
  have f1: "lane_frame w w1" using read_req_frame [of w a] 1 by simp
  also have "lane_frame w1 w2" using steady_now_frame [of w1] 2 by simp
  also have "lane_frame w2 w3" using try_timeout_if_expired_frame [of w2 now a] 3 by simp
  also have "lane_frame w3 w4" using read_req_frame [of w3 a] 4 by simp
  finally show ?thesis using Some 1 2 3 4 f1 by (auto simp: is_dead_request_def)
qed

text \<open>
  The steps that take no request anywhere but to a terminal state, which is all that the
  schedulers do to the requests they hold.
\<close>

definition calm_le :: "World \<Rightarrow> World \<Rightarrow> bool" where
  "calm_le w w' \<longleftrightarrow> lane_frame w w' \<and> (\<forall>a. sole_owner a w \<longrightarrow> settles a w w')"

lemma calm_le_refl [simp, intro]: "calm_le w w"
  by (simp add: calm_le_def)

lemma calm_le_frame: "calm_le w w' \<Longrightarrow> lane_frame w w'"
  by (simp add: calm_le_def)

lemma calm_le_world: "calm_le w w' \<Longrightarrow> world_le w w'"
  by (simp add: calm_le_def lane_frame_le)

lemma calm_le_settles: "calm_le w w' \<Longrightarrow> sole_owner a w \<Longrightarrow> settles a w w'"
  by (simp add: calm_le_def)

lemma calm_le_trans [trans]:
  assumes "calm_le u v" "calm_le v w"
  shows "calm_le u w"
proof -
  have "settles a u w" if "sole_owner a u" for a
    using settles_trans [OF calm_le_settles [OF assms(1) that]]
      calm_le_settles [OF assms(2) sole_owner_le [OF that calm_le_world [OF assms(1)]]] .
  then show ?thesis using lane_frame_trans [OF calm_le_frame calm_le_frame, OF assms] by (simp add: calm_le_def)
qed

lemma calm_le_terminal: "calm_le w w' \<Longrightarrow> is_terminal (w_reqs w a) \<Longrightarrow> is_terminal (w_reqs w' a)"
  by (rule world_le_terminal [OF calm_le_world])

lemma interfere_calm: "calm_le w (interfere w)"
  by (simp add: calm_le_def interfere_frame interfere_settles)

lemma is_dead_request_calm: "calm_le w (snd (is_dead_request p w))"
  by (simp add: calm_le_def is_dead_request_frame is_dead_request_settles)

text \<open>After an attempt to settle a request that is allowed in its state, it is terminal.\<close>

lemma perform_terminal:
  assumes "perform x a w = (b, w')" "op_locked x (w_reqs (interfere w) a) = Some (r, n)" "is_terminal r"
  shows "is_terminal (w_reqs w' a)"
proof -
  let ?w1 = "interfere w"
  let ?w2 = "?w1\<lparr>w_reqs := (w_reqs ?w1)(a := r)\<rparr>"
  obtain obs sn where n: "n = (obs, sn)" by fastforce
  have "w' = invoke_observers obs sn (interfere ?w2)"
    using assms n by (simp add: perform_def Let_def)
  moreover have "is_terminal (w_reqs (interfere ?w2) a)"
    using assms(3) by (intro world_le_terminal [OF interfere_le]) simp
  ultimately show ?thesis by simp
qed

end
