(* ===== verification/AR_Scheduler.thy ===== *)
theory AR_Scheduler
  imports AR_World
begin

text \<open>
  The scheduler interface \<^verbatim>\<open>IRequestScheduler\<close>, its first-in first-out implementation
  (\<^verbatim>\<open>scheduler.hpp\<close>, \<^verbatim>\<open>scheduler.cpp\<close>) and the admission controller that uses it
  (\<^verbatim>\<open>admission_controller.cpp\<close>).

  A call of \<^verbatim>\<open>next\<close> gets the scheduler together with the shared state, and the pairs it
  finds when it is woken up; \<open>None\<close> means that the caller is blocked. The interface is the
  locale \<open>request_scheduler\<close>; its laws speak about the requests the scheduler holds.
\<close>

section \<open>The interface\<close>

type_synonym 's sched_next =
  "('s \<times> World) list \<Rightarrow> 's \<times> World \<Rightarrow> (RequestPtr option \<times> ('s \<times> World) \<times> ('s \<times> World) list) option"

text \<open>
  The calls made on one scheduler, in the order in which they take its mutex. A run collects
  the requests it accepts and the ones it hands out; a call of \<^verbatim>\<open>next\<close> that would block is
  left out.
\<close>

datatype sched_event = SEnqueue RequestPtr | SNext | SClose

fun sched_run ::
  "(World \<Rightarrow> RequestPtr \<Rightarrow> 's \<Rightarrow> Status \<times> 's) \<Rightarrow> 's sched_next \<Rightarrow> ('s \<Rightarrow> 's) \<Rightarrow>
   sched_event list \<Rightarrow> 's \<times> World \<Rightarrow> RequestPtr list \<times> RequestPtr list \<times> 's \<times> World" where
  "sched_run enqueue next close [] (s, w) = ([], [], (s, w))"
| "sched_run enqueue next close (SEnqueue p # xs) (s, w) =
     (case enqueue w p s of (st, s1) \<Rightarrow>
      case sched_run enqueue next close xs (s1, w) of (ins, outs, sw) \<Rightarrow>
        (if status_ok st then p # ins else ins, outs, sw))"
| "sched_run enqueue next close (SClose # xs) (s, w) = sched_run enqueue next close xs (close s, w)"
| "sched_run enqueue next close (SNext # xs) (s, w) =
     (case next [] (s, w) of
        None \<Rightarrow> sched_run enqueue next close xs (s, w)
      | Some (r, sw1, _) \<Rightarrow>
          (case sched_run enqueue next close xs sw1 of (ins, outs, sw) \<Rightarrow>
             (ins, case r of None \<Rightarrow> outs | Some p \<Rightarrow> p # outs, sw)))"

locale request_scheduler =
  fixes invar :: "'s \<Rightarrow> bool"
    and held :: "'s \<Rightarrow> RequestPtr list"
    and closed :: "'s \<Rightarrow> bool"
    and enqueue :: "World \<Rightarrow> RequestPtr \<Rightarrow> 's \<Rightarrow> Status \<times> 's"
    and "next" :: "'s sched_next"
    and close :: "'s \<Rightarrow> 's"
    and size :: "'s \<Rightarrow> nat"
    and capacity :: "'s \<Rightarrow> nat"
  assumes size_held: "invar s \<Longrightarrow> size s = length (held s)"
    and size_capacity: "invar s \<Longrightarrow> size s \<le> capacity s"
    and enqueue_invar: "invar s \<Longrightarrow> invar (snd (enqueue w p s))"
    and enqueue_ok:
      "invar s \<Longrightarrow> enqueue w p s = (st, s') \<Longrightarrow> status_ok st \<Longrightarrow>
         mset (held s') = add_mset p (mset (held s)) \<and> size s < capacity s \<and> \<not> closed s"
    and enqueue_error:
      "invar s \<Longrightarrow> enqueue w p s = (st, s') \<Longrightarrow> \<not> status_ok st \<Longrightarrow>
         s' = s \<and> (st_code st = EC_QueueClosed \<and> closed s \<or>
                   st_code st = EC_QueueFull \<and> size s = capacity s \<or>
                   st_code st = EC_InternalError \<and> p = None)"
    and close_invar: "invar s \<Longrightarrow> invar (close s)"
    and close_held: "held (close s) = held s"
    and close_closed: "closed (close s)"
    and next_invar: "invar s \<Longrightarrow> next [] (s, w) = Some (r, (s', w'), rest) \<Longrightarrow> invar s'"
    and next_world: "invar s \<Longrightarrow> next [] (s, w) = Some (r, (s', w'), rest) \<Longrightarrow> calm_le w w'"
    and next_held:
      "invar s \<Longrightarrow> next [] (s, w) = Some (r, (s', w'), rest) \<Longrightarrow>
         \<exists>dropped. mset (held s) = mset (case r of None \<Rightarrow> [] | Some p \<Rightarrow> [p]) + mset (held s') + mset dropped
           \<and> (\<forall>a. Some a \<in> set dropped \<longrightarrow> is_terminal (w_reqs w' a))"
    and next_some: "invar s \<Longrightarrow> next [] (s, w) = Some (Some p, (s', w'), rest) \<Longrightarrow> p \<noteq> None"
    and next_none: "invar s \<Longrightarrow> next [] (s, w) = Some (None, (s', w'), rest) \<Longrightarrow> held s' = []"
    and next_closed: "invar s \<Longrightarrow> next [] (s, w) = Some (r, (s', w'), rest) \<Longrightarrow> closed s' = closed s"
    and next_answers: "invar s \<Longrightarrow> closed s \<Longrightarrow> next [] (s, w) \<noteq> None"
begin

text \<open>A request leaves the scheduler by being handed out or by having died.\<close>

lemma next_accounts_for:
  assumes "invar s" "next [] (s, w) = Some (r, (s', w'), rest)" "Some a \<in> set (held s)"
  shows "r = Some (Some a) \<or> Some a \<in> set (held s') \<or> is_terminal (w_reqs w' a)"
proof -
  obtain dropped where d: "mset (held s) = mset (case r of None \<Rightarrow> [] | Some p \<Rightarrow> [p]) + mset (held s') + mset dropped"
    "\<forall>a. Some a \<in> set dropped \<longrightarrow> is_terminal (w_reqs w' a)"
    using next_held [OF assms(1,2)] by blast
  have "Some a \<in># mset (held s)" using assms(3) by simp
  then have "Some a \<in> set (case r of None \<Rightarrow> [] | Some p \<Rightarrow> [p]) \<or> Some a \<in> set (held s') \<or> Some a \<in> set dropped"
    using d(1) by (metis in_multiset_in_set mset_append set_append Un_iff)
  then show ?thesis using d(2) by (auto split: option.splits)
qed

lemma next_conserves:
  assumes inv: "invar s" and n: "next [] (s, w) = Some (r, (s1, w1), rest)" and le: "calm_le w1 w'"
    and rec: "\<exists>dropped. mset (held s1) + mset ins = mset outs + mset (held s') + mset dropped \<and>
      (\<forall>a. Some a \<in> set dropped \<longrightarrow> is_terminal (w_reqs w' a))"
  shows "calm_le w w' \<and>
    (\<exists>dropped. mset (held s) + mset ins =
        mset (case r of None \<Rightarrow> outs | Some p \<Rightarrow> p # outs) + mset (held s') + mset dropped \<and>
      (\<forall>a. Some a \<in> set dropped \<longrightarrow> is_terminal (w_reqs w' a)))"
proof -
  obtain d where d: "mset (held s1) + mset ins = mset outs + mset (held s') + mset d"
    "\<forall>a. Some a \<in> set d \<longrightarrow> is_terminal (w_reqs w' a)" using rec by blast
  obtain d1 where d1: "mset (held s) = mset (case r of None \<Rightarrow> [] | Some p \<Rightarrow> [p]) + mset (held s1) + mset d1"
    "\<forall>a. Some a \<in> set d1 \<longrightarrow> is_terminal (w_reqs w1 a)" using next_held [OF inv n] by blast
  have "mset (held s) + mset ins = mset (case r of None \<Rightarrow> outs | Some p \<Rightarrow> p # outs) + mset (held s') + mset (d1 @ d)"
    using d1(1) d(1) by (cases r) (simp_all add: ac_simps)
  moreover have "\<forall>a. Some a \<in> set (d1 @ d) \<longrightarrow> is_terminal (w_reqs w' a)" using d1(2) d(2) le calm_le_terminal by auto
  ultimately show ?thesis using calm_le_trans [OF next_world [OF inv n] le] by blast
qed

text \<open>Over a whole run nothing is lost and nothing is handed out twice.\<close>

lemma run_conserves:
  "sched_run enqueue next close xs (s, w) = (ins, outs, (s', w')) \<Longrightarrow> invar s \<Longrightarrow>
   invar s' \<and> calm_le w w' \<and>
   (\<exists>dropped. mset (held s) + mset ins = mset outs + mset (held s') + mset dropped \<and>
      (\<forall>a. Some a \<in> set dropped \<longrightarrow> is_terminal (w_reqs w' a)))"
proof (induction xs arbitrary: s w ins outs)
  case Nil
  then show ?case by (auto intro: exI [of _ "[]"])
next
  case (Cons x xs)
  show ?case
  proof (cases x)
    case (SEnqueue p)
    obtain st s1 where e: "enqueue w p s = (st, s1)" by fastforce
    obtain ins1 where r: "sched_run enqueue next close xs (s1, w) = (ins1, outs, (s', w'))"
      "ins = (if status_ok st then p # ins1 else ins1)"
      using Cons.prems(1) SEnqueue e by (auto split: prod.splits)
    have "invar s1" using enqueue_invar [OF Cons.prems(2), of w p] e by simp
    moreover have "mset (held s) + mset ins = mset (held s1) + mset ins1"
      using enqueue_ok [OF Cons.prems(2) e] enqueue_error [OF Cons.prems(2) e] r(2)
      by (cases "status_ok st") auto
    ultimately show ?thesis using Cons.IH [OF r(1)] by simp
  next
    case SClose
    then show ?thesis
      using Cons.IH [of "close s" w ins outs] Cons.prems close_invar close_held by simp
  next
    case SNext
    show ?thesis
    proof (cases "next [] (s, w)")
      case None
      then show ?thesis using Cons.IH [of s w ins outs] Cons.prems SNext by simp
    next
      case (Some y)
      obtain r s1 w1 rest where y: "y = (r, (s1, w1), rest)" by (metis prod.exhaust)
      then have n: "next [] (s, w) = Some (r, (s1, w1), rest)" using Some by simp
      obtain outs1 where run: "sched_run enqueue next close xs (s1, w1) = (ins, outs1, (s', w'))"
        "outs = (case r of None \<Rightarrow> outs1 | Some p \<Rightarrow> p # outs1)"
        using Cons.prems(1) SNext n by (auto split: prod.splits)
      from Cons.IH [OF run(1) next_invar [OF Cons.prems(2) n]]
      show ?thesis using next_conserves [OF Cons.prems(2) n, of w' ins outs1 s'] run(2) by auto
    qed
  qed
qed

lemma next_from_held:
  assumes "invar s" "next [] (s, w) = Some (Some p, (s', w'), rest)"
  shows "p \<in> set (held s)"
proof -
  obtain dropped where "mset (held s) = mset [p] + mset (held s') + mset dropped"
    using next_held [OF assms] by auto
  then have "p \<in># mset (held s)" by simp
  then show ?thesis by simp
qed

end

section \<open>The first-in first-out scheduler\<close>

type_synonym FifoScheduler = "RequestPtr BoundedQueue"

definition fifo_make :: "nat \<Rightarrow> FifoScheduler or_throw" where
  "fifo_make c = make_queue c"

definition fifo_enqueue :: "World \<Rightarrow> RequestPtr \<Rightarrow> FifoScheduler \<Rightarrow> Status \<times> FifoScheduler" where
  "fifo_enqueue w p q = try_push p q"

lemma wait_pop_shrinks:
  assumes "wait_pop fst (\<lambda>q s. (q, snd s)) wakes s0 = Some (Some v, s', rest)"
  shows "(rest = wakes \<and> length (bq_queue (fst s')) < length (bq_queue (fst s0)) \<and> snd s' = snd s0) \<or>
    length rest < length wakes"
proof -
  obtain s where s: "cv_wait (\<lambda>s. bq_queue (fst s) \<noteq> [] \<or> bq_closed (fst s)) wakes s0 = Some (s, rest)"
    "pop_in fst (\<lambda>q s. (q, snd s)) s = (Some v, s')"
    by (rule beside.wait_pop_Some [OF assms])
  have "length (bq_queue (fst s')) < length (bq_queue (fst s)) \<and> snd s' = snd s"
    using s(2) by (auto simp: pop_in_def pop_front_or_none_def split: prod.splits list.splits)
  with cv_wait_Some [OF s(1)] show ?thesis by auto
qed

function fifo_next :: "FifoScheduler sched_next" where
  "fifo_next wakes s0 =
     (case wait_pop fst (\<lambda>q s. (q, snd s)) wakes s0 of
        None \<Rightarrow> None
      | Some (None, s1, rest) \<Rightarrow> Some (None, s1, rest)
      | Some (Some p, s1, rest) \<Rightarrow>
          (case is_dead_request p (snd s1) of (dead, w2) \<Rightarrow>
             if \<not> dead then Some (Some p, (fst s1, w2), rest)
             else fifo_next rest (fst s1, w2)))"
  by pat_completeness auto
termination
  by (relation "measures [\<lambda>(wakes, s). length wakes, \<lambda>(wakes, s). length (bq_queue (fst s))]")
    (auto dest!: wait_pop_shrinks)

declare fifo_next.simps [simp del]

definition fifo_close :: "FifoScheduler \<Rightarrow> FifoScheduler" where
  "fifo_close = close_queue"

definition fifo_size :: "FifoScheduler \<Rightarrow> nat" where
  "fifo_size = queue_size"

definition fifo_capacity :: "FifoScheduler \<Rightarrow> nat" where
  "fifo_capacity = bq_capacity"

text \<open>Without sleeping, \<^verbatim>\<open>next\<close> works through the queue from the front.\<close>

lemma fifo_next_Nil:
  "bq_queue q = [] \<Longrightarrow>
   fifo_next [] (q, w) = (if bq_closed q then Some (None, (q, w), []) else None)"
  by (subst fifo_next.simps) (simp add: wait_pop_def cv_wait_Nil pop_in_def)

lemma fifo_next_Cons:
  "bq_queue q = p # ps \<Longrightarrow>
   fifo_next [] (q, w) =
     (case is_dead_request p w of (dead, w2) \<Rightarrow>
        if \<not> dead then Some (Some p, (q\<lparr>bq_queue := ps\<rparr>, w2), [])
        else fifo_next [] (q\<lparr>bq_queue := ps\<rparr>, w2))"
  by (subst fifo_next.simps)
    (simp add: wait_pop_def pop_in_def pop_front_or_none_def split: prod.splits)

lemma fifo_next_spec:
  assumes "fifo_next [] (q, w) = Some (r, (q', w'), rest)"
  shows "calm_le w w' \<and> bq_capacity q' = bq_capacity q \<and> bq_closed q' = bq_closed q \<and>
    (\<exists>dropped. bq_queue q = dropped @ (case r of None \<Rightarrow> [] | Some p \<Rightarrow> [p]) @ bq_queue q' \<and>
       (\<forall>a. Some a \<in> set dropped \<longrightarrow> is_terminal (w_reqs w' a))) \<and>
    (case r of None \<Rightarrow> bq_queue q' = [] \<and> bq_closed q'
             | Some p \<Rightarrow> \<exists>a. p = Some a \<and> \<not> is_terminal (w_reqs w' a))"
  using assms
proof (induction "bq_queue q" arbitrary: q w)
  case Nil
  then show ?case by (auto simp: fifo_next_Nil split: if_splits)
next
  case (Cons p ps)
  obtain dead w2 where d: "is_dead_request p w = (dead, w2)" by fastforce
  have le: "calm_le w w2" using is_dead_request_calm [of w p] d by simp
  show ?case
  proof (cases dead)
    case False
    then have "\<exists>a. p = Some a \<and> \<not> is_terminal (w_reqs w2 a)"
      using d is_dead_request_False [of p w w2] by simp
    then show ?thesis
      using False Cons.prems Cons.hyps(2) d le by (auto simp: fifo_next_Cons [OF Cons.hyps(2) [symmetric]])
  next
    case True
    let ?q = "q\<lparr>bq_queue := ps\<rparr>"
    have run: "fifo_next [] (?q, w2) = Some (r, (q', w'), rest)"
      using Cons.prems d True by (simp add: fifo_next_Cons [OF Cons.hyps(2) [symmetric]])
    note IH = Cons.hyps(1) [of ?q w2, simplified, OF run]
    then obtain dropped where dr: "ps = dropped @ (case r of None \<Rightarrow> [] | Some p \<Rightarrow> [p]) @ bq_queue q'"
      "\<forall>a. Some a \<in> set dropped \<longrightarrow> is_terminal (w_reqs w' a)"
      by blast
    have "is_terminal (w_reqs w' a)" if "p = Some a" for a
      using that d True IH is_dead_request_True [of a w w2] calm_le_terminal [of w2 w' a] by simp
    then have "bq_queue q = (p # dropped) @ (case r of None \<Rightarrow> [] | Some p \<Rightarrow> [p]) @ bq_queue q' \<and>
        (\<forall>a. Some a \<in> set (p # dropped) \<longrightarrow> is_terminal (w_reqs w' a))"
      using dr Cons.hyps(2) by auto
    then show ?thesis using IH le calm_le_trans by blast
  qed
qed

lemma fifo_next_answers: "bq_closed q \<Longrightarrow> fifo_next [] (q, w) \<noteq> None"
proof (induction "bq_queue q" arbitrary: q w)
  case Nil
  then show ?case by (simp add: fifo_next_Nil)
next
  case (Cons p ps)
  then have "fifo_next [] (q\<lparr>bq_queue := ps\<rparr>, w2) \<noteq> None" for w2 by simp
  then show ?case by (auto simp: fifo_next_Cons [OF Cons.hyps(2) [symmetric]] split: prod.splits)
qed

interpretation fifo: request_scheduler
  bq_inv bq_queue bq_closed fifo_enqueue fifo_next fifo_close fifo_size fifo_capacity
proof unfold_locales
  fix s s' :: FifoScheduler and w w' p r rest st
  show "fifo_size s = length (bq_queue s)" by (simp add: fifo_size_def queue_size_def)
  show "bq_inv s \<Longrightarrow> fifo_size s \<le> fifo_capacity s"
    by (simp add: fifo_size_def queue_size_def fifo_capacity_def bq_inv_def)
  show "bq_inv s \<Longrightarrow> bq_inv (snd (fifo_enqueue w p s))"
    by (simp add: fifo_enqueue_def try_push_inv)
  show "bq_inv s \<Longrightarrow> fifo_enqueue w p s = (st, s') \<Longrightarrow> status_ok st \<Longrightarrow>
      mset (bq_queue s') = add_mset p (mset (bq_queue s)) \<and> fifo_size s < fifo_capacity s \<and> \<not> bq_closed s"
    by (auto simp: fifo_enqueue_def try_push_def push_back_def fifo_size_def queue_size_def
        fifo_capacity_def split: if_splits)
  show "bq_inv s \<Longrightarrow> fifo_enqueue w p s = (st, s') \<Longrightarrow> \<not> status_ok st \<Longrightarrow>
      s' = s \<and> (st_code st = EC_QueueClosed \<and> bq_closed s \<or>
                st_code st = EC_QueueFull \<and> fifo_size s = fifo_capacity s \<or>
                st_code st = EC_InternalError \<and> p = None)"
    by (auto simp: fifo_enqueue_def try_push_def fifo_size_def queue_size_def
        fifo_capacity_def bq_inv_def split: if_splits)
  show "bq_inv s \<Longrightarrow> bq_inv (fifo_close s)" by (simp add: fifo_close_def close_queue_inv)
  show "bq_queue (fifo_close s) = bq_queue s" "bq_closed (fifo_close s)"
    by (simp_all add: fifo_close_def close_queue_def)
  assume n: "fifo_next [] (s, w) = Some (r, (s', w'), rest)"
  note spec = fifo_next_spec [OF n]
  show "calm_le w w'" "bq_closed s' = bq_closed s" using spec by blast+
  from spec obtain dropped where d:
    "bq_queue s = dropped @ (case r of None \<Rightarrow> [] | Some p \<Rightarrow> [p]) @ bq_queue s'"
    "\<forall>a. Some a \<in> set dropped \<longrightarrow> is_terminal (w_reqs w' a)" by blast
  show "bq_inv s \<Longrightarrow> bq_inv s'"
  proof -
    assume "bq_inv s"
    moreover have "length (bq_queue s') \<le> length (bq_queue s)" using d(1) by simp
    ultimately show "bq_inv s'" using spec by (auto simp: bq_inv_def)
  qed
  show "\<exists>dropped. mset (bq_queue s) =
       mset (case r of None \<Rightarrow> [] | Some p \<Rightarrow> [p]) + mset (bq_queue s') + mset dropped \<and>
       (\<forall>a. Some a \<in> set dropped \<longrightarrow> is_terminal (w_reqs w' a))"
    by (rule exI [of _ dropped]) (use d in \<open>simp add: ac_simps\<close>)
next
  fix s s' :: FifoScheduler and w w' p rest
  assume "fifo_next [] (s, w) = Some (Some p, (s', w'), rest)"
  from fifo_next_spec [OF this] show "p \<noteq> None" by auto
next
  fix s s' :: FifoScheduler and w w' rest
  assume "fifo_next [] (s, w) = Some (None, (s', w'), rest)"
  from fifo_next_spec [OF this] show "bq_queue s' = []" by auto
next
  fix s :: FifoScheduler and w
  assume "bq_closed s"
  then show "fifo_next [] (s, w) \<noteq> None" by (rule fifo_next_answers)
qed

section \<open>Order\<close>

lemma fifo_run_order:
  "sched_run fifo_enqueue fifo_next fifo_close xs (q, w) = (ins, outs, (q', w')) \<Longrightarrow>
   subseq (outs @ bq_queue q') (bq_queue q @ ins)"
proof (induction xs arbitrary: q w ins outs)
  case Nil
  then show ?case by simp
next
  case (Cons x xs)
  show ?case
  proof (cases x)
    case (SEnqueue p)
    obtain st q1 where e: "fifo_enqueue w p q = (st, q1)" by fastforce
    obtain ins1 where r: "sched_run fifo_enqueue fifo_next fifo_close xs (q1, w) = (ins1, outs, (q', w'))"
      "ins = (if status_ok st then p # ins1 else ins1)"
      using Cons.prems(1) SEnqueue e by (auto split: prod.splits)
    have "bq_queue q1 @ ins1 = bq_queue q @ ins"
      using e r(2) by (auto simp: fifo_enqueue_def try_push_def push_back_def split: if_splits)
    then show ?thesis using Cons.IH [OF r(1)] by simp
  next
    case SClose
    then show ?thesis using Cons.IH [of "fifo_close q" w] Cons.prems by (simp add: fifo_close_def close_queue_def)
  next
    case SNext
    show ?thesis
    proof (cases "fifo_next [] (q, w)")
      case None
      then show ?thesis using Cons SNext by simp
    next
      case (Some y)
      obtain r q1 w1 rest where y: "y = (r, (q1, w1), rest)" by (metis prod.exhaust)
      obtain outs1 where run: "sched_run fifo_enqueue fifo_next fifo_close xs (q1, w1) = (ins, outs1, (q', w'))"
        "outs = (case r of None \<Rightarrow> outs1 | Some p \<Rightarrow> p # outs1)"
        using Cons.prems(1) SNext Some y by (auto split: prod.splits)
      obtain d where d: "bq_queue q = d @ (case r of None \<Rightarrow> [] | Some p \<Rightarrow> [p]) @ bq_queue q1"
        using fifo_next_spec [of q w r q1 w1 rest] Some y by auto
      have "subseq (outs1 @ bq_queue q') (bq_queue q1 @ ins)" by (rule Cons.IH [OF run(1)])
      then have "subseq (outs @ bq_queue q') ((case r of None \<Rightarrow> [] | Some p \<Rightarrow> [p]) @ bq_queue q1 @ ins)"
        using run(2) by (cases r) auto
      then show ?thesis using d by (simp add: list_emb_append2)
    qed
  qed
qed

lemma fifo_run_capacity:
  "sched_run fifo_enqueue fifo_next fifo_close xs (q, w) = (ins, outs, (q', w')) \<Longrightarrow>
   bq_capacity q' = bq_capacity q"
proof (induction fifo_enqueue fifo_next fifo_close xs "(q, w)" arbitrary: q w ins outs rule: sched_run.induct)
  case (4 xs q w)
  then show ?case
    by (auto split: option.splits prod.splits dest: fifo_next_spec)
qed (auto simp: fifo_enqueue_def try_push_def push_back_def fifo_close_def close_queue_def split: prod.splits if_splits)

text \<open>
  C24: The first-in first-out scheduler hands out live requests in the order in which they
  were accepted: after any sequence of calls on a fresh scheduler, the requests handed out
  followed by those still queued are the accepted ones in order, with some left out, and
  those left out have all been settled.
\<close>

theorem fifo_order:
  assumes "fifo_make c = Inr q"
    and "sched_run fifo_enqueue fifo_next fifo_close xs (q, w) = (ins, outs, (q', w'))"
  shows "subseq (outs @ bq_queue q') ins \<and>
    (\<forall>a. Some a \<in> set ins \<longrightarrow>
       Some a \<in> set (outs @ bq_queue q') \<or> is_terminal (w_reqs w' a)) \<and>
    length (bq_queue q') \<le> c"
proof -
  have q: "bq_queue q = []" "bq_inv q" "bq_capacity q = c"
    using assms(1) make_queue_inv [of c q] by (auto simp: fifo_make_def make_queue_def split: if_splits)
  from fifo.run_conserves [OF assms(2) q(2)] obtain d where d: "mset ins = mset (outs @ bq_queue q' @ d)"
    "\<forall>a. Some a \<in> set d \<longrightarrow> is_terminal (w_reqs w' a)" "bq_inv q'"
    using q(1) by (auto simp: ac_simps)
  have "set ins = set (outs @ bq_queue q' @ d)" by (rule mset_eq_setD [OF d(1)])
  moreover have "bq_capacity q' = c" using fifo_run_capacity [OF assms(2)] q(3) by simp
  ultimately show ?thesis using d fifo_run_order [OF assms(2)] q(1) by (auto simp: bq_inv_def)
qed

theorem fifo_order_witness:
  "let w = fresh_world (\<lambda>_. new_request ''r'' ''m'' ''p'' 1);
       (ins, outs, (q, w')) = sched_run fifo_enqueue fifo_next fifo_close
          [SEnqueue (Some 1), SEnqueue (Some 2), SNext] (projr (fifo_make 2), w)
   in subseq (outs @ bq_queue q) ins \<and> ins = [Some 1, Some 2] \<and> length (bq_queue q) \<le> 2"
proof -
  let ?w = "fresh_world (\<lambda>_. new_request ''r'' ''m'' ''p'' 1)"
  let ?r = "sched_run fifo_enqueue fifo_next fifo_close
    [SEnqueue (Some 1), SEnqueue (Some 2), SNext] (projr (fifo_make 2), ?w)"
  have mk: "fifo_make 2 = Inr (projr (fifo_make 2))" by (simp add: fifo_make_def make_queue_def)
  have run: "?r = (fst ?r, fst (snd ?r), (fst (snd (snd ?r)), snd (snd (snd ?r))))" by simp
  have "fst ?r = [Some 1, Some 2]" by code_simp
  then show ?thesis using fifo_order [OF mk run] by (simp add: Let_def case_prod_beta)
qed

end
