(* ===== verification/AR_Admission.thy ===== *)
theory AR_Admission
  imports AR_Scheduler
begin

text \<open>
  The admission controller (\<^verbatim>\<open>admission_controller.cpp\<close>). It works on any scheduler, so the
  scheduler's \<^verbatim>\<open>enqueue\<close> is an argument; the lemmas are proved once, over the scheduler
  interface. They show that admission accounts for every request it is given: a request ends
  up held by the scheduler or settled, and a refusal leaves the scheduler as it was.
\<close>

definition admission_reject_status :: "Status \<Rightarrow> Status" where
  "admission_reject_status st =
     status_error
       (if st_code st = EC_QueueClosed then EC_RuntimeStopped else st_code st)
       (if st_message st = [] then ''request rejected by admission'' else st_message st)"

definition admit ::
  "(World \<Rightarrow> RequestPtr \<Rightarrow> 's \<Rightarrow> Status \<times> 's) \<Rightarrow> RequestPtr \<Rightarrow> 's \<times> World \<Rightarrow> Status \<times> 's \<times> World"
where
  "admit enqueue p sw =
     (case sw of (s, w) \<Rightarrow>
      case p of
        None \<Rightarrow> (status_error EC_InternalError ''null request'', s, w)
      | Some a \<Rightarrow>
          (case steady_now w of (now, w1) \<Rightarrow>
           case try_timeout_if_expired now a w1 of (_, w2) \<Rightarrow>
           case read_req a w2 of (r, w3) \<Rightarrow>
             if is_terminal r then (status_success, s, w3)
             else
               (case transition_to Queued a w3 of (queued, w4) \<Rightarrow>
                  if \<not> status_ok queued then (queued, s, w4)
                  else
                    (case enqueue w4 p s of (est, s1) \<Rightarrow>
                       if \<not> status_ok est then
                         (case try_reject (admission_reject_status est) a w4 of (rejected, w5) \<Rightarrow>
                            if \<not> rejected
                            then (status_error EC_InvalidStateTransition ''request already terminal'', s1, w5)
                            else (admission_reject_status est, s1, w5))
                       else (status_success, s1, w4)))))"

lemma transition_to_cases:
  assumes "transition_to s a w = (st, w')" and "sole_owner a w"
  shows "(status_ok st \<and> is_valid_transition (rq_state (w_reqs (interfere w) a)) s \<and>
            (rq_state (w_reqs w' a) = s \<or> is_terminal (w_reqs w' a))) \<or>
         (st_code st = EC_InvalidStateTransition \<and> w' = interfere w \<and>
            \<not> is_valid_transition (rq_state (w_reqs w' a)) s)"
proof (cases "op_locked (OpTransition s) (w_reqs (interfere w) a)")
  case None
  then have "\<not> is_valid_transition (rq_state (w_reqs (interfere w) a)) s"
    by (auto simp: transition_locked_def try_transition_to_locked_def split: if_splits option.splits)
  with None assms(1) show ?thesis
    by (auto simp: transition_to_def perform_def Let_def)
next
  case (Some y)
  obtain r obs sn where y: "y = (r, (obs, sn))" by (cases y) auto
  have v: "is_valid_transition (rq_state (w_reqs (interfere w) a)) s \<and> rq_state r = s"
    using Some y
    by (auto simp: transition_locked_def try_transition_to_locked_def notify_observers_locked_def
        split: if_splits)
  let ?w2 = "(interfere w)\<lparr>w_reqs := (w_reqs (interfere w))(a := r)\<rparr>"
  have "sole_owner a ?w2"
    using sole_owner_le [OF assms(2) interfere_le] by (simp add: sole_owner_def)
  then have "settles a ?w2 (interfere ?w2)" by (rule interfere_settles)
  moreover have "st = status_success \<and> w' = invoke_observers obs sn (interfere ?w2)"
    using Some y assms(1) by (simp add: transition_to_def perform_def Let_def)
  ultimately show ?thesis using v by (auto simp: settles_def)
qed

lemma reject_terminal:
  assumes "try_reject e a w = (b, w')"
    and "is_terminal (w_reqs (interfere w) a) \<or> rq_state (w_reqs (interfere w) a) \<in> {Received, Queued}"
  shows "is_terminal (w_reqs w' a) \<and> (b \<longrightarrow> rq_state (w_reqs w' a) = Rejected)"
proof (cases "op_locked (OpReject e) (w_reqs (interfere w) a)")
  case None
  then have "is_terminal (w_reqs (interfere w) a)"
    using assms(2)
    by (auto simp: reject_locked_def settle_locked_None_iff is_valid_transition_def)
  with None assms(1) show ?thesis by (auto simp: try_reject_def perform_def Let_def)
next
  case (Some y)
  obtain r obs sn where y: "y = (r, (obs, sn))" by (cases y) auto
  then have r: "rq_state r = Rejected"
    using Some by (auto simp: reject_locked_def settle_locked_Some_iff)
  let ?w2 = "(interfere w)\<lparr>w_reqs := (w_reqs (interfere w))(a := r)\<rparr>"
  have "evolves (w_reqs ?w2 a) (w_reqs (interfere ?w2) a)"
    by (rule world_le_evolves [OF interfere_le])
  then have "rq_state (w_reqs (interfere ?w2) a) = Rejected"
    using r by (simp add: evolves_def is_terminal_def)
  moreover have "w' = invoke_observers obs sn (interfere ?w2)"
    using Some y assms(1) by (simp add: try_reject_def perform_def Let_def)
  ultimately show ?thesis by (simp add: is_terminal_def)
qed

context request_scheduler
begin

lemma refused_settles:
  assumes inv: "invar s" and e: "enqueue w (Some a) s = (est, s1)" and bad: "\<not> status_ok est"
    and so: "sole_owner a w" and st: "rq_state (w_reqs w a) = Queued \<or> is_terminal (w_reqs w a)"
    and rej: "try_reject (admission_reject_status est) a w = (b, w')"
  shows "s1 = s \<and> is_terminal (w_reqs w' a) \<and> world_le w w' \<and> \<not> status_ok (admission_reject_status est)"
proof -
  have same: "s1 = s" "st_code est \<noteq> EC_None" using enqueue_error [OF inv e bad] by auto
  have "is_terminal (w_reqs (interfere w) a) \<or> rq_state (w_reqs (interfere w) a) \<in> {Received, Queued}"
    using interfere_settles [OF so] st world_le_terminal [OF interfere_le, of w a]
    by (auto simp: settles_def)
  then have "is_terminal (w_reqs w' a)" using reject_terminal [OF rej] by blast
  moreover have "world_le w w'" using try_le(3) [of w "admission_reject_status est" a] rej by simp
  ultimately show ?thesis using same by (simp add: admission_reject_status_def)
qed

text \<open>The checks before a request is queued, and a transition to \<open>Queued\<close> that is refused.\<close>

lemma admission_checks:
  assumes so: "sole_owner a w" and 1: "steady_now w = (now, w1)" and 2: "try_timeout_if_expired now a w1 = (x, w2)"
    and 3: "read_req a w2 = (r, w3)"
  shows "settles a w w3"
proof -
  have s1: "settles a w w1" using steady_now_settles [OF so] 1 by simp
  have s2: "settles a w w2"
    using settles_trans [OF s1 try_timeout_if_expired_settles [OF sole_owner_le [OF so settles_le [OF s1]]],
        of now a] 2 by simp
  show ?thesis
    using settles_trans [OF s2 read_req_settles [OF sole_owner_le [OF so settles_le [OF s2]]], of a] 3 by simp
qed

lemma refused_transition:
  assumes so: "sole_owner a w" and st: "rq_state (w_reqs w a) = Received"
    and t: "transition_to Queued a w = (queued, w')" "\<not> status_ok queued"
  shows "is_terminal (w_reqs w' a)"
proof -
  have "rq_state (w_reqs (interfere w) a) = Received \<or> is_terminal (w_reqs (interfere w) a)"
    using interfere_settles [OF so] st by (simp add: settles_def)
  moreover have "w' = interfere w \<and> \<not> is_valid_transition (rq_state (w_reqs w' a)) Queued"
    using transition_to_cases [OF t(1) so] t(2) by auto
  ultimately show ?thesis by (auto simp: is_valid_transition_def)
qed

text \<open>
  One call of \<^verbatim>\<open>admit\<close> on a fresh request, with the other threads free to cancel it or
  time it out at any moment.
\<close>

lemma admit_accounts:
  assumes inv: "invar s"
    and so: "sole_owner a w"
    and fresh: "rq_state (w_reqs w a) = Received \<or> is_terminal (w_reqs w a)"
    and run: "admit enqueue (Some a) (s, w) = (st, s', w')"
  shows "invar s' \<and> world_le w w' \<and>
    ((s' = s \<and> is_terminal (w_reqs w' a)) \<or>
     (status_ok st \<and> mset (held s') = add_mset (Some a) (mset (held s)) \<and>
      (rq_state (w_reqs w' a) = Queued \<or> is_terminal (w_reqs w' a))))"
proof -
  obtain now w1 where 1: "steady_now w = (now, w1)" by fastforce
  obtain x w2 where 2: "try_timeout_if_expired now a w1 = (x, w2)" by fastforce
  obtain r w3 where 3: "read_req a w2 = (r, w3)" by fastforce
  have s3: "settles a w w3" by (rule admission_checks [OF so 1 2 3])
  have r: "r = w_reqs w3 a" using 3 by (auto simp: read_req_def Let_def)
  have so3: "sole_owner a w3" using so s3 sole_owner_le settles_le by blast
  obtain queued w4 where 4: "transition_to Queued a w3 = (queued, w4)" by fastforce
  have le4: "world_le w w4"
    using world_le_trans [OF settles_le [OF s3] transition_to_le, of Queued a] 4 by simp
  consider (dead) "is_terminal r" | (late) "\<not> is_terminal r" "\<not> status_ok queued"
    | (queued) "\<not> is_terminal r" "status_ok queued" by blast
  then show ?thesis
  proof cases
    case dead
    then show ?thesis using run 1 2 3 r inv settles_le [OF s3] by (auto simp: admit_def)
  next
    case late
    have "rq_state (w_reqs w3 a) = Received"
      using late(1) r s3 fresh world_le_terminal [OF settles_le [OF s3]] by (auto simp: settles_def)
    then have "is_terminal (w_reqs w4 a)" using refused_transition [OF so3 _ 4 late(2)] by blast
    then show ?thesis using run 1 2 3 4 late inv le4 by (simp add: admit_def)
  next
    case queued
    then have st4: "rq_state (w_reqs w4 a) = Queued \<or> is_terminal (w_reqs w4 a)"
      using transition_to_cases [OF 4 so3] by (auto simp: status_ok_def)
    obtain est s1 where e: "enqueue w4 (Some a) s = (est, s1)" by fastforce
    obtain b w5 where 5: "try_reject (admission_reject_status est) a w4 = (b, w5)" by fastforce
    show ?thesis
    proof (cases "status_ok est")
      case True
      then show ?thesis
        using run 1 2 3 4 e queued le4 st4 enqueue_ok [OF inv e True] enqueue_invar [OF inv, of w4 "Some a"]
        by (simp add: admit_def)
    next
      case False
      note ref = refused_settles [OF inv e False sole_owner_le [OF so le4] st4 5]
      then show ?thesis
        using run 1 2 3 4 5 e queued False inv world_le_trans [OF le4]
        by (auto simp: admit_def split: if_splits)
    qed
  qed
qed

end

end
