(* ===== verification/AR_Workload.thy ===== *)
theory AR_Workload
  imports AR_Admission
begin

text \<open>
  The workload-aware scheduler (\<^verbatim>\<open>workload_aware_scheduler.hpp\<close> and \<^verbatim>\<open>.cpp\<close>): entries are
  grouped by model; the largest group is served first, but an entry that has been passed
  over \<^verbatim>\<open>max_bypass\<close> times goes before everything else, oldest first.

  The unordered map of groups is an association list; its order stands for the unspecified
  iteration order of the container. The loops that look at entries call
  \<^verbatim>\<open>is_dead_request\<close>, which reads the clock and may time a request out, so they thread the
  shared state. The recursion of \<^verbatim>\<open>select_locked\<close> is given fuel; one more than the number of
  entries always suffices.
\<close>

section \<open>State\<close>

record Entry =
  en_request :: RequestPtr
  en_enqueue_sequence :: u64
  en_bypass_count :: u64

type_synonym groups = "(string \<times> Entry list) list"

record WorkloadAwareSchedulerMetrics =
  wm_reordered_dispatches :: u64
  wm_starvation_promotions :: u64

record WorkloadAwareScheduler =
  wa_capacity :: nat
  wa_max_bypass :: u64
  wa_by_model :: groups
  wa_size :: nat
  wa_next_sequence :: u64
  wa_closed :: bool
  wa_metrics :: WorkloadAwareSchedulerMetrics

definition wa_make :: "nat \<Rightarrow> u64 \<Rightarrow> WorkloadAwareScheduler or_throw" where
  "wa_make c mb =
     (if c = 0 then Inl ''WorkloadAwareScheduler capacity must be > 0''
      else if mb < 1 then Inl ''WorkloadAwareScheduler max_bypass must be >= 1''
      else Inr \<lparr>wa_capacity = c, wa_max_bypass = mb, wa_by_model = [], wa_size = 0,
                wa_next_sequence = 0, wa_closed = False,
                wa_metrics = \<lparr>wm_reordered_dispatches = 0, wm_starvation_promotions = 0\<rparr>\<rparr>)"

section \<open>Pruning dead entries\<close>

fun prune_queue :: "Entry list \<Rightarrow> nat \<Rightarrow> World \<Rightarrow> Entry list \<times> nat \<times> World" where
  "prune_queue [] n w = ([], n, w)"
| "prune_queue (e # es) n w =
     (case is_dead_request (en_request e) w of (dead, w1) \<Rightarrow>
        if dead then prune_queue es (if n > 0 then n - 1 else n) w1
        else (case prune_queue es n w1 of (es', n', w') \<Rightarrow> (e # es', n', w')))"

fun prune_groups :: "groups \<Rightarrow> nat \<Rightarrow> World \<Rightarrow> groups \<times> nat \<times> World" where
  "prune_groups [] n w = ([], n, w)"
| "prune_groups ((m, q) # gs) n w =
     (case prune_queue q n w of (q', n1, w1) \<Rightarrow>
      case prune_groups gs n1 w1 of (gs', n2, w2) \<Rightarrow>
        (if q' = [] then gs' else (m, q') # gs', n2, w2))"

definition prune_dead_entries_locked ::
  "WorkloadAwareScheduler \<Rightarrow> World \<Rightarrow> WorkloadAwareScheduler \<times> World" where
  "prune_dead_entries_locked s w =
     (case prune_groups (wa_by_model s) (wa_size s) w of (gs, n, w') \<Rightarrow>
        (s\<lparr>wa_by_model := gs, wa_size := n\<rparr>, w'))"

section \<open>Enqueueing\<close>

definition group_push :: "string \<Rightarrow> Entry \<Rightarrow> groups \<Rightarrow> groups" where
  "group_push m e gs =
     AList.update m ((case map_of gs m of None \<Rightarrow> [] | Some q \<Rightarrow> q) @ [e]) gs"

definition wa_enqueue ::
  "World \<Rightarrow> RequestPtr \<Rightarrow> WorkloadAwareScheduler \<Rightarrow> Status \<times> WorkloadAwareScheduler" where
  "wa_enqueue w p s =
     (case p of
        None \<Rightarrow> (status_error EC_InternalError ''null request'', s)
      | Some a \<Rightarrow>
          if wa_closed s then (status_error EC_QueueClosed ''scheduler is closed'', s)
          else if wa_capacity s \<le> wa_size s then (status_error EC_QueueFull ''scheduler is full'', s)
          else
            (let e = \<lparr>en_request = p, en_enqueue_sequence = wa_next_sequence s, en_bypass_count = 0\<rparr>
             in (status_success,
                 s\<lparr>wa_next_sequence := wa_next_sequence s + 1,
                   wa_by_model := group_push (rq_model_id (w_reqs w a)) e (wa_by_model s),
                   wa_size := wa_size s + 1\<rparr>)))"

section \<open>Selecting\<close>

text \<open>The least sequence number at the front of a group (lines 94 to 101).\<close>

fun oldest_global :: "groups \<Rightarrow> u64 \<Rightarrow> World \<Rightarrow> u64 \<times> World" where
  "oldest_global [] old w = (old, w)"
| "oldest_global ((m, q) # gs) old w =
     (case q of
        [] \<Rightarrow> oldest_global gs old w
      | e # _ \<Rightarrow>
          (case is_dead_request (en_request e) w of (dead, w1) \<Rightarrow>
             oldest_global gs
               (if \<not> dead \<and> en_enqueue_sequence e < old then en_enqueue_sequence e else old) w1))"

text \<open>The oldest entry that has been passed over too often (lines 103 to 120).\<close>

type_synonym starved_best = "u64 \<times> (string \<times> nat) option"

fun starved_queue ::
  "u64 \<Rightarrow> string \<Rightarrow> nat \<Rightarrow> Entry list \<Rightarrow> starved_best \<Rightarrow> World \<Rightarrow> starved_best \<times> World" where
  "starved_queue mb m i [] best w = (best, w)"
| "starved_queue mb m i (e # es) best w =
     (case is_dead_request (en_request e) w of (dead, w1) \<Rightarrow>
        if dead then starved_queue mb m (i + 1) es best w1
        else if mb \<le> en_bypass_count e \<and> en_enqueue_sequence e < fst best
        then starved_queue mb m (i + 1) es (en_enqueue_sequence e, Some (m, i)) w1
        else starved_queue mb m (i + 1) es best w1)"

fun starved_groups :: "u64 \<Rightarrow> groups \<Rightarrow> starved_best \<Rightarrow> World \<Rightarrow> starved_best \<times> World" where
  "starved_groups mb [] best w = (best, w)"
| "starved_groups mb ((m, q) # gs) best w =
     (case starved_queue mb m 0 q best w of (best1, w1) \<Rightarrow> starved_groups mb gs best1 w1)"

text \<open>The size and the oldest sequence number of the live part of a group (lines 131 to 139).\<close>

fun live_group :: "Entry list \<Rightarrow> nat \<Rightarrow> u64 \<Rightarrow> World \<Rightarrow> nat \<times> u64 \<times> World" where
  "live_group [] n old w = (n, old, w)"
| "live_group (e # es) n old w =
     (case is_dead_request (en_request e) w of (dead, w1) \<Rightarrow>
        if dead then live_group es n old w1
        else live_group es (n + 1) (min old (en_enqueue_sequence e)) w1)"

text \<open>The best group so far: its model, live size and oldest sequence number (lines 122 to 156).\<close>

type_synonym group_best = "(string \<times> nat \<times> u64) option"

definition better_group :: "string \<Rightarrow> nat \<Rightarrow> u64 \<Rightarrow> group_best \<Rightarrow> bool" where
  "better_group m n old best =
     (case best of
        None \<Rightarrow> True
      | Some (bm, bn, bold) \<Rightarrow>
          n > bn \<or> (n = bn \<and> old < bold) \<or> (n = bn \<and> old = bold \<and> m < bm))"

fun largest_group :: "groups \<Rightarrow> group_best \<Rightarrow> World \<Rightarrow> group_best \<times> World" where
  "largest_group [] best w = (best, w)"
| "largest_group ((m, q) # gs) best w =
     (if q = [] then largest_group gs best w
      else
        (case live_group q 0 (- 1) w of (n, old, w1) \<Rightarrow>
           if n = 0 then largest_group gs best w1
           else if better_group m n old best then largest_group gs (Some (m, n, old)) w1
           else largest_group gs best w1))"

text \<open>
  Erasing dead entries from the chosen index on (lines 168 to 174): the entries before the
  index stay, and the dead ones at the index are removed until a live one moves there.
\<close>

fun drop_dead :: "Entry list \<Rightarrow> nat \<Rightarrow> World \<Rightarrow> Entry list \<times> nat \<times> World" where
  "drop_dead [] n w = ([], n, w)"
| "drop_dead (e # es) n w =
     (case is_dead_request (en_request e) w of (dead, w1) \<Rightarrow>
        if dead then drop_dead es (if n > 0 then n - 1 else n) w1 else (e # es, n, w1))"

definition erase_dead_at :: "nat \<Rightarrow> Entry list \<Rightarrow> nat \<Rightarrow> World \<Rightarrow> Entry list \<times> nat \<times> World" where
  "erase_dead_at i q n w =
     (case drop_dead (drop i q) n w of (es, n', w') \<Rightarrow> (take i q @ es, n', w'))"

text \<open>Every live entry that stays behind has been passed over once more (lines 200 to 207).\<close>

fun bump_queue :: "Entry list \<Rightarrow> World \<Rightarrow> Entry list \<times> World" where
  "bump_queue [] w = ([], w)"
| "bump_queue (e # es) w =
     (case is_dead_request (en_request e) w of (dead, w1) \<Rightarrow>
      case bump_queue es w1 of (es', w') \<Rightarrow>
        ((if dead then e else e\<lparr>en_bypass_count := en_bypass_count e + 1\<rparr>) # es', w'))"

fun bump_groups :: "groups \<Rightarrow> World \<Rightarrow> groups \<times> World" where
  "bump_groups [] w = ([], w)"
| "bump_groups ((m, q) # gs) w =
     (case bump_queue q w of (q', w1) \<Rightarrow>
      case bump_groups gs w1 of (gs', w2) \<Rightarrow> ((m, q') # gs', w2))"

text \<open>Storing a group back: an empty one is erased from the map.\<close>

definition put_group :: "string \<Rightarrow> Entry list \<Rightarrow> groups \<Rightarrow> groups" where
  "put_group m q gs = (if q = [] then AList.delete m gs else AList.update m q gs)"

definition count_dispatch ::
  "bool \<Rightarrow> bool \<Rightarrow> WorkloadAwareSchedulerMetrics \<Rightarrow> WorkloadAwareSchedulerMetrics" where
  "count_dispatch reordered starvation ms =
     (let ms1 = (if reordered
                 then ms\<lparr>wm_reordered_dispatches := wm_reordered_dispatches ms + 1\<rparr> else ms)
      in if starvation
         then ms1\<lparr>wm_starvation_promotions := wm_starvation_promotions ms1 + 1\<rparr> else ms1)"

text \<open>The choice of a model and an index (lines 103 to 156), and whether it is a promotion.\<close>

definition choose_entry ::
  "WorkloadAwareScheduler \<Rightarrow> World \<Rightarrow> (string \<times> nat) option \<times> bool \<times> World" where
  "choose_entry s w =
     (case starved_groups (wa_max_bypass s) (wa_by_model s) (- 1, None) w of
        ((_, Some mi), w1) \<Rightarrow> (Some mi, True, w1)
      | ((_, None), w1) \<Rightarrow>
          (case largest_group (wa_by_model s) None w1 of
             (None, w2) \<Rightarrow> (None, False, w2)
           | (Some (m, _, _), w2) \<Rightarrow> (Some (m, 0), False, w2)))"

text \<open>
  Handing out the chosen entry (lines 163 to 209). The left value means that the chosen entry
  was gone and the selection starts over; the right value is the answer.
\<close>

definition dispatch_chosen ::
  "u64 \<Rightarrow> string \<Rightarrow> nat \<Rightarrow> bool \<Rightarrow> WorkloadAwareScheduler \<Rightarrow> World \<Rightarrow>
     (WorkloadAwareScheduler \<times> World) + (RequestPtr option \<times> WorkloadAwareScheduler \<times> World)" where
  "dispatch_chosen oldest m i starvation s w2 =
     (case map_of (wa_by_model s) m of
        None \<Rightarrow> Inr (None, s, w2)
      | Some q \<Rightarrow>
          (case erase_dead_at i q (wa_size s) w2 of (q1, n1, w3) \<Rightarrow>
             if length q1 \<le> i then
               Inl (s\<lparr>wa_by_model := put_group m q1 (wa_by_model s), wa_size := n1\<rparr>, w3)
             else
               (let selected = q1 ! i;
                    s2 = s\<lparr>wa_by_model :=
                             put_group m (take i q1 @ drop (i + 1) q1) (wa_by_model s),
                           wa_size := n1 - 1\<rparr>
                in (case is_dead_request (en_request selected) w3 of (dead, w4) \<Rightarrow>
                      if dead then Inl (s2, w4)
                      else
                        (case bump_groups (wa_by_model s2) w4 of (gs, w5) \<Rightarrow>
                           Inr (Some (en_request selected),
                                s2\<lparr>wa_metrics := count_dispatch
                                     (en_enqueue_sequence selected \<noteq> oldest) starvation
                                     (wa_metrics s2),
                                   wa_by_model := gs\<rparr>, w5))))))"

fun select_locked ::
  "nat \<Rightarrow> WorkloadAwareScheduler \<Rightarrow> World \<Rightarrow>
     (RequestPtr option \<times> WorkloadAwareScheduler \<times> World) option" where
  "select_locked 0 s0 w0 = None"
| "select_locked (Suc fuel) s0 w0 =
     (case prune_dead_entries_locked s0 w0 of (s, w) \<Rightarrow>
      if wa_size s = 0 then Some (None, s, w)
      else
        (case oldest_global (wa_by_model s) (- 1) w of (oldest, w1) \<Rightarrow>
         case choose_entry s w1 of
           (None, _, w2) \<Rightarrow>
             (case prune_dead_entries_locked s w2 of (s', w') \<Rightarrow> Some (None, s', w'))
         | (Some (m, i), starvation, w2) \<Rightarrow>
             (case dispatch_chosen oldest m i starvation s w2 of
                Inl (s', w') \<Rightarrow> select_locked fuel s' w'
              | Inr answer \<Rightarrow> Some answer)))"

declare select_locked.simps [simp del]

definition entries :: "groups \<Rightarrow> Entry list" where
  "entries gs = concat (map snd gs)"

definition wa_next :: "WorkloadAwareScheduler sched_next" where
  "wa_next wakes sw0 =
     (case cv_wait (\<lambda>(s, w). wa_size s > 0 \<or> wa_closed s) wakes sw0 of
        None \<Rightarrow> None
      | Some ((s, w), rest) \<Rightarrow>
          (case prune_dead_entries_locked s w of (s1, w1) \<Rightarrow>
             if wa_size s1 = 0 then Some (None, (s1, w1), rest)
             else
               (case select_locked (Suc (length (entries (wa_by_model s1)))) s1 w1 of
                  None \<Rightarrow> None
                | Some (r, s2, w2) \<Rightarrow> Some (r, (s2, w2), rest))))"

definition wa_close :: "WorkloadAwareScheduler \<Rightarrow> WorkloadAwareScheduler" where
  "wa_close s = s\<lparr>wa_closed := True\<rparr>"

end
