(* ===== verification/AR_Workload_Inv.thy ===== *)
theory AR_Workload_Inv
  imports AR_Workload "HOL-Library.Sublist"
begin

text \<open>
  The workload-aware scheduler keeps its invariant and implements the scheduler interface:
  its groups have distinct models and are never empty, its size counter is the number of
  entries, every call of \<^verbatim>\<open>next\<close> ends, and a request leaves it by being handed out or by
  having died.
\<close>

section \<open>Entries of groups\<close>

lemma subseq_sorted_wrt: "subseq xs ys \<Longrightarrow> sorted_wrt P ys \<Longrightarrow> sorted_wrt P xs"
proof (induction rule: list_emb.induct)
  case (list_emb_Cons2 x y xs ys)
  then show ?case using list_emb_set by fastforce
qed auto

lemma entries_simps [simp]:
  "entries [] = []" "entries ((m, q) # gs) = q @ entries gs"
  by (simp_all add: entries_def)

lemma set_entries: "set (entries gs) = (\<Union>(m, q) \<in> set gs. set q)"
  by (induction gs) auto

lemma map_of_entries: "map_of gs m = Some q \<Longrightarrow> set q \<subseteq> set (entries gs)"
  by (induction gs) (auto split: if_splits)

text \<open>\<open>gone w d\<close>: every request of the entries \<open>d\<close> is settled.\<close>

definition gone :: "World \<Rightarrow> Entry list \<Rightarrow> bool" where
  "gone w d \<longleftrightarrow> (\<forall>e \<in> set d. \<forall>a. en_request e = Some a \<longrightarrow> is_terminal (w_reqs w a))"

lemma gone_Nil [simp]: "gone w []" by (simp add: gone_def)

lemma gone_Cons: "gone w (e # d) \<longleftrightarrow>
    (\<forall>a. en_request e = Some a \<longrightarrow> is_terminal (w_reqs w a)) \<and> gone w d"
  by (auto simp: gone_def)

lemma gone_append [simp]: "gone w (d @ d') \<longleftrightarrow> gone w d \<and> gone w d'"
  by (auto simp: gone_def)

lemma gone_le: "gone w d \<Longrightarrow> calm_le w w' \<Longrightarrow> gone w' d"
  by (meson gone_def calm_le_terminal)

lemma is_dead_gone:
  "is_dead_request (en_request e) w = (True, w1) \<Longrightarrow> gone w1 [e]"
  by (auto simp: gone_def dest: is_dead_request_True)

definition groups_ok :: "groups \<Rightarrow> bool" where
  "groups_ok gs \<longleftrightarrow> distinct (map fst gs) \<and> (\<forall>(m, q) \<in> set gs. q \<noteq> [])"

text \<open>
  \<open>shrinks gs gs' d\<close>: the groups \<open>gs'\<close> are what is left of \<open>gs\<close> after the entries \<open>d\<close>
  have been taken out of their queues and empty groups have been erased.
\<close>

definition shrinks :: "groups \<Rightarrow> groups \<Rightarrow> Entry list \<Rightarrow> bool" where
  "shrinks gs gs' d \<longleftrightarrow>
     mset (entries gs) = mset (entries gs') + mset d \<and>
     (\<forall>(m, q') \<in> set gs'. \<exists>q. (m, q) \<in> set gs \<and> subseq q' q) \<and>
     (groups_ok gs \<longrightarrow> groups_ok gs')"

lemma shrinks_sub:
  assumes "shrinks gs gs' d" "(m, q') \<in> set gs'"
  obtains q where "(m, q) \<in> set gs" "subseq q' q"
proof -
  have "\<forall>(m, q') \<in> set gs'. \<exists>q. (m, q) \<in> set gs \<and> subseq q' q"
    using assms(1) unfolding shrinks_def by (elim conjE)
  from bspec [OF this assms(2)] show ?thesis using that by auto
qed

lemma shrinksI:
  assumes "mset (entries gs) = mset (entries gs') + mset d"
    and "\<And>m q'. (m, q') \<in> set gs' \<Longrightarrow> \<exists>q. (m, q) \<in> set gs \<and> subseq q' q"
    and "groups_ok gs \<Longrightarrow> groups_ok gs'"
  shows "shrinks gs gs' d"
  unfolding shrinks_def using assms by fast

lemma shrinks_refl [intro]: "shrinks gs gs []"
  by (rule shrinksI) auto

lemma shrinks_trans:
  assumes "shrinks a b d" "shrinks b c d'"
  shows "shrinks a c (d @ d')"
proof (rule shrinksI)
  show "mset (entries a) = mset (entries c) + mset (d @ d')" "groups_ok a \<Longrightarrow> groups_ok c"
    using assms by (simp_all add: shrinks_def ac_simps)
  fix m q'' assume "(m, q'') \<in> set c"
  then obtain q' where "(m, q') \<in> set b" "subseq q'' q'" by (rule shrinks_sub [OF assms(2)])
  moreover from this(1) obtain q where "(m, q) \<in> set a" "subseq q' q"
    by (rule shrinks_sub [OF assms(1)])
  ultimately show "\<exists>q. (m, q) \<in> set a \<and> subseq q'' q"
    by (meson subseq_order.order_trans)
qed

lemma shrinks_set: "shrinks gs gs' d \<Longrightarrow> set (entries gs) = set (entries gs') \<union> set d"
  unfolding shrinks_def by (metis set_mset_mset set_mset_union)

lemma shrinks_length: "shrinks gs gs' d \<Longrightarrow> length (entries gs) = length (entries gs') + length d"
  unfolding shrinks_def by (metis size_mset size_union)

section \<open>Pruning\<close>

lemma prune_queue_spec:
  "prune_queue q n w = (q', n', w') \<Longrightarrow>
     calm_le w w' \<and> subseq q' q \<and>
     (\<exists>d. mset q = mset q' + mset d \<and> gone w' d \<and> n' = n - length d)"
proof (induction q arbitrary: n w q' n' w')
  case Nil
  then show ?case by (auto intro: exI [of _ "[]"])
next
  case (Cons e es)
  obtain dead w1 where d: "is_dead_request (en_request e) w = (dead, w1)" by fastforce
  have le: "calm_le w w1" using is_dead_request_calm [of w "en_request e"] d by simp
  show ?case
  proof (cases dead)
    case True
    then have "prune_queue es (n - 1) w1 = (q', n', w')" using Cons.prems d by (simp split: if_splits)
    from Cons.IH [OF this] obtain ds where ih: "calm_le w1 w'" "subseq q' es"
      "mset es = mset q' + mset ds" "gone w' ds" "n' = n - 1 - length ds" by blast
    have "gone w' (e # ds)"
      using ih gone_le [OF is_dead_gone, of e w w1 w'] d True by (simp add: gone_Cons)
    moreover have "mset (e # es) = mset q' + mset (e # ds)" "n' = n - length (e # ds)"
      using ih by simp_all
    ultimately show ?thesis using ih le by (blast intro: calm_le_trans)
  next
    case False
    then obtain es' where r: "prune_queue es n w1 = (es', n', w')" "q' = e # es'"
      using Cons.prems d by (auto split: prod.splits)
    from Cons.IH [OF r(1)] obtain ds where "calm_le w1 w'" "subseq es' es"
      "mset es = mset es' + mset ds" "gone w' ds" "n' = n - length ds" by blast
    then show ?thesis using r(2) le by (auto intro: calm_le_trans)
  qed
qed

lemma prune_groups_spec:
  "prune_groups gs n w = (gs', n', w') \<Longrightarrow>
     calm_le w w' \<and> set (map fst gs') \<subseteq> set (map fst gs) \<and>
     (\<exists>d. shrinks gs gs' d \<and> gone w' d \<and> n' = n - length d)"
proof (induction gs arbitrary: n w gs' n' w')
  case Nil
  then show ?case by (auto intro: exI [of _ "[]"])
next
  case (Cons g gs)
  obtain m q where g: "g = (m, q)" by fastforce
  obtain q' n1 w1 where p: "prune_queue q n w = (q', n1, w1)" by (metis prod_cases3)
  obtain gs1 where r: "prune_groups gs n1 w1 = (gs1, n', w')"
    "gs' = (if q' = [] then gs1 else (m, q') # gs1)"
    using Cons.prems g p by (auto split: prod.splits)
  obtain d1 where 1: "calm_le w w1" "subseq q' q" "mset q = mset q' + mset d1" "gone w1 d1"
    "n1 = n - length d1" using prune_queue_spec [OF p] by blast
  obtain d2 where 2: "calm_le w1 w'" "set (map fst gs1) \<subseteq> set (map fst gs)"
    "shrinks gs gs1 d2" "gone w' d2" "n' = n1 - length d2" using Cons.IH [OF r(1)] by blast
  have "shrinks (g # gs) gs' (d1 @ d2)"
  proof (rule shrinksI)
    show "mset (entries (g # gs)) = mset (entries gs') + mset (d1 @ d2)"
      using 1(3) 2(3) r(2) g by (auto simp: shrinks_def)
    fix m' q'' assume "(m', q'') \<in> set gs'"
    then consider "m' = m" "q'' = q'" | "(m', q'') \<in> set gs1" using r(2) by (auto split: if_splits)
    then show "\<exists>q. (m', q) \<in> set (g # gs) \<and> subseq q'' q"
    proof cases
      case 1
      then show ?thesis using \<open>subseq q' q\<close> g by auto
    next
      case 2
      then obtain q1 where "(m', q1) \<in> set gs" "subseq q'' q1"
        by (rule shrinks_sub [OF \<open>shrinks gs gs1 d2\<close>])
      then show ?thesis by auto
    qed
  next
    assume "groups_ok (g # gs)"
    then have "groups_ok gs1" "m \<notin> set (map fst gs1)"
      using 2(2,3) g by (auto simp: shrinks_def groups_ok_def)
    then show "groups_ok gs'" using r(2) by (simp add: groups_ok_def)
  qed
  moreover have "gone w' (d1 @ d2)" using 1 2 gone_le by auto
  moreover have "n' = n - length (d1 @ d2)" using 1 2 by simp
  moreover have "calm_le w w'" using 1 2 calm_le_trans by blast
  moreover have "set (map fst gs') \<subseteq> set (map fst (g # gs))" using 2 r(2) g by auto
  ultimately show ?case by blast
qed

section \<open>Scanning\<close>

lemma oldest_global_le: "calm_le w (snd (oldest_global gs old w))"
proof (induction gs arbitrary: old w)
  case Nil
  then show ?case by simp
next
  case (Cons g gs)
  obtain m q where g: "g = (m, q)" by fastforce
  show ?case
  proof (cases q)
    case Nil
    then show ?thesis using Cons g by simp
  next
    case (Cons e es)
    show ?thesis
      using g Cons calm_le_trans [OF is_dead_request_calm Cons.IH] by (simp add: case_prod_beta)
  qed
qed

lemma starved_queue_spec:
  "starved_queue mb m i q best w = ((b, c), w') \<Longrightarrow>
     calm_le w w' \<and> (c = snd best \<or> (\<exists>j < length q. c = Some (m, i + j)))"
proof (induction q arbitrary: i best w)
  case Nil
  then show ?case by auto
next
  case (Cons e es)
  obtain dead w1 where d: "is_dead_request (en_request e) w = (dead, w1)" by fastforce
  have le: "calm_le w w1" using is_dead_request_calm [of w "en_request e"] d by simp
  obtain best1 where r: "starved_queue mb m (i + 1) es best1 w1 = ((b, c), w')"
    "best1 = best \<or> best1 = (en_enqueue_sequence e, Some (m, i))"
    using Cons.prems d by (auto split: if_splits)
  from Cons.IH [OF r(1)] have ih: "calm_le w1 w'"
    "c = snd best1 \<or> (\<exists>j < length es. c = Some (m, i + 1 + j))" by auto
  from ih(2) r(2) have "c = snd best \<or> c = Some (m, i + 0) \<or> (\<exists>j < length es. c = Some (m, i + Suc j))"
    by auto
  then show ?case using calm_le_trans [OF le ih(1)] by fastforce
qed

lemma starved_groups_spec:
  "starved_groups mb gs best w = ((b, c), w') \<Longrightarrow>
     calm_le w w' \<and> (c = snd best \<or> (\<exists>m q j. (m, q) \<in> set gs \<and> j < length q \<and> c = Some (m, j)))"
proof (induction gs arbitrary: best w)
  case Nil
  then show ?case by auto
next
  case (Cons g gs)
  obtain m q where g: "g = (m, q)" by fastforce
  obtain b1 c1 w1 where s: "starved_queue mb m 0 q best w = ((b1, c1), w1)" by (metis prod.exhaust)
  have "starved_groups mb gs (b1, c1) w1 = ((b, c), w')" using Cons.prems g s by simp
  from Cons.IH [OF this] starved_queue_spec [OF s] g show ?case
    by (auto intro: calm_le_trans)
qed

lemma live_group_le: "calm_le w (snd (snd (live_group q n old w)))"
proof (induction q n old w rule: live_group.induct)
  case (2 e es n old w)
  then show ?case
    using is_dead_request_calm [of w "en_request e"] by (auto split: prod.splits intro: calm_le_trans)
qed simp

lemma largest_group_spec:
  "largest_group gs best w = (c, w') \<Longrightarrow>
     calm_le w w' \<and> (c = best \<or> (\<exists>m q n old. (m, q) \<in> set gs \<and> q \<noteq> [] \<and> c = Some (m, n, old)))"
proof (induction gs arbitrary: best w)
  case Nil
  then show ?case by auto
next
  case (Cons g gs)
  obtain m q where g: "g = (m, q)" by fastforce
  obtain n old w1 where l: "live_group q 0 (- 1) w = (n, old, w1)" by (metis prod_cases3)
  have le: "calm_le w w1" using live_group_le [of w q 0 "- 1"] l by simp
  show ?case
  proof (cases "q = []")
    case True
    then have "largest_group gs best w = (c, w')" using Cons.prems g by simp
    from Cons.IH [OF this] show ?thesis by auto
  next
    case False
    then obtain best1 where r: "largest_group gs best1 w1 = (c, w')"
      "best1 = best \<or> best1 = Some (m, n, old)"
      using Cons.prems g l by (auto split: if_splits)
    note ih = Cons.IH [OF r(1)]
    have "calm_le w w'" using calm_le_trans [OF le] ih by blast
    then show ?thesis using ih r(2) g False by auto
  qed
qed

lemma choose_entry_spec:
  assumes "choose_entry s w = (c, st, w')"
  shows "calm_le w w' \<and>
    (\<forall>m i. c = Some (m, i) \<longrightarrow> (\<exists>q. (m, q) \<in> set (wa_by_model s) \<and> i < length q))"
proof -
  obtain b c1 w1 where s: "starved_groups (wa_max_bypass s) (wa_by_model s) (- 1, None) w = ((b, c1), w1)"
    by (metis prod.exhaust)
  obtain c2 w2 where l: "largest_group (wa_by_model s) None w1 = (c2, w2)" by fastforce
  note 1 = starved_groups_spec [OF s] and 2 = largest_group_spec [OF l]
  have le: "calm_le w w2" using 1 2 calm_le_trans by blast
  show ?thesis
  proof (cases c1)
    case None
    then show ?thesis
      using assms s l le 2 by (auto simp: choose_entry_def split: option.splits prod.splits)
  next
    case (Some mi)
    then show ?thesis using assms s 1 by (auto simp: choose_entry_def)
  qed
qed

text \<open>When no group has a live entry, every entry is dead.\<close>

lemma live_group_none:
  "live_group q n old w = (n', old', w') \<Longrightarrow> n \<le> n' \<and> (n' = n \<longrightarrow> gone w' q)"
proof (induction q arbitrary: n old w)
  case Nil
  then show ?case by simp
next
  case (Cons e es)
  obtain dead w1 where d: "is_dead_request (en_request e) w = (dead, w1)" by fastforce
  show ?case
  proof (cases dead)
    case True
    then have r: "live_group es n old w1 = (n', old', w')" using Cons.prems d by simp
    have "calm_le w1 w'" using live_group_le [of w1 es n old] r by simp
    then have "gone w' [e]" using is_dead_gone [of e w w1] d True gone_le [of w1 "[e]" w'] by simp
    then show ?thesis using Cons.IH [OF r] by (simp add: gone_Cons)
  next
    case False
    then have "live_group es (n + 1) (min old (en_enqueue_sequence e)) w1 = (n', old', w')"
      using Cons.prems d by simp
    from Cons.IH [OF this] show ?thesis by simp
  qed
qed

lemma largest_group_none:
  "largest_group gs best w = (None, w') \<Longrightarrow> best = None \<and> gone w' (entries gs)"
proof (induction gs arbitrary: best w)
  case Nil
  then show ?case by simp
next
  case (Cons g gs)
  obtain m q where g: "g = (m, q)" by fastforce
  obtain n old w1 where l: "live_group q 0 (- 1) w = (n, old, w1)" by (metis prod_cases3)
  show ?case
  proof (cases "q = []")
    case True
    then show ?thesis using Cons g by simp
  next
    case False
    show ?thesis
    proof (cases "n = 0")
      case True
      then have r: "largest_group gs best w1 = (None, w')" using Cons.prems g l False by simp
      have "gone w1 q" using live_group_none [OF l] True by simp
      then have "gone w' q" using gone_le largest_group_spec [OF r] by blast
      then show ?thesis using Cons.IH [OF r] g by simp
    next
      case n: False
      then obtain best1 where "largest_group gs best1 w1 = (None, w')" "best1 \<noteq> None"
        using Cons.prems g l False by (auto simp: better_group_def split: if_splits option.splits)
      with Cons.IH [OF this(1)] show ?thesis by simp
    qed
  qed
qed

lemma choose_entry_none:
  "choose_entry s w = (None, st, w') \<Longrightarrow> gone w' (entries (wa_by_model s))"
  by (auto simp: choose_entry_def split: prod.splits option.splits dest: largest_group_none)

lemma is_dead_of_terminal:
  "is_terminal (w_reqs w a) \<Longrightarrow> fst (is_dead_request (Some a) w)"
  using calm_le_terminal [OF interfere_calm, of w a]
  by (simp add: is_dead_request_def read_req_def Let_def)

lemma prune_queue_gone:
  "gone w q \<Longrightarrow> \<forall>e \<in> set q. en_request e \<noteq> None \<Longrightarrow> fst (prune_queue q n w) = []"
proof (induction q arbitrary: n w)
  case Nil
  then show ?case by simp
next
  case (Cons e es)
  obtain a where a: "en_request e = Some a" using Cons.prems(2) by auto
  obtain dead w1 where d: "is_dead_request (en_request e) w = (dead, w1)" by fastforce
  have "dead" using is_dead_of_terminal [of w a] Cons.prems(1) a d by (simp add: gone_Cons)
  moreover have "gone w1 es"
    using gone_le [of w es w1] Cons.prems(1) is_dead_request_calm [of w "en_request e"] d
    by (simp add: gone_Cons)
  ultimately show ?case using Cons d by simp
qed

lemma prune_groups_gone:
  "gone w (entries gs) \<Longrightarrow> \<forall>e \<in> set (entries gs). en_request e \<noteq> None \<Longrightarrow>
   fst (prune_groups gs n w) = []"
proof (induction gs arbitrary: n w)
  case Nil
  then show ?case by simp
next
  case (Cons g gs)
  obtain m q where g: "g = (m, q)" by fastforce
  obtain q' n1 w1 where p: "prune_queue q n w = (q', n1, w1)" by (metis prod_cases3)
  have "q' = []" using prune_queue_gone [of w q n] Cons.prems g p by simp
  moreover have "gone w1 (entries gs)"
    using prune_queue_spec [OF p] Cons.prems(1) g gone_le by auto
  ultimately show ?case using Cons g p by (auto split: prod.splits)
qed

section \<open>Taking an entry out\<close>

lemma drop_dead_spec:
  "drop_dead q n w = (q', n', w') \<Longrightarrow>
     calm_le w w' \<and> (\<exists>d. q = d @ q' \<and> gone w' d \<and> n' = n - length d)"
proof (induction q arbitrary: n w)
  case Nil
  then show ?case by auto
next
  case (Cons e es)
  obtain dead w1 where d: "is_dead_request (en_request e) w = (dead, w1)" by fastforce
  have le: "calm_le w w1" using is_dead_request_calm [of w "en_request e"] d by simp
  show ?case
  proof (cases dead)
    case True
    then have "drop_dead es (n - 1) w1 = (q', n', w')" using Cons.prems d by (simp split: if_splits)
    from Cons.IH [OF this] obtain ds where ih: "calm_le w1 w'" "es = ds @ q'" "gone w' ds"
      "n' = n - 1 - length ds" by blast
    have "gone w' (e # ds)"
      using gone_le [OF is_dead_gone ih(1), of e w] d True ih(3) by (simp add: gone_Cons)
    moreover have "e # es = (e # ds) @ q'" "n' = n - length (e # ds)" using ih by simp_all
    ultimately show ?thesis using calm_le_trans [OF le ih(1)] by blast
  next
    case False
    then show ?thesis using Cons.prems d le by (auto intro!: exI [of _ "[]"])
  qed
qed

lemma erase_dead_at_spec:
  assumes "erase_dead_at i q n w = (q1, n1, w1)" "i < length q"
  shows "calm_le w w1 \<and> subseq q1 q \<and>
    (\<exists>d. mset q = mset q1 + mset d \<and> gone w1 d \<and> n1 = n - length d \<and>
       (i < length q1 \<longrightarrow> q ! i \<in> set (d @ [q1 ! i]))) \<and>
    (length q1 \<le> i \<longrightarrow> length q1 < length q)"
proof -
  obtain es where es: "drop_dead (drop i q) n w = (es, n1, w1)" "q1 = take i q @ es"
    using assms(1) by (auto simp: erase_dead_at_def split: prod.splits)
  from drop_dead_spec [OF es(1)] obtain d where d: "calm_le w w1" "drop i q = d @ es" "gone w1 d"
    "n1 = n - length d" by blast
  have q: "q = take i q @ d @ es" by (metis append_take_drop_id d(2))
  have "subseq q1 q" using es(2) q by (metis subseq_append' list_emb_append2 subseq_order.order_refl)
  moreover have "mset q = mset q1 + mset d" using es(2) q by (metis mset_append add.assoc add.commute)
  moreover have "length q1 \<le> i \<longrightarrow> length q1 < length q" using assms(2) by linarith
  moreover have "q ! i \<in> set (d @ [q1 ! i])" if "i < length q1"
  proof -
    have "q ! i = (d @ es) ! 0" using d(2) assms(2) by (metis add.right_neutral less_imp_le nth_drop)
    moreover have "q1 ! i = es ! 0" "es \<noteq> []" using es(2) assms(2) that by (auto simp: nth_append)
    ultimately show ?thesis by (cases d) auto
  qed
  ultimately show ?thesis using d by blast
qed

lemma bump_queue_spec:
  "bump_queue q w = (q', w') \<Longrightarrow>
     calm_le w w' \<and> map en_request q' = map en_request q \<and>
     map en_enqueue_sequence q' = map en_enqueue_sequence q"
proof (induction q arbitrary: w q')
  case Nil
  then show ?case by simp
next
  case (Cons e es)
  obtain dead w1 where d: "is_dead_request (en_request e) w = (dead, w1)" by fastforce
  have le: "calm_le w w1" using is_dead_request_calm [of w "en_request e"] d by simp
  obtain es' where r: "bump_queue es w1 = (es', w')"
    "q' = (if dead then e else e\<lparr>en_bypass_count := en_bypass_count e + 1\<rparr>) # es'"
    using Cons.prems d by (auto split: prod.splits)
  from Cons.IH [OF r(1)] r(2) calm_le_trans [OF le] show ?case by auto
qed

lemma bump_groups_spec:
  "bump_groups gs w = (gs', w') \<Longrightarrow>
     calm_le w w' \<and> map fst gs' = map fst gs \<and>
     map en_request (entries gs') = map en_request (entries gs) \<and>
     map en_enqueue_sequence (entries gs') = map en_enqueue_sequence (entries gs) \<and>
     (groups_ok gs \<longrightarrow> groups_ok gs')"
proof (induction gs arbitrary: w gs')
  case Nil
  then show ?case by simp
next
  case (Cons g gs)
  obtain m q where g: "g = (m, q)" by fastforce
  obtain q' w1 where b: "bump_queue q w = (q', w1)" by fastforce
  obtain gs1 where r: "bump_groups gs w1 = (gs1, w')" "gs' = (m, q') # gs1"
    using Cons.prems g b by (auto split: prod.splits)
  note 1 = bump_queue_spec [OF b] and 2 = Cons.IH [OF r(1)]
  have "q' = [] \<longleftrightarrow> q = []" using 1 by (metis map_is_Nil_conv)
  moreover have "calm_le w w'" using 1 2 calm_le_trans by blast
  ultimately show ?case using 1 2 r(2) g by (auto simp: groups_ok_def)
qed

lemma mset_entries_put:
  "distinct (map fst gs) \<Longrightarrow> map_of gs m = Some q \<Longrightarrow>
     mset (entries (put_group m q1 gs)) + mset q = mset (entries gs) + mset q1"
proof (induction gs)
  case Nil
  then show ?case by simp
next
  case (Cons g gs)
  obtain m' q' where g: "g = (m', q')" by fastforce
  show ?case
  proof (cases "m' = m")
    case True
    then have "m \<notin> fst ` set gs" using Cons.prems(1) g by simp
    then show ?thesis using Cons.prems g True by (simp add: put_group_def)
  next
    case False
    then show ?thesis using Cons g by (auto simp: put_group_def split: if_splits)
  qed
qed

lemma set_put_group:
  "distinct (map fst gs) \<Longrightarrow> (m', q') \<in> set (put_group m q1 gs) \<Longrightarrow>
     (m' = m \<and> q' = q1 \<and> q1 \<noteq> []) \<or> (m' \<noteq> m \<and> (m', q') \<in> set gs)"
proof (induction gs)
  case Nil
  then show ?case by (auto simp: put_group_def split: if_splits)
next
  case (Cons g gs)
  then show ?case
    by (cases g) (auto simp: put_group_def image_iff split: if_splits)
qed

lemma shrinks_put_group:
  assumes "distinct (map fst gs)" "map_of gs m = Some q" "subseq q1 q" "mset q = mset q1 + mset d"
  shows "shrinks gs (put_group m q1 gs) d"
proof (rule shrinksI)
  have "mset (entries (put_group m q1 gs)) + mset q = mset (entries gs) + mset q1"
    by (rule mset_entries_put [OF assms(1,2)])
  then show "mset (entries gs) = mset (entries (put_group m q1 gs)) + mset d"
    using assms(4) by simp
next
  fix m' q' assume "(m', q') \<in> set (put_group m q1 gs)"
  from set_put_group [OF assms(1) this] assms(3) map_of_SomeD [OF assms(2)]
  show "\<exists>q. (m', q) \<in> set gs \<and> subseq q' q" by auto
next
  assume "groups_ok gs"
  moreover have "distinct (map fst (put_group m q1 gs))"
    using assms(1) by (simp add: put_group_def distinct_update distinct_delete)
  ultimately show "groups_ok (put_group m q1 gs)"
    using set_put_group [OF assms(1)] by (fastforce simp: groups_ok_def)
qed

section \<open>The invariant\<close>

definition wa_inv :: "WorkloadAwareScheduler \<Rightarrow> bool" where
  "wa_inv s \<longleftrightarrow>
     0 < wa_capacity s \<and> groups_ok (wa_by_model s) \<and>
     wa_size s = length (entries (wa_by_model s)) \<and> wa_size s \<le> wa_capacity s \<and>
     (\<forall>e \<in> set (entries (wa_by_model s)). en_request e \<noteq> None)"

definition wa_held :: "WorkloadAwareScheduler \<Rightarrow> RequestPtr list" where
  "wa_held s = map en_request (entries (wa_by_model s))"

lemma wa_make_inv [inv_rules]: "wa_make c mb = Inr s \<Longrightarrow> wa_inv s"
  by (auto simp: wa_make_def wa_inv_def groups_ok_def split: if_splits)

text \<open>
  \<open>wa_step s s' d\<close>: the scheduler has lost the entries \<open>d\<close> and nothing else of it has
  changed that later calls depend on.
\<close>

definition wa_step :: "WorkloadAwareScheduler \<Rightarrow> WorkloadAwareScheduler \<Rightarrow> Entry list \<Rightarrow> bool" where
  "wa_step s s' d \<longleftrightarrow>
     wa_capacity s' = wa_capacity s \<and> wa_max_bypass s' = wa_max_bypass s \<and>
     wa_closed s' = wa_closed s \<and> wa_next_sequence s' = wa_next_sequence s \<and>
     wa_metrics s' = wa_metrics s \<and>
     shrinks (wa_by_model s) (wa_by_model s') d"

lemma wa_step_trans: "wa_step a b d \<Longrightarrow> wa_step b c d' \<Longrightarrow> wa_step a c (d @ d')"
  by (auto simp: wa_step_def intro: shrinks_trans)

lemma wa_step_inv:
  assumes "wa_step s s' d" "wa_inv s" "wa_size s' = wa_size s - length d"
  shows "wa_inv s'"
proof -
  have sh: "shrinks (wa_by_model s) (wa_by_model s') d" using assms(1) by (simp add: wa_step_def)
  then have "groups_ok (wa_by_model s')" using assms(2) by (simp add: shrinks_def wa_inv_def)
  then show ?thesis
    using assms shrinks_length [OF sh] shrinks_set [OF sh] by (auto simp: wa_inv_def wa_step_def)
qed

lemma prune_step:
  assumes "prune_dead_entries_locked s w = (s', w')"
  shows "calm_le w w' \<and> (\<exists>d. wa_step s s' d \<and> gone w' d \<and> wa_size s' = wa_size s - length d)"
proof -
  obtain gs n where p: "prune_groups (wa_by_model s) (wa_size s) w = (gs, n, w')"
    "s' = s\<lparr>wa_by_model := gs, wa_size := n\<rparr>"
    using assms by (auto simp: prune_dead_entries_locked_def split: prod.splits)
  from prune_groups_spec [OF p(1)] p(2) show ?thesis by (auto simp: wa_step_def)
qed

lemma prune_inv [inv_rules]:
  "wa_inv s \<Longrightarrow> prune_dead_entries_locked s w = (s', w') \<Longrightarrow> wa_inv s'"
  using prune_step wa_step_inv by blast

lemma prune_empties:
  assumes inv: "wa_inv s" and p: "prune_dead_entries_locked s w = (s', w')"
    and g: "gone w (entries (wa_by_model s))"
  shows "wa_by_model s' = []"
  using prune_groups_gone [OF g, of "wa_size s"] inv p
  by (auto simp: prune_dead_entries_locked_def wa_inv_def split: prod.splits)

lemma wa_inv_map_of:
  assumes "wa_inv s" "(m, q) \<in> set (wa_by_model s)"
  shows "map_of (wa_by_model s) m = Some q"
  using assms by (simp add: wa_inv_def groups_ok_def)

lemma subseq_remove_nth: "subseq (take i q @ drop (i + 1) q) q"
proof -
  have "subseq (take i q @ drop 1 (drop i q)) (take i q @ drop i q)"
    by (subst subseq_append') (metis subseq_drop_many append_take_drop_id subseq_order.order_refl)
  then show ?thesis by simp
qed

lemma mset_remove_nth:
  "i < length q \<Longrightarrow> mset q = mset (take i q @ drop (i + 1) q) + mset [q ! i]"
  by (metis Suc_eq_plus1 add.assoc add_mset_add_single id_take_nth_drop mset.simps mset_append
      union_mset_add_mset_left union_mset_add_mset_right)

text \<open>The scheduler after the chosen entry has been taken out, or found to be gone.\<close>

lemma take_out_step:
  assumes inv: "wa_inv s" and q: "map_of (wa_by_model s) m = Some q" and i: "i < length q"
    and e: "erase_dead_at i q (wa_size s) w = (q1, n1, w1)"
  shows "calm_le w w1"
    and "length q1 \<le> i \<Longrightarrow> \<exists>d. d \<noteq> [] \<and> gone w1 d \<and> n1 = wa_size s - length d \<and>
      wa_step s (s\<lparr>wa_by_model := put_group m q1 (wa_by_model s), wa_size := n1\<rparr>) d"
    and "i < length q1 \<Longrightarrow> \<exists>d. gone w1 d \<and> q ! i \<in> set (d @ [q1 ! i]) \<and> n1 - 1 = wa_size s - length (d @ [q1 ! i]) \<and>
      wa_step s (s\<lparr>wa_by_model := put_group m (take i q1 @ drop (i + 1) q1) (wa_by_model s),
                   wa_size := n1 - 1\<rparr>) (d @ [q1 ! i])"
proof -
  obtain d where d: "calm_le w w1" "subseq q1 q" "mset q = mset q1 + mset d" "gone w1 d"
    "n1 = wa_size s - length d" "length q1 \<le> i \<longrightarrow> length q1 < length q"
    "i < length q1 \<longrightarrow> q ! i \<in> set (d @ [q1 ! i])"
    using erase_dead_at_spec [OF e i] by blast
  have dist: "distinct (map fst (wa_by_model s))" using inv by (simp add: wa_inv_def groups_ok_def)
  show "calm_le w w1" by (rule d(1))
  show "\<exists>d. d \<noteq> [] \<and> gone w1 d \<and> n1 = wa_size s - length d \<and>
      wa_step s (s\<lparr>wa_by_model := put_group m q1 (wa_by_model s), wa_size := n1\<rparr>) d"
    if "length q1 \<le> i"
  proof -
    have "length q = length q1 + length d" using d(3) by (metis size_mset size_union)
    then have "d \<noteq> []" using d(6) that by auto
    moreover have "shrinks (wa_by_model s) (put_group m q1 (wa_by_model s)) d"
      by (rule shrinks_put_group [OF dist q d(2,3)])
    ultimately show ?thesis using d by (auto simp: wa_step_def)
  qed
  show "\<exists>d. gone w1 d \<and> q ! i \<in> set (d @ [q1 ! i]) \<and> n1 - 1 = wa_size s - length (d @ [q1 ! i]) \<and>
      wa_step s (s\<lparr>wa_by_model := put_group m (take i q1 @ drop (i + 1) q1) (wa_by_model s),
                   wa_size := n1 - 1\<rparr>) (d @ [q1 ! i])"
    if "i < length q1"
  proof -
    let ?q2 = "take i q1 @ drop (i + 1) q1"
    have "subseq ?q2 q" using subseq_remove_nth d(2) by (meson subseq_order.order_trans)
    moreover have "mset q = mset ?q2 + mset (d @ [q1 ! i])"
      using d(3) mset_remove_nth [OF that] by simp
    ultimately have "shrinks (wa_by_model s) (put_group m ?q2 (wa_by_model s)) (d @ [q1 ! i])"
      by (rule shrinks_put_group [OF dist q])
    then show ?thesis using d that by (intro exI [of _ d]) (simp add: wa_step_def)
  qed
qed

end
