(* ===== verification/AR_Workload_Select.thy ===== *)
theory AR_Workload_Select
  imports AR_Workload_Inv
begin

text \<open>
  A selection of the workload-aware scheduler, seen from outside: the relation
  \<open>selecting\<close> has a rule for the empty scheduler, one for entries that are thrown out
  because they have died, and one for the entry that is handed out. \<^verbatim>\<open>select_locked\<close>
  implements it and always ends; the properties are shown by induction on the relation.
\<close>

section \<open>Starved entries go first\<close>

lemma starved_queue_least:
  "starved_queue mb m i q best w = ((b, c), w') \<Longrightarrow>
     b \<le> fst best \<and>
     ((b, c) = best \<or> (\<exists>j < length q. c = Some (m, i + j) \<and> en_enqueue_sequence (q ! j) = b \<and>
        mb \<le> en_bypass_count (q ! j))) \<and>
     (\<forall>e \<in> set q. mb \<le> en_bypass_count e \<longrightarrow> b \<le> en_enqueue_sequence e \<or> gone w' [e])"
proof (induction q arbitrary: i best w)
  case Nil
  then show ?case by auto
next
  case (Cons e es)
  obtain dead w1 where d: "is_dead_request (en_request e) w = (dead, w1)" by fastforce
  let ?take = "\<not> dead \<and> mb \<le> en_bypass_count e \<and> en_enqueue_sequence e < fst best"
  let ?best = "if ?take then (en_enqueue_sequence e, Some (m, i)) else best"
  have r: "starved_queue mb m (i + 1) es ?best w1 = ((b, c), w')"
    using Cons.prems d by (auto split: if_splits)
  note IH = Cons.IH [OF r]
  have "calm_le w1 w'" using starved_queue_spec [OF r] by blast
  then have gone: "gone w' [e]" if dead
    using that d is_dead_gone [of e w w1] gone_le [of w1 "[e]" w'] by simp
  have "fst ?best \<le> fst best" by (simp add: less_imp_le)
  then have "b \<le> fst best" using IH by (meson order_trans)
  moreover have "(b, c) = best \<or>
      (\<exists>j < length (e # es). c = Some (m, i + j) \<and> en_enqueue_sequence ((e # es) ! j) = b \<and>
        mb \<le> en_bypass_count ((e # es) ! j))"
  proof (cases "(b, c) = ?best")
    case True
    then show ?thesis by (cases ?take) (auto intro: exI [of _ 0])
  next
    case False
    then obtain j where "j < length es" "c = Some (m, i + 1 + j)" "en_enqueue_sequence (es ! j) = b"
      "mb \<le> en_bypass_count (es ! j)"
      using IH by blast
    then show ?thesis by (intro disjI2 exI [of _ "Suc j"]) simp
  qed
  moreover have "b \<le> en_enqueue_sequence e \<or> gone w' [e]" if "mb \<le> en_bypass_count e"
  proof (cases dead)
    case True
    then show ?thesis using gone by blast
  next
    case False
    then have "fst ?best \<le> en_enqueue_sequence e" using that by (simp add: not_less)
    then show ?thesis using IH by (meson order_trans)
  qed
  ultimately show ?case using IH by simp
qed

lemma starved_groups_least:
  "starved_groups mb gs best w = ((b, c), w') \<Longrightarrow>
     b \<le> fst best \<and>
     ((b, c) = best \<or>
      (\<exists>m q j. (m, q) \<in> set gs \<and> j < length q \<and> c = Some (m, j) \<and> en_enqueue_sequence (q ! j) = b \<and>
        mb \<le> en_bypass_count (q ! j))) \<and>
     (\<forall>e \<in> set (entries gs). mb \<le> en_bypass_count e \<longrightarrow> b \<le> en_enqueue_sequence e \<or> gone w' [e])"
proof (induction gs arbitrary: best w)
  case Nil
  then show ?case by auto
next
  case (Cons g gs)
  obtain m q where g: "g = (m, q)" by fastforce
  obtain b1 c1 w1 where q: "starved_queue mb m 0 q best w = ((b1, c1), w1)" by (metis prod.exhaust)
  have r: "starved_groups mb gs (b1, c1) w1 = ((b, c), w')" using Cons.prems g q by simp
  note 1 = starved_queue_least [OF q] and 2 = Cons.IH [OF r]
  have le: "calm_le w1 w'" using starved_groups_spec [OF r] by blast
  have bb: "b \<le> b1" using 2 by simp
  then have "b \<le> fst best" using 1 by (meson order_trans)
  moreover have "(b, c) = best \<or>
      (\<exists>m q j. (m, q) \<in> set (g # gs) \<and> j < length q \<and> c = Some (m, j) \<and> en_enqueue_sequence (q ! j) = b \<and>
        mb \<le> en_bypass_count (q ! j))"
    using 1 2 g by (metis add_0 list.set_intros prod.inject)
  moreover have "b \<le> en_enqueue_sequence e \<or> gone w' [e]"
    if "e \<in> set q" "mb \<le> en_bypass_count e" for e
    using 1 that bb gone_le [OF _ le] by (meson order_trans)
  ultimately show ?case using 2 g by auto
qed

lemma choose_entry_starved:
  assumes c: "choose_entry s w = (c, starvation, w')"
    and f: "f \<in> set (entries (wa_by_model s))" "wa_max_bypass s \<le> en_bypass_count f"
      "en_enqueue_sequence f < - 1" "\<not> gone w' [f]"
  shows "\<exists>m q i. c = Some (m, i) \<and> (m, q) \<in> set (wa_by_model s) \<and> i < length q \<and>
    en_enqueue_sequence (q ! i) \<le> en_enqueue_sequence f"
proof -
  obtain b c1 w1 where st: "starved_groups (wa_max_bypass s) (wa_by_model s) (- 1, None) w = ((b, c1), w1)"
    by (metis prod.exhaust)
  obtain c2 w2 where l: "largest_group (wa_by_model s) None w1 = (c2, w2)" by fastforce
  have "calm_le w1 w'"
    using c st l largest_group_spec [OF l]
    by (auto simp: choose_entry_def split: option.splits)
  then have "\<not> gone w1 [f]" using f(4) gone_le by blast
  then have b: "b \<le> en_enqueue_sequence f" using starved_groups_least [OF st] f(1,2) by blast
  then have "(b, c1) \<noteq> (- 1, None)" using f(3) by auto
  then obtain m q j where "(m, q) \<in> set (wa_by_model s)" "j < length q" "c1 = Some (m, j)"
    "en_enqueue_sequence (q ! j) = b"
    using starved_groups_least [OF st] by blast
  then show ?thesis using c st b by (auto simp: choose_entry_def)
qed

section \<open>The selection as a relation\<close>

definition serves_starved :: "WorkloadAwareScheduler \<Rightarrow> World \<Rightarrow> Entry list \<Rightarrow> bool" where
  "serves_starved s w out \<longleftrightarrow>
     (\<forall>f \<in> set (entries (wa_by_model s)).
        wa_max_bypass s \<le> en_bypass_count f \<and> en_enqueue_sequence f < - 1 \<and> \<not> gone w [f] \<longrightarrow>
        (\<exists>c \<in> set out. en_enqueue_sequence c \<le> en_enqueue_sequence f))"

inductive selecting ::
  "WorkloadAwareScheduler \<Rightarrow> World \<Rightarrow> RequestPtr option \<Rightarrow> WorkloadAwareScheduler \<Rightarrow> World \<Rightarrow> bool" where
  Empty: "wa_inv s \<Longrightarrow> entries (wa_by_model s) = [] \<Longrightarrow> selecting s w None s w"
| Drop: "wa_step s s1 d \<Longrightarrow> gone w1 d \<Longrightarrow> calm_le w w1 \<Longrightarrow> selecting s1 w1 r s' w' \<Longrightarrow>
    selecting s w r s' w'"
| Dispatch: "wa_step s s1 (d @ [e]) \<Longrightarrow> wa_inv s1 \<Longrightarrow> gone w1 d \<Longrightarrow> calm_le w w1 \<Longrightarrow>
    en_request e \<noteq> None \<Longrightarrow> serves_starved s w1 (d @ [e]) \<Longrightarrow>
    bump_groups (wa_by_model s1) w1 = (gs, w') \<Longrightarrow>
    selecting s w (Some (en_request e)) (s1\<lparr>wa_metrics := ms, wa_by_model := gs\<rparr>) w'"

lemma dispatch_chosen_cases:
  assumes inv: "wa_inv s" and mq: "(m, q) \<in> set (wa_by_model s)" and i: "i < length q"
    and starved: "\<And>f. f \<in> set (entries (wa_by_model s)) \<Longrightarrow> wa_max_bypass s \<le> en_bypass_count f \<Longrightarrow>
      en_enqueue_sequence f < - 1 \<Longrightarrow> \<not> gone w [f] \<Longrightarrow> en_enqueue_sequence (q ! i) \<le> en_enqueue_sequence f"
  shows "(\<exists>s1 w1 d. dispatch_chosen oldest m i st s w = Inl (s1, w1) \<and> d \<noteq> [] \<and>
      wa_step s s1 d \<and> wa_inv s1 \<and> gone w1 d \<and> calm_le w w1) \<or>
    (\<exists>r s' w'. dispatch_chosen oldest m i st s w = Inr (r, s', w') \<and> selecting s w r s' w')"
proof -
  have q: "map_of (wa_by_model s) m = Some q" using wa_inv_map_of [OF inv mq] .
  obtain q1 n1 w3 where e: "erase_dead_at i q (wa_size s) w = (q1, n1, w3)" by (metis prod_cases3)
  note out = take_out_step [OF inv q i e]
  show ?thesis
  proof (cases "length q1 \<le> i")
    case True
    let ?s1 = "s\<lparr>wa_by_model := put_group m q1 (wa_by_model s), wa_size := n1\<rparr>"
    obtain d where d: "d \<noteq> []" "gone w3 d" "n1 = wa_size s - length d" "wa_step s ?s1 d"
      using out(2) [OF True] by blast
    have "wa_inv ?s1" using wa_step_inv [OF d(4) inv] d(3) by simp
    moreover have "dispatch_chosen oldest m i st s w = Inl (?s1, w3)"
      using q e True by (simp add: dispatch_chosen_def)
    ultimately show ?thesis using d out(1) by blast
  next
    case False
    let ?e = "q1 ! i"
    let ?s2 = "s\<lparr>wa_by_model := put_group m (take i q1 @ drop (i + 1) q1) (wa_by_model s),
                 wa_size := n1 - 1\<rparr>"
    obtain d where d: "gone w3 d" "q ! i \<in> set (d @ [?e])"
      "n1 - 1 = wa_size s - length (d @ [?e])" "wa_step s ?s2 (d @ [?e])"
      using out(3) False by force
    have inv2: "wa_inv ?s2" using wa_step_inv [OF d(4) inv] d(3) by simp
    obtain dead w4 where dd: "is_dead_request (en_request ?e) w3 = (dead, w4)" by fastforce
    have le34: "calm_le w3 w4" using is_dead_request_calm [of w3 "en_request ?e"] dd by simp
    have le4: "calm_le w w4" using out(1) le34 by (rule calm_le_trans)
    have g4: "gone w4 d" using gone_le [OF d(1) le34] .
    show ?thesis
    proof (cases dead)
      case True
      then have "gone w4 (d @ [?e])" using g4 is_dead_gone [of ?e w3 w4] dd by simp
      moreover have "dispatch_chosen oldest m i st s w = Inl (?s2, w4)"
        using q e False dd True by (simp add: dispatch_chosen_def Let_def)
      ultimately show ?thesis using inv2 d(4) le4 by blast
    next
      case nd: False
      obtain gs w5 where b: "bump_groups (wa_by_model ?s2) w4 = (gs, w5)" by fastforce
      have "en_request ?e \<noteq> None" using is_dead_request_False [of "en_request ?e" w3 w4] dd nd by auto
      moreover have "serves_starved s w4 (d @ [?e])"
        unfolding serves_starved_def using starved d(2) gone_le [OF _ le4] by blast
      ultimately show ?thesis
        using selecting.Dispatch [OF d(4) inv2 g4 le4 _ _ b] q e False dd nd b
        by (auto simp: dispatch_chosen_def Let_def)
    qed
  qed
qed

text \<open>
  The chosen entry is older than every starved one; when nothing is chosen, everything is dead;
  and a round that starts over has dropped something.
\<close>

lemma chosen_starved:
  assumes inv: "wa_inv s" and c: "choose_entry s w1 = (Some (m, i), st, w2)" and q: "(m, q) \<in> set (wa_by_model s)"
    and f: "f \<in> set (entries (wa_by_model s))" "wa_max_bypass s \<le> en_bypass_count f"
      "en_enqueue_sequence f < - 1" "\<not> gone w2 [f]"
  shows "en_enqueue_sequence (q ! i) \<le> en_enqueue_sequence f"
proof -
  obtain q' where q': "(m, q') \<in> set (wa_by_model s)" "en_enqueue_sequence (q' ! i) \<le> en_enqueue_sequence f"
    using choose_entry_starved [OF c f] by blast
  then have "q' = q" using wa_inv_map_of [OF inv q'(1)] wa_inv_map_of [OF inv q] by simp
  then show ?thesis using q'(2) by simp
qed

lemma selecting_none:
  assumes inv: "wa_inv s" and c: "choose_entry s w1 = (None, st, w2)" and p: "prune_dead_entries_locked s w2 = (s', w')"
  shows "selecting s w2 None s' w'"
proof -
  have "wa_by_model s' = []" using prune_empties [OF inv p] choose_entry_none [of s w1] c by simp
  then have e: "selecting s' w' None s' w'" using prune_inv [OF inv p] by (intro selecting.Empty) auto
  obtain d where d: "calm_le w2 w'" "wa_step s s' d" "gone w' d" using prune_step [OF p] by blast
  show ?thesis by (rule selecting.Drop [OF d(2,3,1) e])
qed

lemma wa_step_shrinks:
  assumes "wa_step s0 s d0" "wa_step s s1 d" "d \<noteq> []"
  shows "wa_step s0 s1 (d0 @ d) \<and> length (entries (wa_by_model s1)) < length (entries (wa_by_model s0))"
proof -
  have "wa_step s0 s1 (d0 @ d)" using wa_step_trans assms by blast
  then show ?thesis using shrinks_length assms(3) unfolding wa_step_def by fastforce
qed

text \<open>One round: it answers, or it starts over with fewer entries.\<close>

lemma select_round:
  assumes inv0: "wa_inv s0"
  shows "(\<exists>r s' w'. (\<forall>fuel. select_locked (Suc fuel) s0 w0 = Some (r, s', w')) \<and> selecting s0 w0 r s' w') \<or>
    (\<exists>s1 w1 d. (\<forall>fuel. select_locked (Suc fuel) s0 w0 = select_locked fuel s1 w1) \<and>
       length (entries (wa_by_model s1)) < length (entries (wa_by_model s0)) \<and>
       wa_step s0 s1 d \<and> wa_inv s1 \<and> gone w1 d \<and> calm_le w0 w1)"
proof -
  obtain s w where p: "prune_dead_entries_locked s0 w0 = (s, w)" by fastforce
  obtain d0 where d0: "calm_le w0 w" "wa_step s0 s d0" "gone w d0" using prune_step [OF p] by blast
  have inv: "wa_inv s" using prune_inv [OF inv0 p] .
  have pre: "selecting s0 w0 r s' w'" if "selecting s v r s' w'" "calm_le w v" for r s' w' v
    using selecting.Drop [OF d0(2) _ _ that(1)] gone_le [OF d0(3)] that(2) d0(1) calm_le_trans by blast
  obtain oldest w1 where o: "oldest_global (wa_by_model s) (- 1) w = (oldest, w1)" by fastforce
  have le1: "calm_le w w1" using oldest_global_le [of w "wa_by_model s" "- 1"] o by simp
  obtain c st w2 where c: "choose_entry s w1 = (c, st, w2)" by (metis prod_cases3)
  have le2: "calm_le w w2" using le1 choose_entry_spec [OF c] calm_le_trans by blast
  consider (empty) "wa_size s = 0" | (none) "wa_size s \<noteq> 0" "c = None"
    | (some) m i where "wa_size s \<noteq> 0" "c = Some (m, i)" by fastforce
  then show ?thesis
  proof cases
    case empty
    then have "entries (wa_by_model s) = []" using inv by (simp add: wa_inv_def)
    then have "selecting s w None s w" using inv by (intro selecting.Empty)
    from pre [OF this calm_le_refl] show ?thesis using empty p by (simp add: select_locked.simps)
  next
    case none
    obtain s' w' where p2: "prune_dead_entries_locked s w2 = (s', w')" by fastforce
    then have "selecting s w2 None s' w'" using selecting_none [OF inv] c none(2) by blast
    from pre [OF this le2] show ?thesis using none p o c p2 by (simp add: select_locked.simps)
  next
    case some
    obtain q where q: "(m, q) \<in> set (wa_by_model s)" "i < length q"
      using choose_entry_spec [OF c] some by blast
    have sel: "select_locked (Suc fuel) s0 w0 =
        (case dispatch_chosen oldest m i st s w2 of Inl (s', w') \<Rightarrow> select_locked fuel s' w' | Inr x \<Rightarrow> Some x)"
      for fuel using some p o c by (simp add: select_locked.simps)
    from dispatch_chosen_cases [OF inv q, where w = w2 and oldest = oldest and st = st, OF chosen_starved [OF inv c [unfolded some(2)] q(1)]]
    consider (again) s1 w3 d where "dispatch_chosen oldest m i st s w2 = Inl (s1, w3)" "d \<noteq> []"
        "wa_step s s1 d" "wa_inv s1" "gone w3 d" "calm_le w2 w3"
      | (answer) r s' w' where "dispatch_chosen oldest m i st s w2 = Inr (r, s', w')" "selecting s w2 r s' w'"
      by blast
    then show ?thesis
    proof cases
      case again
      have st01: "wa_step s0 s1 (d0 @ d)" and "length (entries (wa_by_model s1)) < length (entries (wa_by_model s0))"
        using wa_step_shrinks [OF d0(2) again(3,2)] by blast+
      moreover have le: "calm_le w w3" using le2 again(6) calm_le_trans by blast
      moreover have "gone w3 (d0 @ d)" using gone_le [OF d0(3) le] again(5) by simp
      ultimately show ?thesis
        using st01 again(1,4) sel d0(1) calm_le_trans by (intro disjI2 exI [of _ s1] exI [of _ w3]) auto
    next
      case answer
      then show ?thesis using sel pre [OF answer(2) le2] by simp
    qed
  qed
qed

lemma select_locked_selecting:
  assumes "wa_inv s0" "length (entries (wa_by_model s0)) < fuel"
  shows "\<exists>r s' w'. select_locked fuel s0 w0 = Some (r, s', w') \<and> selecting s0 w0 r s' w'"
  using assms
proof (induction fuel arbitrary: s0 w0)
  case 0
  then show ?case by simp
next
  case (Suc fuel)
  from select_round [OF Suc.prems(1), of w0]
  consider (answer) "\<exists>r s' w'. select_locked (Suc fuel) s0 w0 = Some (r, s', w') \<and> selecting s0 w0 r s' w'"
    | (again) s1 w1 d where "select_locked (Suc fuel) s0 w0 = select_locked fuel s1 w1"
      "length (entries (wa_by_model s1)) < length (entries (wa_by_model s0))"
      "wa_step s0 s1 d" "wa_inv s1" "gone w1 d" "calm_le w0 w1"
    by blast
  then show ?case
  proof cases
    case again
    have "length (entries (wa_by_model s1)) < fuel" using again(2) Suc.prems(2) by simp
    from Suc.IH [OF again(4) this] obtain r s' w' where
      r: "select_locked fuel s1 w1 = Some (r, s', w')" "selecting s1 w1 r s' w'" by blast
    have "selecting s0 w0 r s' w'" by (rule selecting.Drop [OF again(3,5,6) r(2)])
    then show ?thesis using again(1) r(1) by simp
  qed
qed

end
