(* ===== verification/AR_Workload_Props.thy ===== *)
theory AR_Workload_Props
  imports AR_Workload_Select
begin

text \<open>
  The workload-aware scheduler keeps the contract of the scheduler interface, and the
  properties of its selection: which entry goes first, and how long an entry can be passed
  over.
\<close>

section \<open>A selection accounts for every entry\<close>

definition wa_result ::
  "WorkloadAwareScheduler \<Rightarrow> World \<Rightarrow> RequestPtr option \<Rightarrow> WorkloadAwareScheduler \<Rightarrow> World \<Rightarrow> bool" where
  "wa_result s w r s' w' \<longleftrightarrow>
     calm_le w w' \<and> wa_inv s' \<and>
     wa_capacity s' = wa_capacity s \<and> wa_max_bypass s' = wa_max_bypass s \<and>
     wa_closed s' = wa_closed s \<and> wa_next_sequence s' = wa_next_sequence s \<and>
     (r = None \<longrightarrow> entries (wa_by_model s') = []) \<and> r \<noteq> Some None \<and>
     (\<exists>d. gone w' d \<and>
        mset (wa_held s) = mset (case r of None \<Rightarrow> [] | Some p \<Rightarrow> [p]) + mset (wa_held s') + mset (map en_request d))"

lemma wa_step_held:
  "wa_step s s' d \<Longrightarrow> mset (wa_held s) = mset (wa_held s') + mset (map en_request d)"
  by (simp add: wa_step_def shrinks_def wa_held_def)

lemma wa_result_prefix:
  assumes st: "wa_step s s1 d" "gone w1 d" "calm_le w w1" and r: "wa_result s1 w1 r s' w'"
  shows "wa_result s w r s' w'"
proof -
  obtain d' where d': "gone w' d'" "mset (wa_held s1) =
      mset (case r of None \<Rightarrow> [] | Some p \<Rightarrow> [p]) + mset (wa_held s') + mset (map en_request d')"
    using r by (auto simp: wa_result_def)
  have le: "calm_le w1 w'" using r by (simp add: wa_result_def)
  then have "gone w' (d @ d')" using d'(1) gone_le [OF st(2)] by simp
  moreover have "mset (wa_held s) = mset (case r of None \<Rightarrow> [] | Some p \<Rightarrow> [p]) + mset (wa_held s')
      + mset (map en_request (d @ d'))"
    using d'(2) wa_step_held [OF st(1)] by simp
  ultimately have "\<exists>d. gone w' d \<and> mset (wa_held s) =
      mset (case r of None \<Rightarrow> [] | Some p \<Rightarrow> [p]) + mset (wa_held s') + mset (map en_request d)"
    by blast
  then show ?thesis
    using r st(1) calm_le_trans [OF st(3) le] unfolding wa_result_def wa_step_def by simp
qed

lemma wa_result_dispatch:
  assumes st: "wa_step s s1 (d @ [e])" "wa_inv s1" "gone w1 d" "calm_le w w1"
    and live: "en_request e \<noteq> None"
    and b: "bump_groups (wa_by_model s1) w1 = (gs, w')"
  shows "wa_result s w (Some (en_request e)) (s1\<lparr>wa_metrics := ms, wa_by_model := gs\<rparr>) w'"
proof -
  let ?s' = "s1\<lparr>wa_metrics := ms, wa_by_model := gs\<rparr>"
  note bs = bump_groups_spec [OF b]
  have held: "wa_held ?s' = wa_held s1" using bs by (simp add: wa_held_def)
  have len: "length (entries gs) = length (entries (wa_by_model s1))"
    using bs by (metis length_map)
  have "set (map en_request (entries gs)) = set (map en_request (entries (wa_by_model s1)))"
    using bs by metis
  then have "None \<notin> en_request ` set (entries gs)"
    using st(2) by (auto simp: wa_inv_def)
  then have "\<forall>e \<in> set (entries gs). en_request e \<noteq> None" by (metis imageI)
  then have "wa_inv ?s'" using st(2) bs len by (simp add: wa_inv_def)
  moreover have "mset (wa_held s) = mset [en_request e] + mset (wa_held ?s') + mset (map en_request d)"
    using wa_step_held [OF st(1)] held by simp
  moreover have "gone w' d" using gone_le [OF st(3)] bs by blast
  moreover have "calm_le w w'" using st(4) bs calm_le_trans by blast
  ultimately show ?thesis
    using st(1) live unfolding wa_result_def wa_step_def
    by (intro conjI exI [of _ d]) simp_all
qed

lemma selecting_result: "selecting s w r s' w' \<Longrightarrow> wa_result s w r s' w'"
proof (induction rule: selecting.induct)
  case (Empty s w)
  then show ?case by (auto simp: wa_result_def intro: exI [of _ "[]"])
next
  case (Drop s s1 d w1 w r s' w')
  then show ?case by (intro wa_result_prefix [OF Drop.hyps(1,2,3)])
next
  case (Dispatch s s1 d e w1 w gs w' ms)
  then show ?case by (intro wa_result_dispatch)
qed

section \<open>The scheduler contract\<close>

lemma entries_group_push:
  "distinct (map fst gs) \<Longrightarrow> mset (entries (group_push m e gs)) = add_mset e (mset (entries gs))"
  by (induction gs) (auto simp: group_push_def)

lemma group_push_ok: "groups_ok gs \<Longrightarrow> groups_ok (group_push m e gs)"
proof -
  assume ok: "groups_ok gs"
  have "distinct (map fst (group_push m e gs))"
    using ok by (simp add: group_push_def groups_ok_def distinct_update)
  moreover have "q \<noteq> []" if "(m', q) \<in> set (AList.update m (q0 @ [e]) gs)" for m' q q0
    using that ok unfolding groups_ok_def
    by (induction gs) (auto split: if_splits)
  ultimately show ?thesis unfolding groups_ok_def group_push_def by blast
qed

lemma wa_enqueue_held:
  assumes "wa_inv s" "wa_enqueue w p s = (st, s')" "status_ok st"
  shows "mset (wa_held s') = add_mset p (mset (wa_held s)) \<and> wa_inv s' \<and>
    wa_size s < wa_capacity s \<and> \<not> wa_closed s"
proof -
  obtain a where a: "p = Some a" "\<not> wa_closed s" "\<not> wa_capacity s \<le> wa_size s"
    using assms(2,3) by (auto simp: wa_enqueue_def split: option.splits if_splits)
  let ?e = "\<lparr>en_request = p, en_enqueue_sequence = wa_next_sequence s, en_bypass_count = 0\<rparr>"
  let ?gs = "group_push (rq_model_id (w_reqs w a)) ?e (wa_by_model s)"
  have s': "s' = s\<lparr>wa_next_sequence := wa_next_sequence s + 1, wa_by_model := ?gs, wa_size := wa_size s + 1\<rparr>"
    using assms(2) a by (simp add: wa_enqueue_def Let_def)
  have m: "mset (entries ?gs) = add_mset ?e (mset (entries (wa_by_model s)))"
    using assms(1) by (intro entries_group_push) (simp add: wa_inv_def groups_ok_def)
  then have len: "length (entries ?gs) = Suc (length (entries (wa_by_model s)))"
    and sets: "set (entries ?gs) = insert ?e (set (entries (wa_by_model s)))"
    by (metis size_mset size_add_mset, metis set_mset_mset set_mset_add_mset_insert)
  have "groups_ok ?gs" using assms(1) by (intro group_push_ok) (simp add: wa_inv_def)
  then have "wa_inv s'" using assms(1) s' len sets a(1,3) by (simp add: wa_inv_def)
  moreover have "mset (wa_held s') = add_mset p (mset (wa_held s))"
    using s' m by (simp add: wa_held_def mset_map)
  ultimately show ?thesis using a by simp
qed

lemma wa_enqueue_refuses:
  assumes "wa_inv s" "wa_enqueue w p s = (st, s')" "\<not> status_ok st"
  shows "s' = s \<and> (st_code st = EC_QueueClosed \<and> wa_closed s \<or>
                   st_code st = EC_QueueFull \<and> wa_size s = wa_capacity s \<or>
                   st_code st = EC_InternalError \<and> p = None)"
  using assms by (auto simp: wa_enqueue_def wa_inv_def Let_def split: option.splits if_splits)

lemma wa_next_selecting:
  assumes inv: "wa_inv s" and n: "wa_next [] (s, w) = Some (r, (s', w'), rest)"
  shows "selecting s w r s' w'"
proof -
  have go: "0 < wa_size s \<or> wa_closed s"
    by (rule ccontr) (use n in \<open>simp add: wa_next_def cv_wait_Nil\<close>)
  obtain s1 w1 where p: "prune_dead_entries_locked s w = (s1, w1)" by fastforce
  obtain d where d: "calm_le w w1" "wa_step s s1 d" "gone w1 d" using prune_step [OF p] by blast
  have inv1: "wa_inv s1" using prune_inv [OF inv p] .
  have "selecting s1 w1 r s' w'"
  proof (cases "wa_size s1 = 0")
    case True
    then have "entries (wa_by_model s1) = []" using inv1 by (simp add: wa_inv_def)
    then show ?thesis using True n go p inv1 by (auto simp: wa_next_def selecting.Empty)
  next
    case False
    then show ?thesis
      using select_locked_selecting [OF inv1, of "Suc (length (entries (wa_by_model s1)))" w1] n go p
      by (auto simp: wa_next_def)
  qed
  then show ?thesis by (rule selecting.Drop [OF d(2,3,1)])
qed

lemmas wa_next_now = selecting_result [OF wa_next_selecting]

lemma gone_requests:
  "gone w d \<Longrightarrow> Some a \<in> set (map en_request d) \<Longrightarrow> is_terminal (w_reqs w a)"
  by (auto simp: gone_def)

text \<open>\<^verbatim>\<open>next\<close> always answers when the wait is over; the fuel never runs out.\<close>

lemma wa_next_answers:
  assumes inv: "wa_inv s" and go: "0 < wa_size s \<or> wa_closed s"
  shows "\<exists>r s' w'. wa_next wakes (s, w) = Some (r, (s', w'), wakes)"
proof -
  obtain s1 w1 where p: "prune_dead_entries_locked s w = (s1, w1)" by fastforce
  have "wa_inv s1" using prune_inv [OF inv p] .
  then obtain r s' w' where "select_locked (Suc (length (entries (wa_by_model s1)))) s1 w1 = Some (r, s', w')"
    using select_locked_selecting [of s1 "Suc (length (entries (wa_by_model s1)))" w1] by auto
  then show ?thesis using go p by (auto simp: wa_next_def)
qed

interpretation workload: request_scheduler
  wa_inv wa_held wa_closed wa_enqueue wa_next wa_close wa_size wa_capacity
proof unfold_locales
  fix s s' :: WorkloadAwareScheduler and w w' p r rest st
  show "wa_inv s \<Longrightarrow> wa_size s = length (wa_held s)" "wa_inv s \<Longrightarrow> wa_size s \<le> wa_capacity s"
    by (simp_all add: wa_inv_def wa_held_def)
  show "wa_inv s \<Longrightarrow> wa_inv (snd (wa_enqueue w p s))"
    using wa_enqueue_held [of s w p] wa_enqueue_refuses [of s w p]
    by (metis prod.collapse)
  show "wa_inv s \<Longrightarrow> wa_enqueue w p s = (st, s') \<Longrightarrow> status_ok st \<Longrightarrow>
      mset (wa_held s') = add_mset p (mset (wa_held s)) \<and> wa_size s < wa_capacity s \<and> \<not> wa_closed s"
    by (simp add: wa_enqueue_held)
  show "wa_inv s \<Longrightarrow> wa_enqueue w p s = (st, s') \<Longrightarrow> \<not> status_ok st \<Longrightarrow>
      s' = s \<and> (st_code st = EC_QueueClosed \<and> wa_closed s \<or>
                st_code st = EC_QueueFull \<and> wa_size s = wa_capacity s \<or>
                st_code st = EC_InternalError \<and> p = None)"
    by (rule wa_enqueue_refuses)
  show "wa_inv s \<Longrightarrow> wa_inv (wa_close s)" by (simp add: wa_inv_def wa_close_def)
  show "wa_held (wa_close s) = wa_held s" "wa_closed (wa_close s)"
    by (simp_all add: wa_held_def wa_close_def)
  assume n: "wa_next [] (s, w) = Some (r, (s', w'), rest)" and inv: "wa_inv s"
  note res = wa_next_now [OF inv n, unfolded wa_result_def]
  show "wa_inv s'" "calm_le w w'" "wa_closed s' = wa_closed s" using res by blast+
  obtain d where "gone w' d" "mset (wa_held s) =
      mset (case r of None \<Rightarrow> [] | Some p \<Rightarrow> [p]) + mset (wa_held s') + mset (map en_request d)"
    using res by blast
  then show "\<exists>dropped. mset (wa_held s) =
      mset (case r of None \<Rightarrow> [] | Some p \<Rightarrow> [p]) + mset (wa_held s') + mset dropped
      \<and> (\<forall>a. Some a \<in> set dropped \<longrightarrow> is_terminal (w_reqs w' a))"
    using gone_requests by blast
next
  fix s s' :: WorkloadAwareScheduler and w w' p rest
  assume "wa_inv s" "wa_next [] (s, w) = Some (Some p, (s', w'), rest)"
  from wa_next_now [OF this] show "p \<noteq> None" by (auto simp: wa_result_def)
next
  fix s s' :: WorkloadAwareScheduler and w w' rest
  assume "wa_inv s" "wa_next [] (s, w) = Some (None, (s', w'), rest)"
  from wa_next_now [OF this] show "wa_held s' = []" by (auto simp: wa_result_def wa_held_def)
next
  fix s :: WorkloadAwareScheduler and w
  assume "wa_inv s" "wa_closed s"
  then show "wa_next [] (s, w) \<noteq> None" using wa_next_answers [of s "[]" w] by auto
qed

end
