(* ===== verification/AR_Workload_Fair.thy ===== *)
theory AR_Workload_Fair
  imports AR_Workload_Props
begin

text \<open>
  How long an entry of the workload-aware scheduler can be passed over. The measure is the
  number of times it may still be bypassed before it counts as starved plus the number of
  older entries: every dispatch of another request makes it smaller, whatever the other
  threads do meanwhile.
\<close>

section \<open>Following one entry\<close>

definition seqs :: "WorkloadAwareScheduler \<Rightarrow> u64 list" where
  "seqs s = map en_enqueue_sequence (entries (wa_by_model s))"

definition older :: "u64 \<Rightarrow> WorkloadAwareScheduler \<Rightarrow> nat" where
  "older k s = length (filter (\<lambda>e. en_enqueue_sequence e < k) (entries (wa_by_model s)))"

lemma older_mset: "older k s = size (filter_mset (\<lambda>x. x < k) (mset (seqs s)))"
  by (simp add: older_def seqs_def filter_mset_image_mset flip: mset_filter)

lemma wa_step_seqs:
  assumes "wa_step s s' d"
  shows "mset (seqs s) = mset (seqs s') + mset (map en_enqueue_sequence d)"
  using assms by (simp add: wa_step_def shrinks_def seqs_def)

lemma wa_step_older:
  assumes "wa_step s s' d"
  shows "older k s = older k s' + length (filter (\<lambda>e. en_enqueue_sequence e < k) d)"
  using wa_step_seqs [OF assms] by (simp add: older_mset filter_mset_image_mset flip: mset_filter)

lemma wa_step_distinct:
  assumes "wa_step s s' d" "distinct (seqs s)"
  shows "distinct (seqs s')"
proof -
  have "mset (seqs s) = mset (seqs s' @ map en_enqueue_sequence d)" using wa_step_seqs [OF assms(1)] by simp
  then have "distinct (seqs s' @ map en_enqueue_sequence d)"
    using assms(2) mset_eq_imp_distinct_iff by blast
  then show ?thesis by simp
qed

lemma wa_step_keeps:
  assumes "wa_step s s' d" "gone w d" "e \<in> set (entries (wa_by_model s))"
    and "en_request e = Some a" "\<not> is_terminal (w_reqs w a)"
  shows "e \<in> set (entries (wa_by_model s'))"
proof -
  have "e \<notin> set d" using assms(2,4,5) by (auto simp: gone_def)
  then show ?thesis using shrinks_set assms(1,3) unfolding wa_step_def by blast
qed

lemma bump_queue_bumps:
  "bump_queue q w = (q', w') \<Longrightarrow> e \<in> set q \<Longrightarrow> en_request e = Some a \<Longrightarrow>
   \<not> is_terminal (w_reqs w' a) \<Longrightarrow> e\<lparr>en_bypass_count := en_bypass_count e + 1\<rparr> \<in> set q'"
proof (induction q arbitrary: w q')
  case Nil
  then show ?case by simp
next
  case (Cons f es)
  obtain dead w1 where d: "is_dead_request (en_request f) w = (dead, w1)" by fastforce
  obtain es' where r: "bump_queue es w1 = (es', w')"
    "q' = (if dead then f else f\<lparr>en_bypass_count := en_bypass_count f + 1\<rparr>) # es'"
    using Cons.prems d by (auto split: prod.splits)
  have "calm_le w1 w'" using bump_queue_spec [OF r(1)] by blast
  then have "\<not> is_terminal (w_reqs w1 a)" using Cons.prems(4) calm_le_terminal by blast
  then have "\<not> dead" if "f = e" using that d Cons.prems(3) is_dead_request_True by (cases dead) auto
  then show ?case using Cons.IH [OF r(1) _ Cons.prems(3,4)] Cons.prems(2) r(2) by auto
qed

lemma bump_groups_bumps:
  "bump_groups gs w = (gs', w') \<Longrightarrow> e \<in> set (entries gs) \<Longrightarrow> en_request e = Some a \<Longrightarrow>
   \<not> is_terminal (w_reqs w' a) \<Longrightarrow> e\<lparr>en_bypass_count := en_bypass_count e + 1\<rparr> \<in> set (entries gs')"
proof (induction gs arbitrary: w gs')
  case Nil
  then show ?case by simp
next
  case (Cons g gs)
  obtain m q where g: "g = (m, q)" by fastforce
  obtain q' w1 where b: "bump_queue q w = (q', w1)" by fastforce
  obtain gs1 where r: "bump_groups gs w1 = (gs1, w')" "gs' = (m, q') # gs1"
    using Cons.prems g b by (auto split: prod.splits)
  have "calm_le w1 w'" using bump_groups_spec [OF r(1)] by blast
  then have "\<not> is_terminal (w_reqs w1 a)" using Cons.prems(4) calm_le_terminal by blast
  then show ?case
    using Cons.IH [OF r(1) _ Cons.prems(3,4)] bump_queue_bumps [OF b _ Cons.prems(3)] Cons.prems(2) r(2) g
    by auto
qed

text \<open>
  \<open>advanced k a b s s'\<close>: the request \<open>a\<close> still waits under its number \<open>k\<close>, it has been
  passed over once more, and if it was starved then fewer older entries are left.
\<close>

definition advanced :: "Entry \<Rightarrow> WorkloadAwareScheduler \<Rightarrow> WorkloadAwareScheduler \<Rightarrow> bool" where
  "advanced e s s' \<longleftrightarrow>
     e\<lparr>en_bypass_count := en_bypass_count e + 1\<rparr> \<in> set (entries (wa_by_model s')) \<and>
     older (en_enqueue_sequence e) s' \<le> older (en_enqueue_sequence e) s \<and>
     (wa_max_bypass s \<le> en_bypass_count e \<longrightarrow>
        older (en_enqueue_sequence e) s' < older (en_enqueue_sequence e) s)"

lemma dispatch_advances:
  assumes st: "wa_step s s1 (d @ [f])" "gone w1 d" "serves_starved s w1 (d @ [f])"
    and b: "bump_groups (wa_by_model s1) w1 = (gs, w')"
    and dist: "distinct (seqs s)" and e: "e \<in> set (entries (wa_by_model s))" "en_request e = Some a"
      "en_enqueue_sequence e < - 1"
    and live: "\<not> is_terminal (w_reqs w' a)" and other: "en_request f \<noteq> Some a"
  shows "advanced e s (s1\<lparr>wa_metrics := ms, wa_by_model := gs\<rparr>)"
proof -
  let ?k = "en_enqueue_sequence e" and ?s' = "s1\<lparr>wa_metrics := ms, wa_by_model := gs\<rparr>"
  have "calm_le w1 w'" using bump_groups_spec [OF b] by blast
  then have live1: "\<not> is_terminal (w_reqs w1 a)" using live calm_le_terminal by blast
  then have nin: "e \<notin> set (d @ [f])" using st(2) e(2) other by (auto simp: gone_def)
  have ents: "set (entries (wa_by_model s)) = set (entries (wa_by_model s1)) \<union> set (d @ [f])"
    using st(1) shrinks_set unfolding wa_step_def by blast
  then have "e\<lparr>en_bypass_count := en_bypass_count e + 1\<rparr> \<in> set (entries gs)"
    using bump_groups_bumps [OF b _ e(2) live] e(1) nin by blast
  moreover have "seqs ?s' = seqs s1" using bump_groups_spec [OF b] by (simp add: seqs_def)
  then have old: "older ?k s = older ?k ?s' + length (filter (\<lambda>e. en_enqueue_sequence e < ?k) (d @ [f]))"
    using wa_step_older [OF st(1), of ?k] by (simp add: older_mset)
  moreover have "filter (\<lambda>e. en_enqueue_sequence e < ?k) (d @ [f]) \<noteq> []"
    if starved: "wa_max_bypass s \<le> en_bypass_count e"
  proof -
    have "\<not> gone w1 [e]" using live1 e(2) by (simp add: gone_def)
    then obtain c where c: "c \<in> set (d @ [f])" "en_enqueue_sequence c \<le> ?k"
      using st(3) starved e(1,3) unfolding serves_starved_def by blast
    have "c \<in> set (entries (wa_by_model s))" using c(1) ents by blast
    then have "en_enqueue_sequence c \<noteq> ?k"
      using dist e(1) c(1) nin unfolding seqs_def distinct_map inj_on_def by blast
    then have "en_enqueue_sequence c < ?k" using c(2) by simp
    then show ?thesis using c(1) by (metis (no_types, lifting) filter_empty_conv)
  qed
  ultimately show ?thesis by (auto simp: advanced_def)
qed

lemma wa_step_seqs_subset: "wa_step s s' d \<Longrightarrow> set (seqs s') \<subseteq> set (seqs s)"
  using wa_step_seqs [of s s' d] by (metis set_mset_mset set_mset_union Un_upper1)

lemma selecting_seqs:
  "selecting s w r s' w' \<Longrightarrow> distinct (seqs s) \<Longrightarrow> distinct (seqs s') \<and> set (seqs s') \<subseteq> set (seqs s)"
proof (induction rule: selecting.induct)
  case (Empty s w)
  then show ?case by simp
next
  case (Drop s s1 d w1 w r s' w')
  then show ?case
    using wa_step_distinct [OF Drop.hyps(1)] wa_step_seqs_subset [OF Drop.hyps(1)] by blast
next
  case (Dispatch s s1 d f w1 w gs w' ms)
  have "seqs (s1\<lparr>wa_metrics := ms, wa_by_model := gs\<rparr>) = seqs s1"
    using bump_groups_spec [OF Dispatch.hyps(7)] by (simp add: seqs_def)
  then show ?case
    using wa_step_distinct [OF Dispatch.hyps(1)] wa_step_seqs_subset [OF Dispatch.hyps(1)] Dispatch.prems
    by simp
qed

lemma selecting_advances:
  assumes "selecting s w r s' w'" and "distinct (seqs s)"
    and "e \<in> set (entries (wa_by_model s))" "en_request e = Some a" "en_enqueue_sequence e < - 1"
    and "\<not> is_terminal (w_reqs w' a)" "r \<noteq> Some (Some a)"
  shows "r \<noteq> None \<and> advanced e s s'"
  using assms
proof (induction rule: selecting.induct)
  case (Empty s w)
  then show ?case by simp
next
  case (Drop s s1 d w1 w r s' w')
  have "calm_le w1 w'" using selecting_result [OF Drop.hyps(4)] by (simp add: wa_result_def)
  then have live: "\<not> is_terminal (w_reqs w1 a)" using Drop.prems(5) calm_le_terminal by blast
  have "e \<in> set (entries (wa_by_model s1))"
    by (rule wa_step_keeps [OF Drop.hyps(1,2) Drop.prems(2,3) live])
  from Drop.IH [OF wa_step_distinct [OF Drop.hyps(1) Drop.prems(1)] this Drop.prems(3-6)]
  have "r \<noteq> None \<and> advanced e s1 s'" .
  moreover have "older (en_enqueue_sequence e) s1 \<le> older (en_enqueue_sequence e) s"
    using wa_step_older [OF Drop.hyps(1)] by simp
  moreover have "wa_max_bypass s1 = wa_max_bypass s" using Drop.hyps(1) by (simp add: wa_step_def)
  ultimately show ?case unfolding advanced_def by auto
next
  case (Dispatch s s1 d f w1 w gs w' ms)
  then show ?case
    by (auto intro: dispatch_advances [OF Dispatch.hyps(1,3,6,7) Dispatch.prems(1-5)])
qed

section \<open>Runs\<close>

abbreviation wa_run where
  "wa_run \<equiv> sched_run wa_enqueue wa_next wa_close"

definition seq_ok :: "nat \<Rightarrow> WorkloadAwareScheduler \<Rightarrow> bool" where
  "seq_ok n s \<longleftrightarrow>
     wa_inv s \<and> distinct (seqs s) \<and> (\<forall>k \<in> set (seqs s). k < wa_next_sequence s) \<and>
     unat (wa_next_sequence s) + n < 2 ^ 64"

lemma seq_ok_make [inv_rules]: "wa_make c mb = Inr s \<Longrightarrow> n < 2 ^ 64 \<Longrightarrow> seq_ok n s"
  using wa_make_inv [of c mb s] by (auto simp: seq_ok_def wa_make_def seqs_def split: if_splits)

lemma seq_ok_mono: "seq_ok n s \<Longrightarrow> m \<le> n \<Longrightarrow> seq_ok m s"
  by (simp add: seq_ok_def)

lemma seq_ok_close [inv_rules]: "seq_ok n s \<Longrightarrow> seq_ok n (wa_close s)"
  using workload.close_invar [of s] by (simp add: seq_ok_def seqs_def wa_close_def)

lemma seqs_enqueue:
  assumes "wa_inv s" "wa_enqueue w p s = (st, s')" "status_ok st"
  shows "mset (seqs s') = add_mset (wa_next_sequence s) (mset (seqs s)) \<and>
    wa_next_sequence s' = wa_next_sequence s + 1 \<and> wa_max_bypass s' = wa_max_bypass s \<and>
    set (entries (wa_by_model s')) = insert
      \<lparr>en_request = p, en_enqueue_sequence = wa_next_sequence s, en_bypass_count = 0\<rparr>
      (set (entries (wa_by_model s)))"
proof -
  let ?e = "\<lparr>en_request = p, en_enqueue_sequence = wa_next_sequence s, en_bypass_count = 0\<rparr>"
  have "distinct (map fst (wa_by_model s))" using assms(1) by (simp add: wa_inv_def groups_ok_def)
  note gp = entries_group_push [OF this]
  obtain a where "p = Some a" "s' = s\<lparr>wa_next_sequence := wa_next_sequence s + 1,
      wa_by_model := group_push (rq_model_id (w_reqs w a)) ?e (wa_by_model s), wa_size := wa_size s + 1\<rparr>"
    using assms(2,3) by (auto simp: wa_enqueue_def Let_def split: option.splits if_splits)
  moreover have "set (entries (group_push m ?e (wa_by_model s))) = insert ?e (set (entries (wa_by_model s)))"
    for m using gp [of m ?e] by (metis set_mset_mset set_mset_add_mset_insert)
  ultimately show ?thesis using gp by (simp add: seqs_def)
qed

lemma seq_ok_enqueue:
  assumes "seq_ok (Suc n) s"
  shows "seq_ok n (snd (wa_enqueue w p s))"
proof -
  obtain st s' where e: "wa_enqueue w p s = (st, s')" by fastforce
  have inv: "wa_inv s" and nx: "unat (wa_next_sequence s) + Suc n < 2 ^ 64"
    using assms by (simp_all add: seq_ok_def)
  show ?thesis
  proof (cases "status_ok st")
    case False
    then have "s' = s" using wa_enqueue_refuses [OF inv e] by blast
    then show ?thesis using e seq_ok_mono [OF assms, of n] by simp
  next
    case True
    note q = seqs_enqueue [OF inv e True]
    have nowrap: "wa_next_sequence s \<noteq> - 1" using nx unat_room [of "wa_next_sequence s"] by simp
    have "wa_next_sequence s \<notin> set (seqs s)" using assms by (auto simp: seq_ok_def)
    then have "distinct (wa_next_sequence s # seqs s)" using assms by (simp add: seq_ok_def)
    moreover have m: "mset (seqs s') = mset (wa_next_sequence s # seqs s)" using q by simp
    ultimately have "distinct (seqs s')" using mset_eq_imp_distinct_iff by blast
    moreover have "set (seqs s') = insert (wa_next_sequence s) (set (seqs s))"
      using mset_eq_setD [OF m] by simp
    moreover have "k < wa_next_sequence s + 1" if "k \<in> set (seqs s)" for k
      using assms that by (intro word_less_inc [OF _ nowrap]) (simp add: seq_ok_def)
    ultimately have "\<forall>k \<in> set (seqs s'). k < wa_next_sequence s'" "distinct (seqs s')"
      using q word_inc_less [OF nowrap] by simp_all
    moreover have "wa_inv s'" using wa_enqueue_held [OF inv e True] by blast
    moreover have "unat (wa_next_sequence s') + n < 2 ^ 64"
      using q nx word_inc_nowrap [OF nowrap] by simp
    ultimately show ?thesis using e by (simp add: seq_ok_def)
  qed
qed

lemma seq_ok_next:
  assumes "seq_ok n s" "wa_next [] (s, w) = Some (r, (s', w'), rest)"
  shows "seq_ok n s'"
proof -
  have inv: "wa_inv s" and "distinct (seqs s)" using assms(1) by (simp_all add: seq_ok_def)
  then have "distinct (seqs s') \<and> set (seqs s') \<subseteq> set (seqs s)"
    using selecting_seqs [OF wa_next_selecting [OF inv assms(2)]] by blast
  then show ?thesis
    using assms(1) wa_next_now [OF inv assms(2)] unfolding seq_ok_def wa_result_def by auto
qed

lemma seq_ok_inv: "seq_ok n s \<Longrightarrow> wa_inv s"
  by (simp add: seq_ok_def)

lemma wa_run_seq_ok:
  "wa_run xs (s, w) = (ins, outs, (s', w')) \<Longrightarrow> seq_ok (length xs + n) s \<Longrightarrow>
     seq_ok n s' \<and> wa_max_bypass s' = wa_max_bypass s \<and> wa_capacity s' = wa_capacity s"
proof (induction xs arbitrary: s w ins outs)
  case Nil
  then show ?case by simp
next
  case (Cons x xs)
  have ok: "seq_ok (Suc (length xs + n)) s" using Cons.prems(2) by simp
  then have ok': "seq_ok (length xs + n) s" by (rule seq_ok_mono) simp
  show ?case
  proof (cases x)
    case (SEnqueue p)
    have "wa_max_bypass (snd (wa_enqueue w p s)) = wa_max_bypass s \<and>
        wa_capacity (snd (wa_enqueue w p s)) = wa_capacity s"
      by (simp add: wa_enqueue_def Let_def split: option.splits)
    then show ?thesis using Cons.IH [of "snd (wa_enqueue w p s)" w] SEnqueue Cons.prems(1)
        seq_ok_enqueue [OF ok, of w p] by (auto split: prod.splits)
  next
    case SClose
    then show ?thesis using Cons.IH [of "wa_close s" w ins outs] Cons.prems(1) seq_ok_close [OF ok']
      by (simp add: wa_close_def)
  next
    case SNext
    show ?thesis
    proof (cases "wa_next [] (s, w)")
      case None
      then show ?thesis using Cons.IH [of s w ins outs] SNext Cons.prems(1) ok' by simp
    next
      case (Some y)
      obtain r s1 w1 rest where y: "y = (r, (s1, w1), rest)" by (metis prod.exhaust)
      obtain outs1 where run: "wa_run xs (s1, w1) = (ins, outs1, (s', w'))"
        using Cons.prems(1) SNext Some y by (auto split: prod.splits)
      have n: "wa_next [] (s, w) = Some (r, (s1, w1), rest)" using Some y by simp
      have "wa_result s w r s1 w1" by (rule wa_next_now [OF seq_ok_inv [OF ok'] n])
      then show ?thesis using Cons.IH [OF run seq_ok_next [OF ok' n]] unfolding wa_result_def by auto
    qed
  qed
qed

text \<open>The measure, and that every dispatch of another request uses it up.\<close>

definition passes_left :: "Entry \<Rightarrow> WorkloadAwareScheduler \<Rightarrow> nat" where
  "passes_left e s = (unat (wa_max_bypass s) - unat (en_bypass_count e)) + older (en_enqueue_sequence e) s"

lemma advanced_passes:
  assumes "advanced e s s'" "unat (en_bypass_count e) + passes_left e s < 2 ^ 64"
    and "wa_max_bypass s' = wa_max_bypass s"
  shows "let e' = e\<lparr>en_bypass_count := en_bypass_count e + 1\<rparr> in
    passes_left e' s' < passes_left e s \<and>
    unat (en_bypass_count e') + passes_left e' s' < 2 ^ 64"
proof -
  have pos: "0 < passes_left e s"
    using assms(1) unfolding advanced_def passes_left_def
    by (cases "wa_max_bypass s \<le> en_bypass_count e") (auto simp: word_le_nat_alt)
  then have "en_bypass_count e \<noteq> - 1" using assms(2) unat_room [of "en_bypass_count e"] by simp
  note nowrap = word_inc_nowrap [OF this]
  show ?thesis
    using assms pos nowrap unfolding advanced_def passes_left_def Let_def
    by (cases "wa_max_bypass s \<le> en_bypass_count e") (auto simp: word_le_nat_alt)
qed

lemma enqueue_keeps_passes:
  assumes "seq_ok n s" "e \<in> set (entries (wa_by_model s))"
  shows "e \<in> set (entries (wa_by_model (snd (wa_enqueue w p s)))) \<and>
    passes_left e (snd (wa_enqueue w p s)) = passes_left e s"
proof -
  obtain st s' where e: "wa_enqueue w p s = (st, s')" by fastforce
  have inv: "wa_inv s" using assms(1) by (simp add: seq_ok_def)
  show ?thesis
  proof (cases "status_ok st")
    case False
    then have "s' = s" using wa_enqueue_refuses [OF inv e] by blast
    then show ?thesis using e assms(2) by simp
  next
    case True
    have "en_enqueue_sequence e < wa_next_sequence s"
      using assms by (auto simp: seq_ok_def seqs_def)
    then have "older (en_enqueue_sequence e) s' = older (en_enqueue_sequence e) s"
      using seqs_enqueue [OF inv e True] by (simp add: older_mset)
    then show ?thesis using e assms(2) seqs_enqueue [OF inv e True] by (simp add: passes_left_def)
  qed
qed

text \<open>An entry that is passed over by one call has one pass less left.\<close>

lemma next_passes:
  assumes ok: "seq_ok (Suc k) s" and n: "wa_next [] (s, w) = Some (r, (s1, w1), rest)"
    and e: "e \<in> set (entries (wa_by_model s))" "en_request e = Some a"
    and few: "unat (en_bypass_count e) + passes_left e s < 2 ^ 64"
    and live: "\<not> is_terminal (w_reqs w1 a)" and other: "r \<noteq> Some (Some a)"
  defines "e' \<equiv> e\<lparr>en_bypass_count := en_bypass_count e + 1\<rparr>"
  shows "r \<noteq> None" "advanced e s s1" "passes_left e' s1 < passes_left e s"
    "unat (en_bypass_count e') + passes_left e' s1 < 2 ^ 64"
proof -
  have inv: "wa_inv s" and dist: "distinct (seqs s)" using ok by (simp_all add: seq_ok_def)
  have "en_enqueue_sequence e < wa_next_sequence s" using ok e(1) by (auto simp: seq_ok_def seqs_def)
  then have k: "en_enqueue_sequence e < - 1" by (meson word_n1_ge order_less_le_trans)
  from selecting_advances [OF wa_next_selecting [OF inv n] dist e k live other]
  show adv: "r \<noteq> None" "advanced e s s1" by simp_all
  have "wa_max_bypass s1 = wa_max_bypass s" using wa_next_now [OF inv n] by (simp add: wa_result_def)
  from advanced_passes [OF adv(2) few this]
  show "passes_left e' s1 < passes_left e s" "unat (en_bypass_count e') + passes_left e' s1 < 2 ^ 64"
    by (simp_all add: Let_def e'_def)
qed

lemma wa_run_passes:
  "wa_run xs (s, w) = (ins, outs, (s', w')) \<Longrightarrow> seq_ok (length xs) s \<Longrightarrow>
   e \<in> set (entries (wa_by_model s)) \<Longrightarrow> en_request e = Some a \<Longrightarrow>
   unat (en_bypass_count e) + passes_left e s < 2 ^ 64 \<Longrightarrow>
   \<not> is_terminal (w_reqs w' a) \<Longrightarrow> Some a \<notin> set outs \<Longrightarrow> length outs \<le> passes_left e s"
proof (induction xs arbitrary: s w ins outs e)
  case Nil
  then show ?case by simp
next
  case (Cons x xs)
  have ok: "seq_ok (Suc (length xs)) s" using Cons.prems(2) by simp
  then have ok': "seq_ok (length xs) s" by (rule seq_ok_mono) simp
  show ?case
  proof (cases x)
    case (SEnqueue p)
    obtain ins1 where run: "wa_run xs (snd (wa_enqueue w p s), w) = (ins1, outs, (s', w'))"
      using Cons.prems(1) SEnqueue by (auto split: prod.splits)
    show ?thesis
      using Cons.IH [OF run seq_ok_enqueue [OF ok] _ Cons.prems(4) _ Cons.prems(6,7)] Cons.prems(5)
        enqueue_keeps_passes [OF ok Cons.prems(3), of w p] by simp
  next
    case SClose
    then show ?thesis
      using Cons.IH [of "wa_close s" w ins outs e] Cons.prems seq_ok_close [OF ok']
      by (simp add: wa_close_def passes_left_def older_def)
  next
    case SNext
    show ?thesis
    proof (cases "wa_next [] (s, w)")
      case None
      then show ?thesis using Cons.IH [of s w ins outs e] SNext Cons.prems ok' by simp
    next
      case (Some y)
      obtain r s1 w1 rest where y: "y = (r, (s1, w1), rest)" by (metis prod.exhaust)
      then have n: "wa_next [] (s, w) = Some (r, (s1, w1), rest)" using Some by simp
      obtain outs1 where run: "wa_run xs (s1, w1) = (ins, outs1, (s', w'))"
        and o: "outs = (case r of None \<Rightarrow> outs1 | Some p \<Rightarrow> p # outs1)"
        using Cons.prems(1) SNext n by (auto split: prod.splits)
      have ok1: "seq_ok (length xs) s1" by (rule seq_ok_next [OF ok' n])
      have "calm_le w1 w'" using workload.run_conserves [OF run seq_ok_inv [OF ok1]] by blast
      then have live: "\<not> is_terminal (w_reqs w1 a)" using Cons.prems(6) calm_le_terminal by blast
      have other: "r \<noteq> Some (Some a)" using Cons.prems(7) o by auto
      note adv = next_passes [OF ok n Cons.prems(3,4,5) live other]
      let ?e = "e\<lparr>en_bypass_count := en_bypass_count e + 1\<rparr>"
      have "length outs1 \<le> passes_left ?e s1"
        using Cons.prems(4,7) o adv
        by (intro Cons.IH [OF run ok1 _ _ _ Cons.prems(6)]) (auto simp: advanced_def split: option.splits)
      then show ?thesis using o adv(1,3) by (auto split: option.splits)
    qed
  qed
qed

text \<open>
  C10: Bounded bypass. Whatever calls are made on the scheduler and whatever the other
  threads do to the requests meanwhile, a request that has been enqueued is handed out
  before more than \<^verbatim>\<open>max_bypass\<close> requests plus those that were already queued have been
  handed out after it came, unless it is settled (cancelled, timed out) first. The bounds
  say that the 64 bit counters do not wrap around.
\<close>

theorem bounded_bypass:
  assumes "wa_make c mb = Inr s0" and "wa_run xs (s0, w0) = (ins0, outs0, (s1, w1))"
    and "wa_enqueue w1 (Some a) s1 = (st, s2)" and "status_ok st"
    and "wa_run ys (s2, w1) = (ins, outs, (s3, w3))"
    and "length xs + length ys + 1 < 2 ^ 64" and "unat mb + c < 2 ^ 64"
    and "unat mb + wa_size s1 < length outs"
  shows "Some a \<in> set outs \<or> is_terminal (w_reqs w3 a)"
proof (rule ccontr)
  assume contra: "\<not> (Some a \<in> set outs \<or> is_terminal (w_reqs w3 a))"
  let ?e = "\<lparr>en_request = Some a, en_enqueue_sequence = wa_next_sequence s1, en_bypass_count = 0\<rparr>"
  have "seq_ok (length xs + Suc (length ys)) s0" using assms(6) by (intro seq_ok_make [OF assms(1)]) simp
  from wa_run_seq_ok [OF assms(2) this] have ok1: "seq_ok (Suc (length ys)) s1"
    and mb: "wa_max_bypass s1 = wa_max_bypass s0" and cap: "wa_capacity s1 = wa_capacity s0" by simp_all
  then have inv1: "wa_inv s1" by (simp add: seq_ok_def)
  have ok2: "seq_ok (length ys) s2" using seq_ok_enqueue [OF ok1, of w1 "Some a"] assms(3) by simp
  note q = seqs_enqueue [OF inv1 assms(3,4)]
  have s0: "wa_max_bypass s0 = mb" "wa_capacity s0 = c" using assms(1) by (auto simp: wa_make_def split: if_splits)
  have "older (wa_next_sequence s1) s2 = older (wa_next_sequence s1) s1" using q by (simp add: older_mset)
  also have "\<dots> \<le> wa_size s1" using inv1 by (simp add: older_def wa_inv_def)
  finally have left: "passes_left ?e s2 \<le> unat mb + wa_size s1"
    using q mb s0 by (simp add: passes_left_def)
  have "wa_size s1 \<le> c" using inv1 cap s0 by (simp add: wa_inv_def)
  then have "unat (en_bypass_count ?e) + passes_left ?e s2 < 2 ^ 64" using left assms(7) by simp
  from wa_run_passes [OF assms(5) ok2 _ _ this] have "length outs \<le> passes_left ?e s2"
    using q contra by simp
  then show False using left assms(8) by simp
qed

theorem bounded_bypass_witness:
  "let w = fresh_world (\<lambda>_. new_request ''r'' ''m'' ''p'' 1);
       ys = [SEnqueue (Some 1), SNext, SNext];
       s = projr (wa_make 2 1);
       s2 = snd (wa_enqueue w (Some 0) s)
   in length (fst (snd (wa_run ys (s2, w)))) = 2 \<and>
      (Some 0 \<in> set (fst (snd (wa_run ys (s2, w)))) \<or>
       is_terminal (w_reqs (snd (snd (snd (wa_run ys (s2, w))))) 0))"
proof -
  let ?w = "fresh_world (\<lambda>_. new_request ''r'' ''m'' ''p'' 1)"
  let ?ys = "[SEnqueue (Some 1), SNext, SNext]"
  let ?s = "projr (wa_make 2 1)"
  let ?r = "wa_run ?ys (snd (wa_enqueue ?w (Some 0) ?s), ?w)"
  have mk: "wa_make 2 1 = Inr ?s" by (simp add: wa_make_def)
  have run0: "wa_run [] (?s, ?w) = ([], [], (?s, ?w))" by simp
  have enq: "wa_enqueue ?w (Some 0) ?s = (fst (wa_enqueue ?w (Some 0) ?s), snd (wa_enqueue ?w (Some 0) ?s))"
    and run: "?r = (fst ?r, fst (snd ?r), (fst (snd (snd ?r)), snd (snd (snd ?r))))" by simp_all
  have ok: "status_ok (fst (wa_enqueue ?w (Some 0) ?s))" by code_simp
  have len: "length (fst (snd ?r)) = 2" by code_simp
  have "Some 0 \<in> set (fst (snd ?r)) \<or> is_terminal (w_reqs (snd (snd (snd ?r))) 0)"
    by (rule bounded_bypass [OF mk run0 enq ok run]) (use len in \<open>simp_all add: wa_make_def\<close>)
  then show ?thesis using len by (simp add: Let_def)
qed

end
