(* ===== verification/AR_Workload_Policy.thy ===== *)
theory AR_Workload_Policy
  imports AR_Workload_Fair
begin

text \<open>
  Which entry the workload-aware scheduler hands out, for a thread that runs undisturbed: a
  starved entry if there is one, the oldest of them, and otherwise the front of a largest
  group of live requests.
\<close>

section \<open>Looking at live entries changes nothing\<close>

definition live_entry :: "World \<Rightarrow> Entry \<Rightarrow> bool" where
  "live_entry w e \<longleftrightarrow> \<not> dead_now w (en_request e)"

definition live_groups :: "World \<Rightarrow> groups \<Rightarrow> groups" where
  "live_groups w gs =
     filter (\<lambda>(m, q). q \<noteq> []) (map (\<lambda>(m, q). (m, filter (live_entry w) q)) gs)"

lemma reap_live: "quiet w \<Longrightarrow> \<not> dead_now w p \<Longrightarrow> reap p w = w"
  by (auto simp: reap_def is_dead_request_def read_req_def steady_now_def dead_now_def
      try_timeout_if_expired_def interfere_quiet Let_def is_expired_def
      split: option.splits if_splits)

lemma is_dead_live: "quiet w \<Longrightarrow> live_entry w e \<Longrightarrow> is_dead_request (en_request e) w = (False, w)"
  by (simp add: is_dead_request_quiet reap_live live_entry_def)

lemma live_entry_reap: "quiet w \<Longrightarrow> live_entry (reap p w) = live_entry w"
  by (rule ext) (simp add: live_entry_def dead_now_reap)

lemma prune_queue_quiet:
  "quiet w \<Longrightarrow> prune_queue q n w = (q', n', w') \<Longrightarrow>
     q' = filter (live_entry w) q \<and> quiet w' \<and> live_entry w' = live_entry w"
proof (induction q arbitrary: n w q' n' w')
  case Nil
  then show ?case by simp
next
  case (Cons e es)
  let ?w1 = "reap (en_request e) w"
  have dd: "is_dead_request (en_request e) w = (\<not> live_entry w e, ?w1)"
    using Cons.prems(1) by (simp add: is_dead_request_quiet live_entry_def)
  have w1: "quiet ?w1" "live_entry ?w1 = live_entry w" using Cons.prems(1) live_entry_reap by simp_all
  show ?case
    using Cons.IH [OF w1(1)] Cons.prems(2) dd w1(2) by (cases "live_entry w e") (auto split: prod.splits)
qed

lemma prune_groups_quiet:
  "quiet w \<Longrightarrow> prune_groups gs n w = (gs', n', w') \<Longrightarrow>
     gs' = live_groups w gs \<and> quiet w' \<and> live_entry w' = live_entry w"
proof (induction gs arbitrary: n w gs' n' w')
  case Nil
  then show ?case by (simp add: live_groups_def)
next
  case (Cons g gs)
  obtain m q where g: "g = (m, q)" by fastforce
  obtain q1 n1 w1 where q: "prune_queue q n w = (q1, n1, w1)" by (metis prod_cases3)
  obtain gs1 n2 w2 where r: "prune_groups gs n1 w1 = (gs1, n2, w2)" by (metis prod_cases3)
  note 1 = prune_queue_quiet [OF Cons.prems(1) q]
  then have "quiet w1" "live_entry w1 = live_entry w" by simp_all
  with Cons.IH [OF this(1) r] 1 show ?case using Cons.prems(2) g q r by (auto simp: live_groups_def)
qed

text \<open>From here on every entry is live: the loops read and leave the state alone.\<close>

definition all_live :: "World \<Rightarrow> groups \<Rightarrow> bool" where
  "all_live w gs \<longleftrightarrow> quiet w \<and> (\<forall>e \<in> set (entries gs). live_entry w e)"

lemma all_live_Cons: "all_live w ((m, q) # gs) \<longleftrightarrow> (\<forall>e \<in> set q. live_entry w e) \<and> all_live w gs"
  by (auto simp: all_live_def)

lemma all_live_groups: "quiet w \<Longrightarrow> all_live w (live_groups w gs)"
  unfolding all_live_def live_groups_def set_entries by auto

lemma prune_queue_live:
  "quiet w \<Longrightarrow> \<forall>e \<in> set q. live_entry w e \<Longrightarrow> prune_queue q n w = (q, n, w)"
  by (induction q) (simp_all add: is_dead_live)

lemma prune_groups_live:
  "all_live w gs \<Longrightarrow> \<forall>(m, q) \<in> set gs. q \<noteq> [] \<Longrightarrow> prune_groups gs n w = (gs, n, w)"
proof (induction gs)
  case (Cons g gs)
  obtain m q where g: "g = (m, q)" by fastforce
  then have "prune_queue q n w = (q, n, w)"
    using Cons.prems(1) by (intro prune_queue_live) (auto simp: all_live_def)
  then show ?case using Cons g by (simp add: all_live_Cons)
qed simp

lemma oldest_global_live: "all_live w gs \<Longrightarrow> snd (oldest_global gs old w) = w"
proof (induction gs arbitrary: old)
  case (Cons g gs)
  obtain m q where g: "g = (m, q)" by fastforce
  have "is_dead_request (en_request (hd q)) w = (False, w)" if "q \<noteq> []"
    using Cons.prems g that by (intro is_dead_live) (auto simp: all_live_def)
  then show ?case using Cons g by (cases q) (simp_all add: all_live_Cons)
qed simp

lemma starved_queue_live:
  "quiet w \<Longrightarrow> \<forall>e \<in> set q. live_entry w e \<Longrightarrow> snd (starved_queue mb m i q best w) = w"
  by (induction q arbitrary: i best) (simp_all add: is_dead_live)

lemma starved_groups_live: "all_live w gs \<Longrightarrow> snd (starved_groups mb gs best w) = w"
proof (induction gs arbitrary: best)
  case (Cons g gs)
  obtain m q where g: "g = (m, q)" by fastforce
  have "snd (starved_queue mb m 0 q best w) = w"
    using Cons.prems g by (intro starved_queue_live) (auto simp: all_live_def)
  then show ?case using Cons g by (auto simp: all_live_Cons split: prod.splits)
qed simp

definition oldest_in :: "Entry list \<Rightarrow> u64 \<Rightarrow> u64" where
  "oldest_in q old = foldl (\<lambda>b e. min b (en_enqueue_sequence e)) old q"

lemma live_group_live:
  "quiet w \<Longrightarrow> \<forall>e \<in> set q. live_entry w e \<Longrightarrow>
   live_group q n old w = (n + length q, oldest_in q old, w)"
  by (induction q arbitrary: n old) (simp_all add: is_dead_live oldest_in_def)

section \<open>The best group\<close>

lemma better_group_trans:
  "\<not> better_group m n old best \<Longrightarrow> better_group m' n' old' best \<Longrightarrow>
   \<not> better_group m n old (Some (m', n', old'))"
  by (cases best) (auto simp: better_group_def)

lemma better_group_irrefl: "\<not> better_group m n old (Some (m, n, old))"
  by (simp add: better_group_def)

abbreviation better_queue :: "string \<times> Entry list \<Rightarrow> group_best \<Rightarrow> bool" where
  "better_queue g best \<equiv> better_group (fst g) (length (snd g)) (oldest_in (snd g) (- 1)) best"

lemma largest_group_live:
  "all_live w gs \<Longrightarrow> \<forall>(m, q) \<in> set gs. q \<noteq> [] \<Longrightarrow> largest_group gs best w = (c, w') \<Longrightarrow>
     w' = w \<and> (c = best \<or> (\<exists>g \<in> set gs. c = Some (fst g, length (snd g), oldest_in (snd g) (- 1)))) \<and>
     (\<forall>g. g \<in> set gs \<or> \<not> better_queue g best \<longrightarrow> \<not> better_queue g c)"
proof (induction gs arbitrary: best)
  case Nil
  then show ?case by simp
next
  case (Cons g gs)
  obtain m q where g: "g = (m, q)" by fastforce
  let ?best = "if better_queue g best then Some (fst g, length (snd g), oldest_in (snd g) (- 1)) else best"
  have "live_group q 0 (- 1) w = (0 + length q, oldest_in q (- 1), w)"
    using Cons.prems(1) g by (intro live_group_live) (auto simp: all_live_def)
  then have r: "largest_group gs ?best w = (c, w')" using Cons.prems(2,3) g by (simp split: if_splits)
  have "all_live w gs" using Cons.prems(1) g by (simp add: all_live_Cons)
  from Cons.IH [OF this _ r] Cons.prems(2)
  have IH: "w' = w" "c = ?best \<or> (\<exists>g \<in> set gs. c = Some (fst g, length (snd g), oldest_in (snd g) (- 1)))"
    "\<And>g. g \<in> set gs \<or> \<not> better_queue g ?best \<Longrightarrow> \<not> better_queue g c" by auto
  have "\<not> better_queue g ?best" by (simp add: better_group_irrefl)
  moreover have "\<not> better_queue h ?best" if "\<not> better_queue h best" for h
    using that better_group_trans [of "fst h" _ _ best] by simp
  ultimately have "\<not> better_queue h c" if "h \<in> set (g # gs) \<or> \<not> better_queue h best" for h
    using that IH(3) by auto
  moreover have "c = best \<or> (\<exists>g \<in> set (g # gs). c = Some (fst g, length (snd g), oldest_in (snd g) (- 1)))"
    using IH(2) by (auto split: if_splits)
  ultimately show ?case using IH(1) by blast
qed

text \<open>The choice among live groups.\<close>

definition starved_entry :: "WorkloadAwareScheduler \<Rightarrow> Entry \<Rightarrow> bool" where
  "starved_entry s e \<longleftrightarrow> wa_max_bypass s \<le> en_bypass_count e \<and> en_enqueue_sequence e < - 1"

lemma choose_entry_live:
  assumes live: "all_live w (wa_by_model s)" and ok: "groups_ok (wa_by_model s)" "wa_by_model s \<noteq> []"
  shows "\<exists>m q i st. choose_entry s w = (Some (m, i), st, w) \<and> (m, q) \<in> set (wa_by_model s) \<and> i < length q \<and>
    ((wa_max_bypass s \<le> en_bypass_count (q ! i) \<and>
      (\<forall>f \<in> set (entries (wa_by_model s)). wa_max_bypass s \<le> en_bypass_count f \<longrightarrow>
         en_enqueue_sequence (q ! i) \<le> en_enqueue_sequence f)) \<or>
     ((\<forall>f \<in> set (entries (wa_by_model s)). \<not> starved_entry s f) \<and> i = 0 \<and>
      (\<forall>g \<in> set (wa_by_model s). \<not> better_queue g (Some (m, length q, oldest_in q (- 1))))))"
proof -
  obtain b c where st: "starved_groups (wa_max_bypass s) (wa_by_model s) (- 1, None) w = ((b, c), w)"
    using starved_groups_live [OF live] by (metis prod.exhaust snd_conv)
  note least = starved_groups_least [OF st]
  have alive: "\<not> gone w [f]" if "f \<in> set (entries (wa_by_model s))" for f
    using live that by (auto simp: all_live_def live_entry_def dead_now_def gone_def split: option.splits)
  have le: "b \<le> en_enqueue_sequence f"
    if "f \<in> set (entries (wa_by_model s))" "wa_max_bypass s \<le> en_bypass_count f" for f
    using least that alive by blast
  show ?thesis
  proof (cases "(b, c) = (- 1, None)")
    case False
    then obtain m q j where q: "(m, q) \<in> set (wa_by_model s)" "j < length q" "c = Some (m, j)"
      "en_enqueue_sequence (q ! j) = b" "wa_max_bypass s \<le> en_bypass_count (q ! j)"
      using least by blast
    then have "choose_entry s w = (Some (m, j), True, w)" using st by (simp add: choose_entry_def)
    then show ?thesis using q le by blast
  next
    case True
    then have none: "\<not> starved_entry s f" if "f \<in> set (entries (wa_by_model s))" for f
      using le [OF that] by (auto simp: starved_entry_def)
    obtain c2 w2 where l: "largest_group (wa_by_model s) None w = (c2, w2)" by fastforce
    have ne: "\<forall>(m, q) \<in> set (wa_by_model s). q \<noteq> []" using ok(1) by (simp add: groups_ok_def)
    note big = largest_group_live [OF live ne l]
    have "c2 \<noteq> None"
    proof
      assume "c2 = None"
      then have "\<not> better_queue (hd (wa_by_model s)) None" using big ok(2) by auto
      then show False by (simp add: better_group_def)
    qed
    then obtain g where g: "g \<in> set (wa_by_model s)" "c2 = Some (fst g, length (snd g), oldest_in (snd g) (- 1))"
      using big by blast
    obtain m q where mq: "g = (m, q)" by fastforce
    have "0 < length q" using ne g(1) mq by auto
    moreover have "choose_entry s w = (Some (m, 0), False, w)"
      using st True l big g mq by (simp add: choose_entry_def)
    moreover have "\<forall>g \<in> set (wa_by_model s). \<not> better_queue g (Some (m, length q, oldest_in q (- 1)))"
      using big g mq by simp
    ultimately show ?thesis using none g(1) mq by blast
  qed
qed

section \<open>The policy\<close>

lemma dispatch_chosen_live:
  assumes "all_live w (wa_by_model s)" "wa_inv s" "(m, q) \<in> set (wa_by_model s)" "i < length q"
  shows "\<exists>s' w'. dispatch_chosen oldest m i st s w = Inr (Some (en_request (q ! i)), s', w')"
proof -
  have q: "map_of (wa_by_model s) m = Some q" using wa_inv_map_of assms(2,3) by blast
  have "q ! i \<in> set (entries (wa_by_model s))" 
    unfolding set_entries using assms(3,4) by (intro UN_I [of "(m, q)"]) auto
  then have dd: "is_dead_request (en_request (q ! i)) w = (False, w)"
    using assms(1) by (intro is_dead_live) (auto simp: all_live_def)
  have "drop i q = q ! i # drop (Suc i) q" using assms(4) by (simp add: Cons_nth_drop_Suc)
  then have "drop_dead (drop i q) n w = (drop i q, n, w)" for n using dd by simp
  then have "erase_dead_at i q n w = (q, n, w)" for n by (simp add: erase_dead_at_def)
  then show ?thesis using q dd assms(4) by (simp add: dispatch_chosen_def Let_def case_prod_beta)
qed



section \<open>Giving up while open\<close>

text \<open>
  The workload-aware scheduler can answer "no more requests" while it is open. If every
  request it holds has been settled before \<^verbatim>\<open>next\<close> looks, it throws them out and answers
  with nothing, although it has not been closed and may be filled again. (The first-in
  first-out scheduler keeps waiting in this case.)
\<close>

lemma workload_gives_up_open:
  assumes "wa_inv s" and "0 < wa_size s" and "\<not> wa_closed s"
    and "gone w (entries (wa_by_model s))"
  shows "\<exists>s' w'. wa_next [] (s, w) = Some (None, (s', w'), []) \<and> \<not> wa_closed s' \<and> wa_size s' = 0"
proof -
  obtain s1 w1 where p: "prune_dead_entries_locked s w = (s1, w1)" by fastforce
  have "wa_by_model s1 = []" by (rule prune_empties [OF assms(1) p assms(4)])
  moreover have "wa_inv s1" by (rule prune_inv [OF assms(1) p])
  ultimately have "wa_size s1 = 0" by (simp add: wa_inv_def)
  moreover have "\<not> wa_closed s1" using prune_step [OF p] assms(3) by (auto simp: wa_step_def)
  ultimately show ?thesis using assms(2) p by (simp add: wa_next_def)
qed

section \<open>Nothing is lost\<close>

text \<open>
  C26: Conservation in the workload-aware scheduler. Over any sequence of calls on a fresh
  scheduler, and whatever the other threads do, every accepted request has been handed out
  exactly once, or is still held, or was thrown out after it had been settled; the number
  held never exceeds the capacity.
\<close>

theorem workload_conserves:
  assumes "wa_make c mb = Inr s" and "wa_run xs (s, w) = (ins, outs, (s', w'))"
  shows "(\<exists>dropped. mset ins = mset outs + mset (wa_held s') + mset dropped \<and>
      (\<forall>a. Some a \<in> set dropped \<longrightarrow> is_terminal (w_reqs w' a))) \<and>
    length (wa_held s') \<le> wa_capacity s'"
proof -
  have "wa_inv s" "wa_held s = []"
    using assms(1) wa_make_inv by (auto simp: wa_make_def wa_held_def split: if_splits)
  with workload.run_conserves [OF assms(2)] workload.size_held [of s'] workload.size_capacity [of s']
  show ?thesis by auto
qed

theorem workload_conserves_witness:
  "let w = fresh_world (\<lambda>_. new_request ''r'' ''m'' ''p'' 1);
       r = wa_run [SEnqueue (Some 0), SEnqueue (Some 1), SNext] (projr (wa_make 2 1), w)
   in fst r = [Some 0, Some 1] \<and> length (wa_held (fst (snd (snd r)))) \<le> wa_capacity (fst (snd (snd r)))"
proof -
  let ?w = "fresh_world (\<lambda>_. new_request ''r'' ''m'' ''p'' 1)"
  let ?r = "wa_run [SEnqueue (Some 0), SEnqueue (Some 1), SNext] (projr (wa_make 2 1), ?w)"
  have mk: "wa_make 2 1 = Inr (projr (wa_make 2 1))" by (simp add: wa_make_def)
  have run: "?r = (fst ?r, fst (snd ?r), (fst (snd (snd ?r)), snd (snd (snd ?r))))" by simp
  have "fst ?r = [Some 0, Some 1]" by code_simp
  then show ?thesis using workload_conserves [OF mk run] by (simp add: Let_def)
qed

end
