(* ===== verification/AR_AnyScheduler.thy ===== *)
theory AR_AnyScheduler
  imports AR_Workload_Policy
begin

text \<open>
  The scheduler the runtime owns through \<^verbatim>\<open>std::unique_ptr<IRequestScheduler>\<close>: one of the
  two implementations, with the virtual calls dispatched on it. It satisfies the scheduler
  interface because both implementations do, and so does what admission promises.
\<close>

datatype IRequestScheduler = Fifo FifoScheduler | Workload WorkloadAwareScheduler

fun sch_inv :: "IRequestScheduler \<Rightarrow> bool" where
  "sch_inv (Fifo q) = bq_inv q"
| "sch_inv (Workload s) = wa_inv s"

fun sch_held :: "IRequestScheduler \<Rightarrow> RequestPtr list" where
  "sch_held (Fifo q) = bq_queue q"
| "sch_held (Workload s) = wa_held s"

fun sch_closed :: "IRequestScheduler \<Rightarrow> bool" where
  "sch_closed (Fifo q) = bq_closed q"
| "sch_closed (Workload s) = wa_closed s"

fun sch_enqueue :: "World \<Rightarrow> RequestPtr \<Rightarrow> IRequestScheduler \<Rightarrow> Status \<times> IRequestScheduler" where
  "sch_enqueue w p (Fifo q) = map_prod id Fifo (fifo_enqueue w p q)"
| "sch_enqueue w p (Workload s) = map_prod id Workload (wa_enqueue w p s)"

text \<open>
  The states a sleeping consumer finds at its wake-ups are those of the same object, so a
  wake-up of the other kind does not occur.
\<close>

fun fifo_of :: "IRequestScheduler \<times> World \<Rightarrow> (FifoScheduler \<times> World) list" where
  "fifo_of (Fifo q, w) = [(q, w)]"
| "fifo_of (Workload s, w) = []"

fun workload_of :: "IRequestScheduler \<times> World \<Rightarrow> (WorkloadAwareScheduler \<times> World) list" where
  "workload_of (Fifo q, w) = []"
| "workload_of (Workload s, w) = [(s, w)]"

fun sch_next :: "IRequestScheduler sched_next" where
  "sch_next wakes (Fifo q, w) =
     map_option (map_prod id (map_prod (map_prod Fifo id) (map (map_prod Fifo id))))
       (fifo_next (concat (map fifo_of wakes)) (q, w))"
| "sch_next wakes (Workload s, w) =
     map_option (map_prod id (map_prod (map_prod Workload id) (map (map_prod Workload id))))
       (wa_next (concat (map workload_of wakes)) (s, w))"

fun sch_close :: "IRequestScheduler \<Rightarrow> IRequestScheduler" where
  "sch_close (Fifo q) = Fifo (fifo_close q)"
| "sch_close (Workload s) = Workload (wa_close s)"

fun sch_size :: "IRequestScheduler \<Rightarrow> nat" where
  "sch_size (Fifo q) = fifo_size q"
| "sch_size (Workload s) = wa_size s"

fun sch_capacity :: "IRequestScheduler \<Rightarrow> nat" where
  "sch_capacity (Fifo q) = fifo_capacity q"
| "sch_capacity (Workload s) = wa_capacity s"

lemma sch_next_Fifo:
  "sch_next [] (Fifo q, w) = Some (r, (s', w'), rest) \<Longrightarrow>
   \<exists>q' rest'. s' = Fifo q' \<and> fifo_next [] (q, w) = Some (r, (q', w'), rest')"
  by auto

lemma sch_next_Workload:
  "sch_next [] (Workload s, w) = Some (r, (s', w'), rest) \<Longrightarrow>
   \<exists>t rest'. s' = Workload t \<and> wa_next [] (s, w) = Some (r, (t, w'), rest')"
  by auto

lemma sch_enqueue_ok:
  assumes "sch_inv s" "sch_enqueue w p s = (st, s')" "status_ok st"
  shows "mset (sch_held s') = add_mset p (mset (sch_held s)) \<and> sch_size s < sch_capacity s \<and> \<not> sch_closed s"
proof (cases s)
  case (Fifo q)
  obtain q' where "fifo_enqueue w p q = (st, q')" "s' = Fifo q'"
    using assms(2) Fifo by (cases "fifo_enqueue w p q") simp
  then show ?thesis using fifo.enqueue_ok [of q w p st q'] assms Fifo by simp
next
  case (Workload t)
  obtain t' where "wa_enqueue w p t = (st, t')" "s' = Workload t'"
    using assms(2) Workload by (cases "wa_enqueue w p t") simp
  then show ?thesis using workload.enqueue_ok [of t w p st t'] assms Workload by simp
qed

lemma sch_enqueue_error:
  assumes "sch_inv s" "sch_enqueue w p s = (st, s')" "\<not> status_ok st"
  shows "s' = s \<and> (st_code st = EC_QueueClosed \<and> sch_closed s \<or>
    st_code st = EC_QueueFull \<and> sch_size s = sch_capacity s \<or> st_code st = EC_InternalError \<and> p = None)"
proof (cases s)
  case (Fifo q)
  obtain q' where "fifo_enqueue w p q = (st, q')" "s' = Fifo q'"
    using assms(2) Fifo by (cases "fifo_enqueue w p q") simp
  then show ?thesis using fifo.enqueue_error [of q w p st q'] assms Fifo by simp
next
  case (Workload t)
  obtain t' where "wa_enqueue w p t = (st, t')" "s' = Workload t'"
    using assms(2) Workload by (cases "wa_enqueue w p t") simp
  then show ?thesis using workload.enqueue_error [of t w p st t'] assms Workload by simp
qed

text \<open>A call of \<^verbatim>\<open>next\<close> is a call on the implementation, and inherits its laws.\<close>

lemma sch_next_laws:
  assumes "sch_inv s" "sch_next [] (s, w) = Some (r, (s', w'), rest)"
  shows "sch_inv s' \<and> calm_le w w' \<and> sch_closed s' = sch_closed s \<and> r \<noteq> Some None \<and> (r = None \<longrightarrow> sch_held s' = []) \<and>
    (\<exists>dropped. mset (sch_held s) = mset (case r of None \<Rightarrow> [] | Some p \<Rightarrow> [p]) + mset (sch_held s') + mset dropped
       \<and> (\<forall>a. Some a \<in> set dropped \<longrightarrow> is_terminal (w_reqs w' a)))"
proof (cases s)
  case (Fifo q)
  obtain q' rest' where q': "s' = Fifo q'" "fifo_next [] (q, w) = Some (r, (q', w'), rest')"
    using sch_next_Fifo [of q w r s' w' rest] assms(2) Fifo by auto
  have inv: "bq_inv q" using assms(1) Fifo by simp
  have "r \<noteq> Some None" "r = None \<longrightarrow> bq_queue q' = []"
    using fifo.next_some [OF inv, of w] fifo.next_none [OF inv, of w] q'(2) by auto
  then show ?thesis
    using fifo.next_invar [OF inv q'(2)] fifo.next_world [OF inv q'(2)] fifo.next_held [OF inv q'(2)]
      fifo.next_closed [OF inv q'(2)] q'(1) Fifo
    by simp
next
  case (Workload t)
  obtain t' rest' where t': "s' = Workload t'" "wa_next [] (t, w) = Some (r, (t', w'), rest')"
    using sch_next_Workload [of t w r s' w' rest] assms(2) Workload by auto
  have inv: "wa_inv t" using assms(1) Workload by simp
  have "r \<noteq> Some None" "r = None \<longrightarrow> wa_held t' = []"
    using workload.next_some [OF inv, of w] workload.next_none [OF inv, of w] t'(2) by auto
  then show ?thesis
    using workload.next_invar [OF inv t'(2)] workload.next_world [OF inv t'(2)] workload.next_held [OF inv t'(2)]
      workload.next_closed [OF inv t'(2)] t'(1) Workload
    by simp
qed

interpretation sch: request_scheduler
  sch_inv sch_held sch_closed sch_enqueue sch_next sch_close sch_size sch_capacity
proof unfold_locales
  fix s :: IRequestScheduler and w p
  show "sch_inv s \<Longrightarrow> sch_size s = length (sch_held s)"
    by (cases s) (simp_all add: fifo.size_held workload.size_held)
  show "sch_inv s \<Longrightarrow> sch_size s \<le> sch_capacity s"
    by (cases s) (simp_all only: sch_inv.simps sch_size.simps sch_capacity.simps
        fifo.size_capacity workload.size_capacity)
  show "sch_inv s \<Longrightarrow> sch_inv (snd (sch_enqueue w p s))"
    by (cases s) (simp_all add: fifo.enqueue_invar workload.enqueue_invar)
  show "sch_inv s \<Longrightarrow> sch_inv (sch_close s)"
    by (cases s) (simp_all add: fifo.close_invar workload.close_invar)
  show "sch_held (sch_close s) = sch_held s" "sch_closed (sch_close s)"
    by (cases s; simp add: fifo.close_held workload.close_held fifo.close_closed workload.close_closed)+
next
  fix s s' :: IRequestScheduler and w w' p rest
  assume "sch_inv s" "sch_next [] (s, w) = Some (Some p, (s', w'), rest)"
  from sch_next_laws [OF this] show "p \<noteq> None" by simp
next
  fix s s' :: IRequestScheduler and w w' rest
  assume "sch_inv s" "sch_next [] (s, w) = Some (None, (s', w'), rest)"
  from sch_next_laws [OF this] show "sch_held s' = []" by simp
next
  fix s :: IRequestScheduler and w
  assume "sch_inv s" "sch_closed s"
  then show "sch_next [] (s, w) \<noteq> None"
    using fifo.next_answers workload.next_answers by (cases s) auto
qed (use sch_enqueue_ok sch_enqueue_error sch_next_laws in blast)+

text \<open>
  C27: Admission accounts for every request. Whichever scheduler the runtime uses, and while
  other threads may cancel the request or time it out at any moment, a call of \<^verbatim>\<open>admit\<close> on
  a new request ends with the request held by the scheduler (queued, unless it has been
  settled meanwhile) or with the scheduler unchanged and the request settled; the scheduler
  keeps its invariant.
\<close>

theorem admission_accounts:
  assumes "sch_inv s" and "sole_owner a w" and "rq_state (w_reqs w a) = Received"
    and "admit sch_enqueue (Some a) (s, w) = (st, s', w')"
  shows "sch_inv s' \<and>
    ((s' = s \<and> is_terminal (w_reqs w' a)) \<or>
     (status_ok st \<and> mset (sch_held s') = add_mset (Some a) (mset (sch_held s)) \<and>
      (rq_state (w_reqs w' a) = Queued \<or> is_terminal (w_reqs w' a))))"
  using sch.admit_accounts [OF assms(1,2) _ assms(4)] assms(3) by blast

theorem admission_accounts_witness:
  "let w = (fresh_world (\<lambda>_. new_request ''r'' ''m'' ''p'' 1))\<lparr>w_env := [[], [EnvTick 5], [EnvReq 0 OpCancel]]\<rparr>;
       s = Fifo (projr (fifo_make 1));
       r = admit sch_enqueue (Some 0) (s, w)
   in sch_inv (fst (snd r)) \<and>
      ((fst (snd r) = s \<and> is_terminal (w_reqs (snd (snd r)) 0)) \<or>
       (status_ok (fst r) \<and> mset (sch_held (fst (snd r))) = add_mset (Some 0) (mset (sch_held s))))"
proof -
  let ?w = "(fresh_world (\<lambda>_. new_request ''r'' ''m'' ''p'' 1))\<lparr>w_env := [[], [EnvTick 5], [EnvReq 0 OpCancel]]\<rparr>"
  let ?s = "Fifo (projr (fifo_make 1))"
  let ?r = "admit sch_enqueue (Some 0) (?s, ?w)"
  have "sch_inv ?s" by code_simp
  moreover have "sole_owner 0 ?w" by (auto simp: sole_owner_def)
  moreover have "rq_state (w_reqs ?w 0) = Received" by code_simp
  moreover have "?r = (fst ?r, fst (snd ?r), snd (snd ?r))" by simp
  ultimately show ?thesis using admission_accounts [of ?s 0 ?w "fst ?r" "fst (snd ?r)" "snd (snd ?r)"]
    unfolding Let_def by blast
qed

end
