(* ===== verification/AR_Batch.thy ===== *)
theory AR_Batch
  imports AR_World
begin

text \<open>
  Batch formation (\<^verbatim>\<open>batch_builder.hpp\<close>, \<^verbatim>\<open>batch_builder.cpp\<close>). A batch starts with one
  request and takes further ones of the same model from a source until it is full, the source
  gives nothing more, or a request of another model turns up, which is deferred.

  The source \<^verbatim>\<open>pop_until\<close> and the check \<^verbatim>\<open>on_extra_request\<close> are functions on the shared
  state. The code dereferences the requests it takes; a null pointer is undefined behaviour
  and is the answer \<open>None\<close> of the model, which is shown not to occur for a source that gives
  no null pointers.
\<close>

section \<open>State and operations\<close>

record BatchBuilderConfig =
  bb_max_batch_size :: nat
  bb_max_batch_wait :: int

record FormedBatch =
  fb_requests :: "RequestPtr list"
  fb_deferred :: "RequestPtr option"

definition bb_make :: "BatchBuilderConfig \<Rightarrow> BatchBuilderConfig or_throw" where
  "bb_make config =
     (if bb_max_batch_size config < 1 then Inl ''BatchBuilder max_batch_size must be >= 1''
      else if bb_max_batch_wait config < 0 then Inl ''BatchBuilder max_batch_wait must be >= 0''
      else Inr config)"

fun earliest_deadline :: "RequestPtr list \<Rightarrow> time_point option \<Rightarrow> World \<Rightarrow> time_point option \<times> World" where
  "earliest_deadline [] earliest w = (earliest, w)"
| "earliest_deadline (None # ps) earliest w = earliest_deadline ps earliest w"
| "earliest_deadline (Some a # ps) earliest w =
     (case read_req a w of (r, w1) \<Rightarrow>
      case rq_deadline r of
        None \<Rightarrow> earliest_deadline ps earliest w1
      | Some dl \<Rightarrow>
          earliest_deadline ps
            (if (case earliest of None \<Rightarrow> True | Some e \<Rightarrow> dl < e) then Some dl else earliest) w1)"

text \<open>The waiting time is in microseconds, the clock in nanoseconds.\<close>

definition compute_deadline :: "BatchBuilderConfig \<Rightarrow> bool \<Rightarrow> RequestPtr list \<Rightarrow> World \<Rightarrow> time_point \<times> World" where
  "compute_deadline config allow_wait ps w =
     (case steady_now w of (now, w1) \<Rightarrow>
      let wait_deadline = now + 1000 * nat (bb_max_batch_wait config) in
      case earliest_deadline ps None w1 of (request_deadline, w2) \<Rightarrow>
        if \<not> allow_wait then steady_now w2
        else (case request_deadline of
                None \<Rightarrow> (wait_deadline, w2)
              | Some d \<Rightarrow> (min wait_deadline d, w2)))"

type_synonym pop_until_fn = "time_point \<Rightarrow> World \<Rightarrow> RequestPtr option \<times> World"
type_synonym extra_request_fn = "RequestPtr \<Rightarrow> World \<Rightarrow> bool \<times> World"

definition extra_accepted :: "extra_request_fn option \<Rightarrow> RequestPtr \<Rightarrow> World \<Rightarrow> bool \<times> World" where
  "extra_accepted on_extra_request p w =
     (case on_extra_request of None \<Rightarrow> (True, w) | Some f \<Rightarrow> f p w)"

function form_loop ::
  "BatchBuilderConfig \<Rightarrow> pop_until_fn \<Rightarrow> bool \<Rightarrow> extra_request_fn option \<Rightarrow> string \<Rightarrow>
   RequestPtr list \<Rightarrow> World \<Rightarrow> (FormedBatch \<times> World) option" where
  "form_loop config pop_until allow_wait on_extra_request model_id ps w =
     (if length ps < bb_max_batch_size config then
        (case compute_deadline config allow_wait ps w of (deadline, w1) \<Rightarrow>
         case pop_until deadline w1 of
           (None, w2) \<Rightarrow> Some (\<lparr>fb_requests = ps, fb_deferred = None\<rparr>, w2)
         | (Some p, w2) \<Rightarrow>
             (case extra_accepted on_extra_request p w2 of (accepted, w3) \<Rightarrow>
                if \<not> accepted then Some (\<lparr>fb_requests = ps, fb_deferred = Some p\<rparr>, w3)
                else
                  (case p of
                     None \<Rightarrow> None
                   | Some a \<Rightarrow>
                       if rq_model_id (w_reqs w3 a) \<noteq> model_id
                       then Some (\<lparr>fb_requests = ps, fb_deferred = Some p\<rparr>, w3)
                       else form_loop config pop_until allow_wait on_extra_request model_id (ps @ [p]) w3)))
      else Some (\<lparr>fb_requests = ps, fb_deferred = None\<rparr>, w))"
  by pat_completeness auto
termination
  by (relation "measure (\<lambda>(config, _, _, _, _, ps, _). bb_max_batch_size config - length ps)") auto

declare form_loop.simps [simp del]

definition form ::
  "BatchBuilderConfig \<Rightarrow> RequestPtr \<Rightarrow> pop_until_fn \<Rightarrow> bool \<Rightarrow> extra_request_fn option \<Rightarrow> World \<Rightarrow>
   (FormedBatch \<times> World) option" where
  "form config first pop_until allow_wait on_extra_request w =
     (case first of
        None \<Rightarrow> Some (\<lparr>fb_requests = [], fb_deferred = None\<rparr>, w)
      | Some a \<Rightarrow>
          form_loop config pop_until allow_wait on_extra_request (rq_model_id (w_reqs w a)) [first] w)"

section \<open>The deadline of a wait\<close>

lemma earliest_deadline_le [world_mono]: "world_le w (snd (earliest_deadline ps e w))"
proof (induction ps e w rule: earliest_deadline.induct)
  case (3 a ps earliest w)
  obtain r w1 where r: "read_req a w = (r, w1)" by fastforce
  have "world_le w w1" using read_req_le [of w a] r by simp
  then show ?case using 3 r by (auto split: option.splits intro: world_le_trans)
qed simp_all

lemma compute_deadline_le [world_mono]: "world_le w (snd (compute_deadline config allow_wait ps w))"
proof -
  obtain now w1 where 1: "steady_now w = (now, w1)" by fastforce
  obtain d w2 where 2: "earliest_deadline ps None w1 = (d, w2)" by fastforce
  have "world_le w w1" using steady_now_le [of w] 1 by simp
  also have "world_le w1 w2" using earliest_deadline_le [of w1 ps None] 2 by simp
  finally show ?thesis
    using 1 2 world_le_trans [OF _ steady_now_le]
    by (auto simp: compute_deadline_def Let_def split: option.splits)
qed

section \<open>Waiting leaves the lanes alone\<close>

lemma earliest_deadline_frame: "lane_frame w (snd (earliest_deadline ps e w))"
proof (induction ps e w rule: earliest_deadline.induct)
  case (3 a ps earliest w)
  obtain r w1 where r: "read_req a w = (r, w1)" by fastforce
  have "lane_frame w w1" using read_req_frame [of w a] r by simp
  then show ?case using 3 r by (auto split: option.splits intro: lane_frame_trans)
qed simp_all

lemma compute_deadline_frame: "lane_frame w (snd (compute_deadline config allow_wait ps w))"
proof -
  obtain now w1 where 1: "steady_now w = (now, w1)" by fastforce
  obtain d w2 where 2: "earliest_deadline ps None w1 = (d, w2)" by fastforce
  have "lane_frame w w1" using steady_now_frame [of w] 1 by simp
  also have "lane_frame w1 w2" using earliest_deadline_frame [of w1 ps None] 2 by simp
  finally show ?thesis
    using 1 2 lane_frame_trans [OF _ steady_now_frame]
    by (auto simp: compute_deadline_def Let_def split: option.splits)
qed

section \<open>The contract of batch formation\<close>

text \<open>
  What a batch builder relies on: a source that takes requests from the front of a lane and
  throws away only settled ones, and a check that leaves the lane alone.
\<close>

definition waiting :: "WorkerId \<Rightarrow> World \<Rightarrow> addr \<Rightarrow> bool" where
  "waiting k w a \<longleftrightarrow> Some a \<in> set (bq_queue (w_lane w k)) \<or> is_terminal (w_reqs w a)"

definition lane_length :: "WorkerId \<Rightarrow> World \<Rightarrow> nat" where
  "lane_length k w = length (bq_queue (w_lane w k))"

lemma lane_frame_waiting: "lane_frame w w' \<Longrightarrow> waiting k w a \<Longrightarrow> waiting k w' a"
  unfolding lane_frame_def waiting_def
  using set_mono_prefix world_le_terminal by blast

lemma lane_frame_length: "lane_frame w w' \<Longrightarrow> w_env w' = w_env w \<Longrightarrow> lane_length k w' = lane_length k w"
  by (simp add: lane_frame_def lane_length_def)

text \<open>Taking requests from a lane, in terms of what stays.\<close>

definition takes :: "WorkerId \<Rightarrow> RequestPtr list \<Rightarrow> World \<Rightarrow> World \<Rightarrow> bool" where
  "takes k ps w w' \<longleftrightarrow>
     world_le w w' \<and>
     (w_env w' = w_env w \<longrightarrow> lane_length k w' + length ps \<le> lane_length k w) \<and>
     (\<forall>j. j \<noteq> k \<longrightarrow> prefix (bq_queue (w_lane w j)) (bq_queue (w_lane w' j))) \<and>
     (\<forall>a. waiting k w a \<longrightarrow> waiting k w' a \<or> Some a \<in> set ps)"

lemma takes_none: "lane_frame w w' \<Longrightarrow> takes k [] w w'"
  by (auto simp: takes_def lane_frame_le lane_frame_length lane_frame_waiting) (simp add: lane_frame_def)

lemma takes_trans:
  assumes uv: "takes k ps u v" and vw: "takes k qs v w"
  shows "takes k (ps @ qs) u w"
proof -
  have le: "world_le u v" "world_le v w" using assms by (simp_all add: takes_def)
  have "lane_length k w + length (ps @ qs) \<le> lane_length k u" if "w_env w = w_env u"
  proof -
    have "w_env v = w_env u" using world_le_env_antisym [OF le that] .
    then show ?thesis using assms that by (simp add: takes_def)
  qed
  moreover have "\<forall>a. waiting k u a \<longrightarrow> waiting k w a \<or> Some a \<in> set (ps @ qs)"
    using assms unfolding takes_def by auto
  moreover have "\<forall>j. j \<noteq> k \<longrightarrow> prefix (bq_queue (w_lane u j)) (bq_queue (w_lane w j))"
    using assms prefix_order.trans unfolding takes_def by blast
  ultimately show ?thesis using world_le_trans [OF le] by (simp add: takes_def)
qed

lemma takes_frame: "takes k ps u v \<Longrightarrow> lane_frame v w \<Longrightarrow> takes k ps u w"
  using takes_trans [OF _ takes_none] by fastforce

lemma frame_takes: "lane_frame u v \<Longrightarrow> takes k ps v w \<Longrightarrow> takes k ps u w"
  using takes_trans [OF takes_none] by fastforce

text \<open>What the loop that forms a batch promises when it starts with the requests \<open>ps\<close>.\<close>

definition formed_from ::
  "WorkerId \<Rightarrow> nat \<Rightarrow> string \<Rightarrow> RequestPtr list \<Rightarrow> World \<Rightarrow> FormedBatch \<Rightarrow> World \<Rightarrow> bool" where
  "formed_from k limit mid ps w fb w' \<longleftrightarrow>
     (\<exists>qs. fb_requests fb = ps @ qs \<and>
        (\<forall>p \<in> set (fb_requests fb). \<exists>a. p = Some a \<and> rq_model_id (w_reqs w' a) = mid) \<and>
        length (fb_requests fb) \<le> max (length ps) limit \<and> fb_deferred fb \<noteq> Some None \<and>
        takes k (qs @ (case fb_deferred fb of None \<Rightarrow> [] | Some p \<Rightarrow> [p])) w w')"

lemma same_models:
  assumes "\<forall>p \<in> set ps. \<exists>a. p = Some a \<and> rq_model_id (w_reqs w a) = mid" "takes k qs w v"
  shows "\<forall>p \<in> set ps. \<exists>a. p = Some a \<and> rq_model_id (w_reqs v a) = mid"
  using assms world_le_model_id [of w v] by (fastforce simp: takes_def)

lemma formed_none:
  assumes "\<forall>p \<in> set ps. \<exists>a. p = Some a \<and> rq_model_id (w_reqs w a) = mid" "takes k [] w w'"
  shows "formed_from k limit mid ps w \<lparr>fb_requests = ps, fb_deferred = None\<rparr> w'"
  using same_models [OF assms] assms(2) by (simp add: formed_from_def)

lemma formed_deferred:
  assumes "\<forall>p \<in> set ps. \<exists>a. p = Some a \<and> rq_model_id (w_reqs w a) = mid" "takes k [Some a] w w'"
  shows "formed_from k limit mid ps w \<lparr>fb_requests = ps, fb_deferred = Some (Some a)\<rparr> w'"
  using same_models [OF assms] assms(2) by (simp add: formed_from_def)

lemma formed_more:
  assumes "formed_from k limit mid (ps @ [p]) v fb w'" "takes k [p] w v" "length ps < limit"
  shows "formed_from k limit mid ps w fb w'"
proof -
  obtain qs where "fb_requests fb = (ps @ [p]) @ qs"
    "takes k (qs @ (case fb_deferred fb of None \<Rightarrow> [] | Some p \<Rightarrow> [p])) v w'"
    using assms(1) by (auto simp: formed_from_def)
  then show ?thesis
    using assms takes_trans [OF assms(2)] unfolding formed_from_def by (intro exI [of _ "p # qs"]) auto
qed

locale batch_source =
  fixes k :: WorkerId
    and pop_until :: pop_until_fn
    and on_extra_request :: extra_request_fn
  assumes pop_takes: "pop_until d w = (r, w') \<Longrightarrow> takes k (case r of None \<Rightarrow> [] | Some p \<Rightarrow> [p]) w w'"
    and pop_not_null: "pop_until d w = (Some p, w') \<Longrightarrow> p \<noteq> None"
    and extra_frame: "lane_frame w (snd (on_extra_request p w))"
begin

lemma form_loop_formed:
  assumes "\<forall>p \<in> set ps. \<exists>a. p = Some a \<and> rq_model_id (w_reqs w a) = mid"
  shows "\<exists>fb w'. form_loop config pop_until allow_wait (Some on_extra_request) mid ps w = Some (fb, w') \<and>
    formed_from k (bb_max_batch_size config) mid ps w fb w'"
  using assms
proof (induction "bb_max_batch_size config - length ps" arbitrary: ps w rule: less_induct)
  case less
  show ?case
  proof (cases "length ps < bb_max_batch_size config")
    case False
    then show ?thesis
      using formed_none [OF less.prems takes_none] by (subst form_loop.simps) auto
  next
    case room: True
    obtain d w1 where 1: "compute_deadline config allow_wait ps w = (d, w1)" by fastforce
    obtain r w2 where 2: "pop_until d w1 = (r, w2)" by fastforce
    have i1: "lane_frame w w1" using compute_deadline_frame [of w config allow_wait ps] 1 by simp
    have t2: "takes k (case r of None \<Rightarrow> [] | Some p \<Rightarrow> [p]) w w2" using frame_takes [OF i1 pop_takes [OF 2]] .
    show ?thesis
    proof (cases r)
      case None
      then show ?thesis
        using room 1 2 t2 formed_none [OF less.prems, of k w2] by (subst form_loop.simps) simp
    next
      case (Some p)
      then obtain a where a: "p = Some a" using pop_not_null 2 by blast
      obtain acc w3 where 3: "on_extra_request p w2 = (acc, w3)" by fastforce
      have t3: "takes k [p] w w3" using takes_frame [OF t2, of w3] extra_frame [of w2 p] 3 Some by simp
      show ?thesis
      proof (cases "acc \<and> rq_model_id (w_reqs w3 a) = mid")
        case False
        then show ?thesis
          using room 1 2 3 Some a formed_deferred [OF less.prems t3 [unfolded a]] by (subst form_loop.simps) (auto simp: extra_accepted_def)
      next
        case True
        then have rec: "form_loop config pop_until allow_wait (Some on_extra_request) mid ps w =
            form_loop config pop_until allow_wait (Some on_extra_request) mid (ps @ [p]) w3"
          using room 1 2 3 Some a by (subst form_loop.simps) (simp add: extra_accepted_def)
        have all: "\<forall>p \<in> set (ps @ [p]). \<exists>a. p = Some a \<and> rq_model_id (w_reqs w3 a) = mid"
          using same_models [OF less.prems t3] True a by auto
        have "bb_max_batch_size config - length (ps @ [p]) < bb_max_batch_size config - length ps" using room by simp
        from less.hyps [OF this all]
        obtain fb w' where "form_loop config pop_until allow_wait (Some on_extra_request) mid (ps @ [p]) w3 = Some (fb, w')"
          "formed_from k (bb_max_batch_size config) mid (ps @ [p]) w3 fb w'" by blast
        then show ?thesis using rec formed_more [OF _ t3 room] by auto
      qed
    qed
  qed
qed

lemma form_loop_spec:
  assumes "\<forall>p \<in> set ps. \<exists>a. p = Some a \<and> rq_model_id (w_reqs w a) = mid"
  shows "\<exists>fb w' qs. form_loop config pop_until allow_wait (Some on_extra_request) mid ps w = Some (fb, w') \<and>
    fb_requests fb = ps @ qs \<and>
    (\<forall>p \<in> set (fb_requests fb). \<exists>a. p = Some a \<and> rq_model_id (w_reqs w' a) = mid) \<and>
    length (fb_requests fb) \<le> max (length ps) (bb_max_batch_size config) \<and>
    fb_deferred fb \<noteq> Some None \<and>
    takes k (qs @ (case fb_deferred fb of None \<Rightarrow> [] | Some p \<Rightarrow> [p])) w w'"
  using form_loop_formed [OF assms] by (auto simp: formed_from_def)

lemma form_spec:
  "\<exists>fb w' qs. form config (Some a) pop_until allow_wait (Some on_extra_request) w = Some (fb, w') \<and>
    fb_requests fb = Some a # qs \<and>
    (\<forall>p \<in> set (fb_requests fb). \<exists>b. p = Some b \<and> rq_model_id (w_reqs w' b) = rq_model_id (w_reqs w a)) \<and>
    length (fb_requests fb) \<le> max 1 (bb_max_batch_size config) \<and>
    fb_deferred fb \<noteq> Some None \<and>
    takes k (qs @ (case fb_deferred fb of None \<Rightarrow> [] | Some p \<Rightarrow> [p])) w w'"
  using form_loop_spec [of "[Some a]" w "rq_model_id (w_reqs w a)" config allow_wait]
  by (simp add: form_def)

end

end
