(* ===== verification/AR_Models.thy ===== *)
theory AR_Models
  imports AR_Status
begin

text \<open>
  The parts below the model manager: the model registry and its builder
  (\<^verbatim>\<open>model_registry.cpp\<close>), the resource manager that accounts for memory
  (\<^verbatim>\<open>resource_manager.cpp\<close>) and the eviction policies (\<^verbatim>\<open>eviction_policy.cpp\<close>).

  An unordered map is an association list whose order stands for the unspecified iteration
  order; the sorted results are shown not to depend on it.
\<close>

section \<open>The model registry\<close>

type_synonym ModelRegistry = "(string \<times> ModelSpec) list"

definition registry_contains :: "string \<Rightarrow> ModelRegistry \<Rightarrow> bool" where
  "registry_contains model_id reg \<longleftrightarrow> map_of reg model_id \<noteq> None"

definition registry_add :: "ModelSpec \<Rightarrow> ModelRegistry \<Rightarrow> Status \<times> ModelRegistry" where
  "registry_add spec b =
     (if ms_model_id spec = [] then (status_error EC_InternalError ''empty model_id'', b)
      else if ms_estimated_memory_bytes spec = 0
      then (status_error EC_InternalError ''estimated_memory_bytes must be > 0'', b)
      else if ms_estimated_load_cost spec = 0
      then (status_error EC_InternalError ''estimated_load_cost must be > 0'', b)
      else if registry_contains (ms_model_id spec) b
      then (status_error EC_InternalError ''duplicate model_id'', b)
      else (status_success, (ms_model_id spec, spec) # b))"

definition registry_build :: "ModelRegistry \<Rightarrow> Status \<times> ModelRegistry option" where
  "registry_build b =
     (if b = [] then (status_error EC_InternalError ''empty model registry'', None)
      else (status_success, Some b))"

definition registry_find :: "string \<Rightarrow> ModelRegistry \<Rightarrow> ModelSpec \<Rightarrow> Status \<times> ModelSpec" where
  "registry_find model_id reg out =
     (case map_of reg model_id of
        None \<Rightarrow> (status_error EC_ModelNotFound ''model not found in registry'', out)
      | Some spec \<Rightarrow> (status_success, spec))"

definition registry_size :: "ModelRegistry \<Rightarrow> nat" where
  "registry_size reg = length reg"

definition spec_lt :: "ModelSpec \<Rightarrow> ModelSpec \<Rightarrow> bool" where
  "spec_lt a b \<longleftrightarrow> ms_model_id a < ms_model_id b"

definition registry_models :: "ModelRegistry \<Rightarrow> ModelSpec list" where
  "registry_models reg = sort_by spec_lt (map snd reg)"

interpretation spec_order: keyed_order spec_lt ms_model_id
  by unfold_locales (simp add: spec_lt_def)

definition registry_inv :: "ModelRegistry \<Rightarrow> bool" where
  "registry_inv reg \<longleftrightarrow> distinct (map fst reg) \<and>
     (\<forall>(m, spec) \<in> set reg. ms_model_id spec = m \<and> m \<noteq> [] \<and>
        0 < ms_estimated_memory_bytes spec \<and> 0 < ms_estimated_load_cost spec)"

lemma registry_inv_Nil [inv_rules]: "registry_inv []"
  by (simp add: registry_inv_def)

lemma registry_add_inv [inv_rules]: "registry_inv b \<Longrightarrow> registry_inv (snd (registry_add spec b))"
  by (auto simp: registry_inv_def registry_add_def registry_contains_def map_of_eq_None_iff word_neq_0_conv)

text \<open>The specifications given to a builder, and whether each was accepted.\<close>

fun registry_adds :: "ModelSpec list \<Rightarrow> ModelRegistry \<Rightarrow> bool list \<times> ModelRegistry" where
  "registry_adds [] b = ([], b)"
| "registry_adds (x # xs) b =
     (case registry_add x b of (st, b1) \<Rightarrow>
      case registry_adds xs b1 of (oks, b2) \<Rightarrow> (status_ok st # oks, b2))"

lemma registry_adds_inv: "registry_inv b \<Longrightarrow> registry_inv (snd (registry_adds xs b))"
proof (induction xs arbitrary: b)
  case (Cons x xs)
  then show ?case using registry_add_inv [OF Cons.prems, of x] by (simp add: case_prod_beta)
qed simp

lemma registry_adds_keeps: "map_of b m = Some s \<Longrightarrow> map_of (snd (registry_adds xs b)) m = Some s"
proof (induction xs arbitrary: b)
  case (Cons x xs)
  have "map_of (snd (registry_add x b)) m = Some s"
    using Cons.prems by (auto simp: registry_add_def registry_contains_def)
  then show ?case using Cons.IH by (simp add: case_prod_beta)
qed simp

lemma registry_adds_found:
  "length oks = length xs \<Longrightarrow> registry_adds xs b = (oks, reg) \<Longrightarrow> i < length xs \<Longrightarrow> oks ! i \<Longrightarrow>
   map_of reg (ms_model_id (xs ! i)) = Some (xs ! i)"
proof (induction xs arbitrary: b oks i)
  case (Cons x xs)
  obtain st b1 where a: "registry_add x b = (st, b1)" by fastforce
  obtain oks1 where r: "registry_adds xs b1 = (oks1, reg)" "oks = status_ok st # oks1"
    using Cons.prems(2) a by (auto split: prod.splits)
  show ?case
  proof (cases i)
    case 0
    then have "status_ok st" using Cons.prems(4) r(2) by simp
    then have "map_of b1 (ms_model_id x) = Some x" using a by (auto simp: registry_add_def split: if_splits)
    from registry_adds_keeps [OF this, of xs] show ?thesis using 0 r(1) by simp
  next
    case (Suc j)
    then show ?thesis using Cons.IH [of oks1 b1 j] r Cons.prems by simp
  qed
qed simp

lemma registry_adds_length: "length (fst (registry_adds xs b)) = length xs"
  by (induction xs arbitrary: b) (simp_all add: case_prod_beta)

lemma registry_models_sorted:
  assumes "registry_inv b"
  shows "sorted_wrt (<) (map ms_model_id (registry_models b))"
proof -
  have "map ms_model_id (map snd b) = map fst b"
    using assms by (auto simp: registry_inv_def)
  then have "distinct (map ms_model_id (map snd b))" using assms by (simp add: registry_inv_def del: map_map)
  then have "distinct (map ms_model_id (registry_models b))"
    unfolding registry_models_def by (metis mset_sort_by mset_map mset_eq_imp_distinct_iff)
  moreover have "sorted (map ms_model_id (registry_models b))"
    using spec_order.sorted_sort_by [of "map snd b"]
    by (simp add: registry_models_def sorted_wrt_map spec_lt_def not_less)
  ultimately show ?thesis by (simp add: strict_sorted_iff)
qed


section \<open>The resource manager\<close>

record ResourceManager =
  rm_budget :: u64
  rm_used :: u64

definition rm_make :: "u64 \<Rightarrow> ResourceManager" where
  "rm_make budget = \<lparr>rm_budget = budget, rm_used = 0\<rparr>"

definition rm_available :: "ResourceManager \<Rightarrow> u64" where
  "rm_available rm = rm_budget rm - rm_used rm"

definition can_reserve :: "u64 \<Rightarrow> ResourceManager \<Rightarrow> bool" where
  "can_reserve bytes rm \<longleftrightarrow> bytes \<le> rm_budget rm - rm_used rm"

definition reserve :: "u64 \<Rightarrow> ResourceManager \<Rightarrow> Status \<times> ResourceManager" where
  "reserve bytes rm =
     (if bytes > rm_budget rm - rm_used rm
      then (status_error EC_InsufficientMemory ''cannot reserve memory'', rm)
      else (status_success, rm\<lparr>rm_used := rm_used rm + bytes\<rparr>))"

definition release :: "u64 \<Rightarrow> ResourceManager \<Rightarrow> Status \<times> ResourceManager" where
  "release bytes rm =
     (if bytes > rm_used rm
      then (status_error EC_InternalError ''over-release of memory'', rm)
      else (status_success, rm\<lparr>rm_used := rm_used rm - bytes\<rparr>))"

definition rm_inv :: "ResourceManager \<Rightarrow> bool" where
  "rm_inv rm \<longleftrightarrow> rm_used rm \<le> rm_budget rm"

lemma rm_make_inv [inv_rules]: "rm_inv (rm_make budget)"
  by (simp add: rm_inv_def rm_make_def)

lemma can_reserve_iff:
  "rm_inv rm \<Longrightarrow> can_reserve bytes rm \<longleftrightarrow> unat (rm_used rm) + unat bytes \<le> unat (rm_budget rm)"
  by (auto simp: can_reserve_def rm_inv_def word_le_nat_alt unat_sub_le)

lemma reserve_spec:
  assumes "rm_inv rm" "reserve bytes rm = (st, rm')"
  shows "rm_inv rm' \<and> rm_budget rm' = rm_budget rm \<and>
    (status_ok st \<longleftrightarrow> can_reserve bytes rm) \<and>
    (status_ok st \<longrightarrow> unat (rm_used rm') = unat (rm_used rm) + unat bytes) \<and>
    (\<not> status_ok st \<longrightarrow> rm' = rm \<and> st_code st = EC_InsufficientMemory)"
proof (cases "can_reserve bytes rm")
  case True
  have le: "unat (rm_used rm) + unat bytes \<le> unat (rm_budget rm)" using can_reserve_iff [OF assms(1)] True by blast
  then have "unat (rm_used rm + bytes) = unat (rm_used rm) + unat bytes"
    using unat_u64_less [of "rm_budget rm"] by (intro unat_add_u64) simp
  moreover have "\<not> rm_budget rm - rm_used rm < bytes" using True by (simp add: can_reserve_def)
  ultimately show ?thesis using True assms le
    by (auto simp: reserve_def rm_inv_def word_le_nat_alt)
next
  case False
  then have "rm_budget rm - rm_used rm < bytes" by (simp add: can_reserve_def not_le)
  then show ?thesis using assms False by (auto simp: reserve_def)
qed

lemma release_spec:
  assumes "rm_inv rm" "release bytes rm = (st, rm')"
  shows "rm_inv rm' \<and> rm_budget rm' = rm_budget rm \<and>
    (status_ok st \<longleftrightarrow> unat bytes \<le> unat (rm_used rm)) \<and>
    (status_ok st \<longrightarrow> unat (rm_used rm') = unat (rm_used rm) - unat bytes) \<and> (\<not> status_ok st \<longrightarrow> rm' = rm)"
  using assms
  by (auto simp: release_def rm_inv_def word_le_nat_alt word_less_nat_alt unat_sub_le not_less split: if_splits)

section \<open>Eviction policies\<close>

record EvictionCandidate =
  ec_model_id :: string
  ec_estimated_memory_bytes :: u64
  ec_last_used :: u64
  ec_estimated_load_cost :: u64
  ec_use_count :: u64

datatype IEvictionPolicy = LruEvictionPolicy | CostAwareEvictionPolicy

definition lru_lt :: "EvictionCandidate \<Rightarrow> EvictionCandidate \<Rightarrow> bool" where
  "lru_lt a b =
     (if ec_last_used a \<noteq> ec_last_used b then ec_last_used a < ec_last_used b
      else ec_model_id a < ec_model_id b)"

definition cost_lt :: "EvictionCandidate \<Rightarrow> EvictionCandidate \<Rightarrow> bool" where
  "cost_lt a b =
     (if ec_estimated_load_cost a \<noteq> ec_estimated_load_cost b
      then ec_estimated_load_cost a < ec_estimated_load_cost b
      else if ec_use_count a \<noteq> ec_use_count b then ec_use_count a < ec_use_count b
      else if ec_estimated_memory_bytes a \<noteq> ec_estimated_memory_bytes b
      then ec_estimated_memory_bytes a > ec_estimated_memory_bytes b
      else if ec_last_used a \<noteq> ec_last_used b then ec_last_used a < ec_last_used b
      else ec_model_id a < ec_model_id b)"

fun order_victims :: "IEvictionPolicy \<Rightarrow> EvictionCandidate list \<Rightarrow> EvictionCandidate list" where
  "order_victims LruEvictionPolicy cs = sort_by lru_lt cs"
| "order_victims CostAwareEvictionPolicy cs = sort_by cost_lt cs"

definition lru_key :: "EvictionCandidate \<Rightarrow> u64 \<times> string" where
  "lru_key c = (ec_last_used c, ec_model_id c)"

definition cost_key :: "EvictionCandidate \<Rightarrow> u64 \<times> u64 \<times> int \<times> u64 \<times> string" where
  "cost_key c = (ec_estimated_load_cost c, ec_use_count c, - uint (ec_estimated_memory_bytes c),
                 ec_last_used c, ec_model_id c)"

interpretation lru: keyed_order lru_lt lru_key
  by unfold_locales (auto simp: lru_lt_def lru_key_def less_prod_def')

interpretation cost: keyed_order cost_lt cost_key
  by unfold_locales (auto simp: cost_lt_def cost_key_def less_prod_def' word_less_def word_uint_eq_iff)

lemma mset_order_victims [simp]: "mset (order_victims p cs) = mset cs"
  by (cases p) simp_all

lemma order_victims_Nil [simp]: "order_victims p cs = [] \<longleftrightarrow> cs = []"
  by (cases p) simp_all

text \<open>
  C29: The victim does not depend on the hash table. For candidates with different model
  identifiers, both policies give the same order of victims whatever the order in which the
  candidates were collected; the first victim of the least-recently-used policy has the least
  \<^verbatim>\<open>last_used\<close>, and the first victim of the cost-aware policy has the least load cost and
  among those the least use count.
\<close>

theorem eviction_deterministic:
  assumes "mset cs = mset cs'" and "inj_on ec_model_id (set cs)"
  shows "order_victims p cs = order_victims p cs' \<and>
    (\<forall>v vs c. order_victims p cs = v # vs \<and> c \<in> set cs \<longrightarrow>
       (case p of
          LruEvictionPolicy \<Rightarrow> ec_last_used v \<le> ec_last_used c
        | CostAwareEvictionPolicy \<Rightarrow>
            ec_estimated_load_cost v < ec_estimated_load_cost c \<or>
            ec_estimated_load_cost v = ec_estimated_load_cost c \<and> ec_use_count v \<le> ec_use_count c))"
proof (cases p)
  case LruEvictionPolicy
  have "inj_on lru_key (set cs)" using assms(2) by (auto simp: inj_on_def lru_key_def)
  moreover have "ec_last_used v \<le> ec_last_used c" if "sort_by lru_lt cs = v # vs" "c \<in> set cs" for v vs c
    using lru.head_least [OF that] by (auto simp: lru_key_def less_eq_prod_def)
  ultimately show ?thesis using lru.order_irrelevant [OF assms(1)] LruEvictionPolicy by simp
next
  case CostAwareEvictionPolicy
  have "inj_on cost_key (set cs)" using assms(2) by (auto simp: inj_on_def cost_key_def)
  moreover have "ec_estimated_load_cost v < ec_estimated_load_cost c \<or>
      ec_estimated_load_cost v = ec_estimated_load_cost c \<and> ec_use_count v \<le> ec_use_count c"
    if "sort_by cost_lt cs = v # vs" "c \<in> set cs" for v vs c
    using cost.head_least [OF that] by (auto simp: cost_key_def less_eq_prod_def)
  ultimately show ?thesis using cost.order_irrelevant [OF assms(1)] CostAwareEvictionPolicy by simp
qed

theorem eviction_deterministic_witness:
  "let a = \<lparr>ec_model_id = ''a'', ec_estimated_memory_bytes = 4, ec_last_used = 7,
             ec_estimated_load_cost = 1, ec_use_count = 3\<rparr>;
       b = \<lparr>ec_model_id = ''b'', ec_estimated_memory_bytes = 9, ec_last_used = 2,
             ec_estimated_load_cost = 5, ec_use_count = 1\<rparr>
   in order_victims LruEvictionPolicy [a, b] = order_victims LruEvictionPolicy [b, a] \<and>
      hd (order_victims LruEvictionPolicy [a, b]) = b \<and>
      hd (order_victims CostAwareEvictionPolicy [a, b]) = a"
proof -
  let ?a = "\<lparr>ec_model_id = ''a'', ec_estimated_memory_bytes = 4, ec_last_used = 7,
             ec_estimated_load_cost = 1, ec_use_count = 3\<rparr>"
  let ?b = "\<lparr>ec_model_id = ''b'', ec_estimated_memory_bytes = 9, ec_last_used = 2,
             ec_estimated_load_cost = 5, ec_use_count = 1\<rparr>"
  have "mset [?a, ?b] = mset [?b, ?a]" "inj_on ec_model_id (set [?a, ?b])" by simp_all
  from eviction_deterministic [OF this, of LruEvictionPolicy] show ?thesis
    by (simp add: Let_def lru_lt_def cost_lt_def)
qed


end
