(* ===== verification/AR_Backend.thy ===== *)
theory AR_Backend
  imports AR_Request AR_Models
begin

text \<open>
  The backend interface \<^verbatim>\<open>IModelBackend\<close> (\<^verbatim>\<open>backend.hpp\<close>) and the synthetic backend
  (\<^verbatim>\<open>synthetic_backend.cpp\<close>).

  The interface is the locale \<open>model_backend\<close>; its laws say which models are loaded after
  each operation. A batch is a list of pointers to requests; running it returns the results
  or throws. Durations are 64 bit words: the product of a duration in microseconds and a
  \<^verbatim>\<open>std::size_t\<close> is computed in unsigned 64 bit arithmetic.
\<close>

section \<open>The interface\<close>

datatype backend_exn = StdException string | OtherException

type_synonym batch_result = "backend_exn + InferenceResult list"

locale model_backend =
  fixes load :: "ModelSpec \<Rightarrow> 'b \<Rightarrow> Status \<times> 'b"
    and unload :: "string \<Rightarrow> 'b \<Rightarrow> Status \<times> 'b"
    and is_loaded :: "string \<Rightarrow> 'b \<Rightarrow> bool"
    and infer_batch :: "InferenceRequest option list \<Rightarrow> 'b \<Rightarrow> batch_result \<times> 'b"
  assumes load_loaded:
      "load spec b = (st, b') \<Longrightarrow> \<not> is_loaded (ms_model_id spec) b \<Longrightarrow>
         is_loaded m b' = (if m = ms_model_id spec then status_ok st else is_loaded m b)"
    and unload_loaded:
      "unload m0 b = (st, b') \<Longrightarrow>
         is_loaded m b' = (if m = m0 \<and> status_ok st then False else is_loaded m b)"
    and infer_loaded: "infer_batch vs b = (r, b') \<Longrightarrow> is_loaded m b' = is_loaded m b"

section \<open>The synthetic backend\<close>

record SyntheticModelConfig =
  sc_load_latency :: u64
  sc_prefill_latency :: u64
  sc_per_token_latency :: u64
  sc_fail_load :: bool
  sc_fail_infer :: bool

record SyntheticBackendMetrics =
  sm_load_count :: u64
  sm_inference_count :: u64
  sm_batch_inference_count :: u64
  sm_last_batch_size :: u64
  sm_last_simulated_load_cost :: u64
  sm_total_simulated_load_cost :: u64
  sm_last_simulated_inference_cost :: u64
  sm_total_simulated_inference_cost :: u64
  sm_last_simulated_batch_cost :: u64
  sm_total_simulated_batch_cost :: u64

record SyntheticModelEntry =
  se_config :: SyntheticModelConfig
  se_state :: ModelState

record SyntheticModelBackend =
  sb_models :: "(string \<times> SyntheticModelEntry) list"
  sb_metrics :: SyntheticBackendMetrics

definition syn_make :: SyntheticModelBackend where
  "syn_make =
     \<lparr>sb_models = [],
      sb_metrics = \<lparr>sm_load_count = 0, sm_inference_count = 0, sm_batch_inference_count = 0,
        sm_last_batch_size = 0, sm_last_simulated_load_cost = 0, sm_total_simulated_load_cost = 0,
        sm_last_simulated_inference_cost = 0, sm_total_simulated_inference_cost = 0,
        sm_last_simulated_batch_cost = 0, sm_total_simulated_batch_cost = 0\<rparr>\<rparr>"

definition syn_register :: "string \<Rightarrow> SyntheticModelConfig \<Rightarrow> SyntheticModelBackend \<Rightarrow> SyntheticModelBackend" where
  "syn_register model_id config b =
     b\<lparr>sb_models := AList.update model_id \<lparr>se_config = config, se_state = MS_Unloaded\<rparr> (sb_models b)\<rparr>"

definition syn_set_state :: "string \<Rightarrow> SyntheticModelEntry \<Rightarrow> ModelState \<Rightarrow> SyntheticModelBackend \<Rightarrow> SyntheticModelBackend" where
  "syn_set_state m entry st b = b\<lparr>sb_models := AList.update m (entry\<lparr>se_state := st\<rparr>) (sb_models b)\<rparr>"

definition count_load :: "u64 \<Rightarrow> SyntheticBackendMetrics \<Rightarrow> SyntheticBackendMetrics" where
  "count_load latency ms =
     ms\<lparr>sm_last_simulated_load_cost := latency,
        sm_total_simulated_load_cost := sm_total_simulated_load_cost ms + latency,
        sm_load_count := sm_load_count ms + 1\<rparr>"

definition syn_load :: "ModelSpec \<Rightarrow> SyntheticModelBackend \<Rightarrow> Status \<times> SyntheticModelBackend" where
  "syn_load model b =
     (case map_of (sb_models b) (ms_model_id model) of
        None \<Rightarrow> (status_error EC_ModelNotFound ''model profile not registered'', b)
      | Some entry \<Rightarrow>
          if se_state entry = MS_Resident then (status_success, b)
          else
            (let b1 = b\<lparr>sb_metrics := count_load (sc_load_latency (se_config entry)) (sb_metrics b)\<rparr>
             in if sc_fail_load (se_config entry)
                then (status_error EC_ModelLoadFailed ''synthetic load failure'',
                      syn_set_state (ms_model_id model) entry MS_Failed b1)
                else (status_success, syn_set_state (ms_model_id model) entry MS_Resident b1)))"

definition syn_unload :: "string \<Rightarrow> SyntheticModelBackend \<Rightarrow> Status \<times> SyntheticModelBackend" where
  "syn_unload model_id b =
     (case map_of (sb_models b) model_id of
        None \<Rightarrow> (status_error EC_ModelNotFound ''model profile not registered'', b)
      | Some entry \<Rightarrow>
          (status_success,
           if se_state entry = MS_Resident then syn_set_state model_id entry MS_Unloaded b
           else if se_state entry = MS_Failed then syn_set_state model_id entry MS_Unloaded b
           else b))"

definition syn_is_loaded :: "string \<Rightarrow> SyntheticModelBackend \<Rightarrow> bool" where
  "syn_is_loaded model_id b =
     (case map_of (sb_models b) model_id of None \<Rightarrow> False | Some entry \<Rightarrow> se_state entry = MS_Resident)"

definition syn_model_state :: "string \<Rightarrow> SyntheticModelBackend \<Rightarrow> ModelState" where
  "syn_model_state model_id b =
     (case map_of (sb_models b) model_id of None \<Rightarrow> MS_Unloaded | Some entry \<Rightarrow> se_state entry)"

text \<open>
  The loop that adds up the tokens (lines 112 to 122); \<open>None\<close> when a member of the batch is
  null or asks for another model.
\<close>

fun batch_tokens :: "string \<Rightarrow> InferenceRequest option list \<Rightarrow> u64 \<Rightarrow> u64 option" where
  "batch_tokens model [] tokens = Some tokens"
| "batch_tokens model (None # vs) tokens = None"
| "batch_tokens model (Some r # vs) tokens =
     (if rq_model_id r \<noteq> model then None
      else batch_tokens model vs (tokens + rq_max_output_tokens r))"

definition count_batch :: "u64 \<Rightarrow> nat \<Rightarrow> SyntheticBackendMetrics \<Rightarrow> SyntheticBackendMetrics" where
  "count_batch cost n ms =
     ms\<lparr>sm_last_simulated_batch_cost := cost,
        sm_total_simulated_batch_cost := sm_total_simulated_batch_cost ms + cost,
        sm_last_batch_size := of_nat n,
        sm_batch_inference_count := sm_batch_inference_count ms + 1,
        sm_last_simulated_inference_cost := cost,
        sm_total_simulated_inference_cost := sm_total_simulated_inference_cost ms + cost,
        sm_inference_count := sm_inference_count ms + of_nat n\<rparr>"

definition syn_infer_one :: "bool \<Rightarrow> InferenceRequest \<Rightarrow> InferenceResult" where
  "syn_infer_one fail_infer r =
     (if fail_infer
      then result_failure (status_error EC_InferenceFailed ''synthetic inference failure'')
      else result_success \<lparr>out_text = ''synthetic:'' @ rq_request_id r,
                           out_output_tokens = rq_max_output_tokens r\<rparr>)"

definition syn_infer_batch ::
  "InferenceRequest option list \<Rightarrow> SyntheticModelBackend \<Rightarrow> InferenceResult list \<times> SyntheticModelBackend" where
  "syn_infer_batch vs b =
     (let all_fail = (\<lambda>code msg. (map (\<lambda>_. result_failure (status_error code msg)) vs, b)) in
      case vs of
        [] \<Rightarrow> ([], b)
      | None # _ \<Rightarrow> all_fail EC_InternalError ''null request in batch''
      | Some first # _ \<Rightarrow>
          (case map_of (sb_models b) (rq_model_id first) of
             None \<Rightarrow> all_fail EC_ModelNotFound ''model profile not registered''
           | Some entry \<Rightarrow>
               if se_state entry \<noteq> MS_Resident
               then all_fail EC_InferenceFailed ''model is not resident''
               else
                 (case batch_tokens (rq_model_id first) vs 0 of
                    None \<Rightarrow> all_fail EC_InternalError ''incompatible batch member''
                  | Some total_tokens \<Rightarrow>
                      (let batch_cost = sc_prefill_latency (se_config entry) +
                                        sc_per_token_latency (se_config entry) * total_tokens
                       in (map (\<lambda>v. syn_infer_one (sc_fail_infer (se_config entry)) (the v)) vs,
                           b\<lparr>sb_metrics := count_batch batch_cost (length vs) (sb_metrics b)\<rparr>)))))"

definition syn_infer :: "InferenceRequest \<Rightarrow> SyntheticModelBackend \<Rightarrow> InferenceResult \<times> SyntheticModelBackend" where
  "syn_infer r b =
     (case syn_infer_batch [Some r] b of (results, b') \<Rightarrow>
        if length results \<noteq> 1
        then (result_failure (status_error EC_InternalError ''synthetic infer_batch cardinality error''), b')
        else (hd results, b'))"

text \<open>As an implementation of the interface: it never throws.\<close>

definition syn_infer_batch_virtual ::
  "InferenceRequest option list \<Rightarrow> SyntheticModelBackend \<Rightarrow> batch_result \<times> SyntheticModelBackend" where
  "syn_infer_batch_virtual vs b = map_prod Inr id (syn_infer_batch vs b)"

lemma syn_is_loaded_set_state:
  "syn_is_loaded m (syn_set_state m0 entry st b) = (if m = m0 then st = MS_Resident else syn_is_loaded m b)"
  by (simp add: syn_is_loaded_def syn_set_state_def update_conv' split: option.splits)

lemma syn_is_loaded_metrics [simp]: "syn_is_loaded m (b\<lparr>sb_metrics := ms\<rparr>) = syn_is_loaded m b"
  by (simp add: syn_is_loaded_def)

lemma syn_infer_batch_models: "sb_models (snd (syn_infer_batch vs b)) = sb_models b"
  by (auto simp: syn_infer_batch_def Let_def split: list.splits option.splits if_splits)

interpretation synthetic: model_backend syn_load syn_unload syn_is_loaded syn_infer_batch_virtual
proof unfold_locales
  fix spec m m0 vs r st and b b' :: SyntheticModelBackend
  show "syn_load spec b = (st, b') \<Longrightarrow> \<not> syn_is_loaded (ms_model_id spec) b \<Longrightarrow>
      syn_is_loaded m b' = (if m = ms_model_id spec then status_ok st else syn_is_loaded m b)"
    by (auto simp: syn_load_def syn_is_loaded_set_state Let_def split: option.splits if_splits)
      (simp_all add: syn_is_loaded_def)
  show "syn_unload m0 b = (st, b') \<Longrightarrow>
      syn_is_loaded m b' = (if m = m0 \<and> status_ok st then False else syn_is_loaded m b)"
    by (auto simp: syn_unload_def syn_is_loaded_set_state split: option.splits if_splits)
      (simp_all add: syn_is_loaded_def)
  show "syn_infer_batch_virtual vs b = (r, b') \<Longrightarrow> syn_is_loaded m b' = syn_is_loaded m b"
    using syn_infer_batch_models [of vs b]
    by (cases "syn_infer_batch vs b") (auto simp: syn_infer_batch_virtual_def syn_is_loaded_def)
qed

section \<open>Batches\<close>

lemma batch_tokens_compatible:
  "\<forall>v \<in> set vs. \<exists>r. v = Some r \<and> rq_model_id r = model \<Longrightarrow>
   batch_tokens model vs tokens = Some (tokens + sum_list (map (\<lambda>v. rq_max_output_tokens (the v)) vs))"
  by (induction model vs tokens rule: batch_tokens.induct) auto

lemma syn_infer_batch_length: "length (fst (syn_infer_batch vs b)) = length vs"
  by (auto simp: syn_infer_batch_def Let_def split: list.splits option.splits if_splits)

lemma syn_infer_batch_resident:
  assumes "vs \<noteq> []" "\<forall>v \<in> set vs. \<exists>r. v = Some r \<and> rq_model_id r = m"
    and "map_of (sb_models b) m = Some entry" "se_state entry = MS_Resident"
  shows "syn_infer_batch vs b =
    (map (\<lambda>v. syn_infer_one (sc_fail_infer (se_config entry)) (the v)) vs,
     b\<lparr>sb_metrics := count_batch (sc_prefill_latency (se_config entry) +
         sc_per_token_latency (se_config entry) * sum_list (map (\<lambda>v. rq_max_output_tokens (the v)) vs))
         (length vs) (sb_metrics b)\<rparr>)"
proof -
  obtain r vs' where vs: "vs = Some r # vs'" "rq_model_id r = m"
    using assms(1,2) by (cases vs) auto
  have "batch_tokens m vs 0 = Some (0 + sum_list (map (\<lambda>v. rq_max_output_tokens (the v)) vs))"
    by (rule batch_tokens_compatible [OF assms(2)])
  then show ?thesis using assms(3,4) vs by (simp add: syn_infer_batch_def Let_def del: batch_tokens.simps)
qed

lemma syn_infer_eq:
  "syn_infer r b = (hd (fst (syn_infer_batch [Some r] b)), snd (syn_infer_batch [Some r] b))"
  using syn_infer_batch_length [of "[Some r]" b] by (simp add: syn_infer_def case_prod_beta)

text \<open>
  Batch semantics of the synthetic backend. A batch always gets exactly one result per
  request, in order. If all its requests ask for the same resident model, the i-th result is
  the one for the i-th request, the same as from a single inference, and the cost charged is
  one prefill plus the per-token cost of all requested tokens.
\<close>

lemma synthetic_batch:
  assumes "syn_infer_batch vs b = (results, b')"
  shows "length results = length vs \<and>
    (\<forall>m entry. vs \<noteq> [] \<and> (\<forall>v \<in> set vs. \<exists>r. v = Some r \<and> rq_model_id r = m) \<and>
       map_of (sb_models b) m = Some entry \<and> se_state entry = MS_Resident \<longrightarrow>
       (\<forall>i < length vs. results ! i = fst (syn_infer (the (vs ! i)) b)) \<and>
       sm_last_simulated_batch_cost (sb_metrics b') =
         sc_prefill_latency (se_config entry) +
         sc_per_token_latency (se_config entry) * sum_list (map (\<lambda>v. rq_max_output_tokens (the v)) vs))"
proof (intro conjI allI impI)
  show "length results = length vs" using syn_infer_batch_length [of vs b] assms by simp
next
  fix m entry
  assume h: "vs \<noteq> [] \<and> (\<forall>v \<in> set vs. \<exists>r. v = Some r \<and> rq_model_id r = m) \<and>
       map_of (sb_models b) m = Some entry \<and> se_state entry = MS_Resident"
  then have r: "(results, b') = (map (\<lambda>v. syn_infer_one (sc_fail_infer (se_config entry)) (the v)) vs,
     b\<lparr>sb_metrics := count_batch (sc_prefill_latency (se_config entry) +
         sc_per_token_latency (se_config entry) * sum_list (map (\<lambda>v. rq_max_output_tokens (the v)) vs))
         (length vs) (sb_metrics b)\<rparr>)"
    using syn_infer_batch_resident [of vs m b entry] assms by simp
  then show "sm_last_simulated_batch_cost (sb_metrics b') =
         sc_prefill_latency (se_config entry) +
         sc_per_token_latency (se_config entry) * sum_list (map (\<lambda>v. rq_max_output_tokens (the v)) vs)"
    by (simp add: count_batch_def)
  fix i assume i: "i < length vs"
  then obtain q where q: "vs ! i = Some q" "rq_model_id q = m" using h nth_mem by blast
  then have "fst (syn_infer q b) = syn_infer_one (sc_fail_infer (se_config entry)) q"
    using syn_infer_batch_resident [of "[Some q]" m b entry] h by (simp add: syn_infer_eq)
  then show "results ! i = fst (syn_infer (the (vs ! i)) b)" using r i q by simp
qed

lemma synthetic_batch_witness:
  "let c = \<lparr>sc_load_latency = 9, sc_prefill_latency = 5, sc_per_token_latency = 2,
            sc_fail_load = False, sc_fail_infer = False\<rparr>;
       b = snd (syn_load \<lparr>ms_model_id = ''m'', ms_estimated_memory_bytes = 1, ms_estimated_load_cost = 1\<rparr>
             (syn_register ''m'' c syn_make));
       vs = [Some (new_request ''a'' ''m'' ''p'' 3), Some (new_request ''b'' ''m'' ''p'' 4)];
       (results, b') = syn_infer_batch vs b
   in length results = 2 \<and> results ! 1 = fst (syn_infer (new_request ''b'' ''m'' ''p'' 4) b) \<and>
      sm_last_simulated_batch_cost (sb_metrics b') = 19"
proof -
  let ?c = "\<lparr>sc_load_latency = 9, sc_prefill_latency = 5, sc_per_token_latency = 2,
            sc_fail_load = False, sc_fail_infer = False\<rparr>"
  let ?b = "snd (syn_load \<lparr>ms_model_id = ''m'', ms_estimated_memory_bytes = 1, ms_estimated_load_cost = 1\<rparr>
             (syn_register ''m'' ?c syn_make))"
  let ?vs = "[Some (new_request ''a'' ''m'' ''p'' 3), Some (new_request ''b'' ''m'' ''p'' 4)]"
  let ?r = "syn_infer_batch ?vs ?b"
  have run: "?r = (fst ?r, snd ?r)" by simp
  have entry: "map_of (sb_models ?b) ''m'' = Some \<lparr>se_config = ?c, se_state = MS_Resident\<rparr>"
    by (simp add: syn_load_def syn_register_def syn_make_def syn_set_state_def Let_def)
  have vs: "\<forall>v \<in> set ?vs. \<exists>r. v = Some r \<and> rq_model_id r = ''m''" by (simp add: new_request_def)
  from synthetic_batch [OF run] entry vs
  have len: "length (fst ?r) = 2"
    and res: "\<forall>i < 2. fst ?r ! i = fst (syn_infer (the (?vs ! i)) ?b)"
    and cost: "sm_last_simulated_batch_cost (sb_metrics (snd ?r)) = 5 + 2 * (3 + 4)"
    by (simp_all add: new_request_def)
  have "fst ?r ! 1 = fst (syn_infer (new_request ''b'' ''m'' ''p'' 4) ?b)" using spec [OF res, of 1] by simp
  then show ?thesis using len cost by (simp add: case_prod_beta)
qed

end
