(* ===== verification/AR_ModelManager.thy ===== *)
theory AR_ModelManager
  imports AR_Backend
begin

text \<open>
  The model manager (\<^verbatim>\<open>model_manager.hpp\<close>, \<^verbatim>\<open>model_manager.cpp\<close>): which models are
  resident on a worker, within its memory budget. It belongs to one worker and only the
  worker's thread calls \<^verbatim>\<open>ensure_resident\<close>, so the operations are functions on the pair of
  the manager and the state of the backend. The backend's \<^verbatim>\<open>load\<close> and \<^verbatim>\<open>unload\<close> are
  arguments; the properties are proved over the backend interface.
\<close>

section \<open>State\<close>

record ResidencyMetrics =
  rs_residency_hits :: u64
  rs_residency_misses :: u64
  rs_loads :: u64
  rs_unloads :: u64
  rs_evictions :: u64
  rs_reloads :: u64

record ModelEntry =
  mo_state :: ModelState
  mo_estimated_memory_bytes :: u64
  mo_last_used :: u64
  mo_use_count :: u64
  mo_previously_loaded :: bool

definition default_entry :: ModelEntry where
  "default_entry = \<lparr>mo_state = MS_Unloaded, mo_estimated_memory_bytes = 0, mo_last_used = 0,
     mo_use_count = 0, mo_previously_loaded = False\<rparr>"

record ModelManager =
  mm_registry :: ModelRegistry
  mm_resources :: ResourceManager
  mm_eviction_policy :: IEvictionPolicy
  mm_entries :: "(string \<times> ModelEntry) list"
  mm_touch_counter :: u64
  mm_metrics :: ResidencyMetrics

definition mm_make :: "ModelRegistry option \<Rightarrow> u64 \<Rightarrow> IEvictionPolicy option \<Rightarrow> ModelManager or_throw" where
  "mm_make registry budget policy =
     (case registry of
        None \<Rightarrow> Inl ''ModelManager requires a ModelRegistry''
      | Some reg \<Rightarrow>
          (case policy of
             None \<Rightarrow> Inl ''ModelManager requires an eviction policy''
           | Some p \<Rightarrow>
               Inr \<lparr>mm_registry = reg, mm_resources = rm_make budget, mm_eviction_policy = p,
                    mm_entries = [], mm_touch_counter = 0,
                    mm_metrics = \<lparr>rs_residency_hits = 0, rs_residency_misses = 0, rs_loads = 0,
                      rs_unloads = 0, rs_evictions = 0, rs_reloads = 0\<rparr>\<rparr>))"

definition memory_budget_bytes :: "ModelManager \<Rightarrow> u64" where
  "memory_budget_bytes m = rm_budget (mm_resources m)"

definition memory_used_bytes :: "ModelManager \<Rightarrow> u64" where
  "memory_used_bytes m = rm_used (mm_resources m)"

definition model_state :: "string \<Rightarrow> ModelManager \<Rightarrow> ModelState" where
  "model_state mid m = (case map_of (mm_entries m) mid of None \<Rightarrow> MS_Unloaded | Some e \<Rightarrow> mo_state e)"

definition resident_model_ids :: "ModelManager \<Rightarrow> string list" where
  "resident_model_ids m =
     sort_by (<) (map fst (filter (\<lambda>(_, e). mo_state e = MS_Resident) (mm_entries m)))"

definition use_count :: "string \<Rightarrow> ModelManager \<Rightarrow> u64" where
  "use_count mid m = (case map_of (mm_entries m) mid of None \<Rightarrow> 0 | Some e \<Rightarrow> mo_use_count e)"

section \<open>Operations\<close>

definition set_entry :: "string \<Rightarrow> ModelEntry \<Rightarrow> ModelManager \<Rightarrow> ModelManager" where
  "set_entry mid e m = m\<lparr>mm_entries := AList.update mid e (mm_entries m)\<rparr>"

definition evict_one ::
  "(string \<Rightarrow> 'b \<Rightarrow> Status \<times> 'b) \<Rightarrow> EvictionCandidate \<Rightarrow> ModelManager \<times> 'b \<Rightarrow>
     Status \<times> ModelManager \<times> 'b" where
  "evict_one unload victim mb =
     (case mb of (m, b) \<Rightarrow>
      let mid = ec_model_id victim in
      case map_of (mm_entries m) mid of
        None \<Rightarrow> (status_error EC_InternalError ''eviction candidate not resident'', m, b)
      | Some e \<Rightarrow>
          if mo_state e \<noteq> MS_Resident
          then (status_error EC_InternalError ''eviction candidate not resident'', m, b)
          else
            (let m1 = set_entry mid (e\<lparr>mo_state := MS_Evicting\<rparr>) m in
             case unload mid b of (unload_status, b1) \<Rightarrow>
             case map_of (mm_entries m1) mid of
               None \<Rightarrow> (status_error EC_InternalError ''missing entry after eviction'', m1, b1)
             | Some e1 \<Rightarrow>
                 if \<not> status_ok unload_status
                 then (unload_status, set_entry mid (e1\<lparr>mo_state := MS_Resident\<rparr>) m1, b1)
                 else
                   (let m2 = set_entry mid (e1\<lparr>mo_state := MS_Unloaded\<rparr>) m1 in
                    case release (ec_estimated_memory_bytes victim) (mm_resources m2) of
                      (release_status, res) \<Rightarrow>
                        if \<not> status_ok release_status
                        then (release_status, m2\<lparr>mm_resources := res\<rparr>, b1)
                        else (status_success,
                              m2\<lparr>mm_resources := res,
                                 mm_metrics := (mm_metrics m2)
                                   \<lparr>rs_unloads := rs_unloads (mm_metrics m2) + 1,
                                    rs_evictions := rs_evictions (mm_metrics m2) + 1\<rparr>\<rparr>, b1))))"

text \<open>The candidates collected under the lock (lines 101 to 121).\<close>

definition eviction_candidate :: "ModelRegistry \<Rightarrow> string \<Rightarrow> ModelEntry \<Rightarrow> EvictionCandidate" where
  "eviction_candidate reg mid e =
     \<lparr>ec_model_id = mid, ec_estimated_memory_bytes = mo_estimated_memory_bytes e,
      ec_last_used = mo_last_used e,
      ec_estimated_load_cost =
        (case map_of reg mid of None \<Rightarrow> 1 | Some spec \<Rightarrow> ms_estimated_load_cost spec),
      ec_use_count = mo_use_count e\<rparr>"

definition eviction_candidates :: "ModelManager \<Rightarrow> EvictionCandidate list" where
  "eviction_candidates m =
     map (\<lambda>(mid, e). eviction_candidate (mm_registry m) mid e)
       (filter (\<lambda>(_, e). mo_state e = MS_Resident) (mm_entries m))"

definition resident_count :: "ModelManager \<Rightarrow> nat" where
  "resident_count m = length (filter (\<lambda>(_, e). mo_state e = MS_Resident) (mm_entries m))"

lemma resident_count_update:
  "map_of es mid = Some e \<Longrightarrow> mo_state e = MS_Resident \<Longrightarrow> mo_state e' \<noteq> MS_Resident \<Longrightarrow>
   Suc (length (filter (\<lambda>(_, e). mo_state e = MS_Resident) (AList.update mid e' es))) =
     length (filter (\<lambda>(_, e). mo_state e = MS_Resident) es)"
  by (induction es) auto

lemma update_twice: "AList.update k v (AList.update k v' es) = AList.update k v es"
  by (induction es) auto

lemma update_same: "map_of es k = Some v \<Longrightarrow> AList.update k v es = es"
  by (induction es) auto

lemma evict_one_shrinks:
  assumes "evict_one unload victim (m, b) = (st, m', b')" "status_ok st"
  shows "resident_count m' < resident_count m"
proof -
  let ?mid = "ec_model_id victim"
  obtain e where e: "map_of (mm_entries m) ?mid = Some e" "mo_state e = MS_Resident"
    using assms by (auto simp: evict_one_def Let_def split: option.splits if_splits)
  then have "mm_entries m' = AList.update ?mid (e\<lparr>mo_state := MS_Unloaded\<rparr>) (mm_entries m)"
    using assms
    by (auto simp: evict_one_def Let_def set_entry_def update_twice update_conv'
        split: prod.splits if_splits)
  then show ?thesis
    using resident_count_update [OF e, of "e\<lparr>mo_state := MS_Unloaded\<rparr>"] by (simp add: resident_count_def)
qed

function free_memory_for ::
  "(string \<Rightarrow> 'b \<Rightarrow> Status \<times> 'b) \<Rightarrow> u64 \<Rightarrow> ModelManager \<times> 'b \<Rightarrow> Status \<times> ModelManager \<times> 'b" where
  "free_memory_for unload needed_bytes (m, b) =
     (if can_reserve needed_bytes (mm_resources m) then (status_success, m, b)
      else
        (let candidates = eviction_candidates m in
         if candidates = []
         then (status_error EC_InsufficientMemory ''no eviction candidates'', m, b)
         else
           (case order_victims (mm_eviction_policy m) candidates of
              [] \<Rightarrow> (status_error EC_InsufficientMemory ''eviction policy returned no victims'', m, b)
            | victim # _ \<Rightarrow>
                (case evict_one unload victim (m, b) of (status, m1, b1) \<Rightarrow>
                   if \<not> status_ok status then (status, m1, b1)
                   else free_memory_for unload needed_bytes (m1, b1)))))"
  by pat_completeness auto
termination
  by (relation "measure (\<lambda>(unload, n, (m, b)). resident_count m)") (auto dest: evict_one_shrinks [OF sym])

declare free_memory_for.simps [simp del]

text \<open>A hit (lines 147 to 152) only touches the entry.\<close>

definition touch_entry :: "string \<Rightarrow> ModelEntry \<Rightarrow> ModelManager \<Rightarrow> ModelManager" where
  "touch_entry mid e m =
     (let touch = mm_touch_counter m + 1 in
      (set_entry mid (e\<lparr>mo_last_used := touch, mo_use_count := mo_use_count e + 1\<rparr>) m)
        \<lparr>mm_touch_counter := touch,
         mm_metrics := (mm_metrics m)\<lparr>rs_residency_hits := rs_residency_hits (mm_metrics m) + 1\<rparr>\<rparr>)"

text \<open>The end of a successful load (lines 195 to 203).\<close>

definition loaded_entry :: "string \<Rightarrow> ModelEntry \<Rightarrow> bool \<Rightarrow> ModelManager \<Rightarrow> ModelManager" where
  "loaded_entry mid e previously_loaded m =
     (let touch = mm_touch_counter m + 1;
          ms = (mm_metrics m)\<lparr>rs_loads := rs_loads (mm_metrics m) + 1\<rparr>
      in (set_entry mid (e\<lparr>mo_state := MS_Resident, mo_last_used := touch,
             mo_previously_loaded := True, mo_use_count := mo_use_count e + 1\<rparr>) m)
           \<lparr>mm_touch_counter := touch,
            mm_metrics := (if previously_loaded then ms\<lparr>rs_reloads := rs_reloads ms + 1\<rparr> else ms)\<rparr>)"

text \<open>Reserving the memory and loading (lines 172 to 203).\<close>

definition load_model ::
  "(ModelSpec \<Rightarrow> 'b \<Rightarrow> Status \<times> 'b) \<Rightarrow> string \<Rightarrow> ModelSpec \<Rightarrow> ModelManager \<times> 'b \<Rightarrow>
     Status \<times> ModelManager \<times> 'b" where
  "load_model load mid spec mb =
     (case mb of (m, b) \<Rightarrow>
      let entry = (case map_of (mm_entries m) mid of None \<Rightarrow> default_entry | Some e \<Rightarrow> e);
          m1 = set_entry mid entry m
      in case reserve (ms_estimated_memory_bytes spec) (mm_resources m1) of (reserve_status, res) \<Rightarrow>
           if \<not> status_ok reserve_status then (reserve_status, m1\<lparr>mm_resources := res\<rparr>, b)
           else
             (let entry1 = entry\<lparr>mo_state := MS_Loading,
                             mo_estimated_memory_bytes := ms_estimated_memory_bytes spec\<rparr>;
                  m2 = (set_entry mid entry1 m1)\<lparr>mm_resources := res\<rparr>
              in case load spec b of (load_status, b1) \<Rightarrow>
                   if \<not> status_ok load_status
                   then (load_status,
                         (set_entry mid (entry1\<lparr>mo_state := MS_Failed\<rparr>) m2)
                           \<lparr>mm_resources := snd (release (ms_estimated_memory_bytes spec) (mm_resources m2))\<rparr>,
                         b1)
                   else (status_success,
                         loaded_entry mid entry1 (mo_previously_loaded entry) m2, b1)))"

text \<open>A miss (lines 153 to 170).\<close>

definition ensure_missing ::
  "(ModelSpec \<Rightarrow> 'b \<Rightarrow> Status \<times> 'b) \<Rightarrow> (string \<Rightarrow> 'b \<Rightarrow> Status \<times> 'b) \<Rightarrow> string \<Rightarrow>
     ModelManager \<times> 'b \<Rightarrow> Status \<times> ModelManager \<times> 'b" where
  "ensure_missing load unload mid mb =
     (case mb of (m0, b) \<Rightarrow>
      let m = m0\<lparr>mm_metrics := (mm_metrics m0)
                   \<lparr>rs_residency_misses := rs_residency_misses (mm_metrics m0) + 1\<rparr>\<rparr>
      in case map_of (mm_registry m) mid of
           None \<Rightarrow> (status_error EC_ModelNotFound ''model not found in registry'', m, b)
         | Some spec \<Rightarrow>
             if ms_estimated_memory_bytes spec > rm_budget (mm_resources m)
             then (status_error EC_InsufficientMemory ''model larger than worker memory budget'', m, b)
             else
               (case free_memory_for unload (ms_estimated_memory_bytes spec) (m, b) of
                  (free_status, m1, b1) \<Rightarrow>
                    if \<not> status_ok free_status then (free_status, m1, b1)
                    else load_model load mid spec (m1, b1)))"

definition ensure_resident ::
  "(ModelSpec \<Rightarrow> 'b \<Rightarrow> Status \<times> 'b) \<Rightarrow> (string \<Rightarrow> 'b \<Rightarrow> Status \<times> 'b) \<Rightarrow> string \<Rightarrow>
     ModelManager \<times> 'b \<Rightarrow> Status \<times> ModelManager \<times> 'b" where
  "ensure_resident load unload mid mb =
     (case mb of (m, b) \<Rightarrow>
      case map_of (mm_entries m) mid of
        Some e \<Rightarrow>
          if mo_state e = MS_Resident then (status_success, touch_entry mid e m, b)
          else ensure_missing load unload mid (m, b)
      | None \<Rightarrow> ensure_missing load unload mid (m, b))"

section \<open>Memory accounting\<close>

definition reserved :: "ModelEntry \<Rightarrow> nat" where
  "reserved e =
     (if mo_state e \<in> {MS_Resident, MS_Loading, MS_Evicting} then unat (mo_estimated_memory_bytes e) else 0)"

definition reserved_sum :: "(string \<times> ModelEntry) list \<Rightarrow> nat" where
  "reserved_sum es = sum_list (map (reserved \<circ> snd) es)"

lemma reserved_sum_update:
  "reserved_sum (AList.update mid e' es) + (case map_of es mid of None \<Rightarrow> 0 | Some e \<Rightarrow> reserved e) =
   reserved_sum es + reserved e'"
  by (induction es) (auto simp: reserved_sum_def)

definition entry_ok :: "ModelRegistry \<Rightarrow> string \<Rightarrow> ModelEntry \<Rightarrow> bool" where
  "entry_ok reg mid e \<longleftrightarrow>
     mo_state e \<in> {MS_Unloaded, MS_Resident, MS_Failed} \<and>
     (mo_state e = MS_Resident \<longrightarrow>
        (\<exists>spec. map_of reg mid = Some spec \<and> mo_estimated_memory_bytes e = ms_estimated_memory_bytes spec))"

text \<open>
  Between two calls: the memory in use is the sum over the resident models and within the
  budget, no entry is left in a transient state, and the metrics agree with the entries.
\<close>

definition mm_inv :: "ModelManager \<Rightarrow> bool" where
  "mm_inv m \<longleftrightarrow>
     registry_inv (mm_registry m) \<and> distinct (map fst (mm_entries m)) \<and> rm_inv (mm_resources m) \<and>
     unat (rm_used (mm_resources m)) = reserved_sum (mm_entries m) \<and>
     (\<forall>mid e. map_of (mm_entries m) mid = Some e \<longrightarrow> entry_ok (mm_registry m) mid e) \<and>
     rs_evictions (mm_metrics m) = rs_unloads (mm_metrics m) \<and>
     of_nat (resident_count m) = rs_loads (mm_metrics m) - rs_unloads (mm_metrics m)"

lemma mm_make_inv [inv_rules]:
  "mm_make (Some reg) budget p = Inr m \<Longrightarrow> registry_inv reg \<Longrightarrow> mm_inv m"
  by (auto simp: mm_make_def mm_inv_def rm_make_inv reserved_sum_def rm_make_def rm_inv_def
      resident_count_def split: option.splits)

lemma mm_inv_entry: "mm_inv m \<Longrightarrow> map_of (mm_entries m) mid = Some e \<Longrightarrow> entry_ok (mm_registry m) mid e"
  by (simp add: mm_inv_def)

lemma mm_inv_member:
  assumes "mm_inv m" "(mid, e) \<in> set (mm_entries m)"
  shows "entry_ok (mm_registry m) mid e"
  using assms by (intro mm_inv_entry) (simp_all add: mm_inv_def)

definition resident :: "string \<Rightarrow> ModelManager \<Rightarrow> bool" where
  "resident mid m \<longleftrightarrow> model_state mid m = MS_Resident"

lemma resident_iff:
  "resident mid m \<longleftrightarrow> (\<exists>e. map_of (mm_entries m) mid = Some e \<and> mo_state e = MS_Resident)"
  by (auto simp: resident_def model_state_def split: option.splits)

definition mm_static :: "ModelManager \<Rightarrow> ModelManager \<Rightarrow> bool" where
  "mm_static m m' \<longleftrightarrow>
     mm_registry m' = mm_registry m \<and> mm_eviction_policy m' = mm_eviction_policy m \<and>
     rm_budget (mm_resources m') = rm_budget (mm_resources m)"

lemma mm_static_refl [simp]: "mm_static m m"
  by (simp add: mm_static_def)

lemma mm_static_trans: "mm_static a b \<Longrightarrow> mm_static b c \<Longrightarrow> mm_static a c"
  by (simp add: mm_static_def)

lemma candidate_entry:
  assumes "mm_inv m" "c \<in> set (eviction_candidates m)"
  shows "\<exists>e. map_of (mm_entries m) (ec_model_id c) = Some e \<and> mo_state e = MS_Resident \<and>
    ec_estimated_memory_bytes c = mo_estimated_memory_bytes e"
  using assms by (auto simp: eviction_candidates_def eviction_candidate_def mm_inv_def)

lemma reserved_le: "map_of es mid = Some e \<Longrightarrow> reserved e \<le> reserved_sum es"
  by (induction es) (auto simp: reserved_sum_def split: if_splits)

text \<open>Evicting a candidate: it is gone, or the backend refused and nothing has changed.\<close>

lemma evict_one_spec:
  assumes inv: "mm_inv m" and c: "victim \<in> set (eviction_candidates m)"
    and ev: "evict_one unload victim (m, b) = (st, m', b')"
    and un: "unload (ec_model_id victim) b = (ust, b1)"
  shows "b' = b1 \<and> st = (if status_ok ust then status_success else ust) \<and> mm_static m m' \<and> mm_inv m' \<and>
    (status_ok st \<longrightarrow> (\<forall>mid. resident mid m' \<longleftrightarrow> mid \<noteq> ec_model_id victim \<and> resident mid m)) \<and>
    (\<not> status_ok st \<longrightarrow> m' = m)"
proof -
  let ?id = "ec_model_id victim"
  obtain e where e: "map_of (mm_entries m) ?id = Some e" "mo_state e = MS_Resident"
    and mem: "ec_estimated_memory_bytes victim = mo_estimated_memory_bytes e"
    using candidate_entry [OF inv c] by blast
  show ?thesis
  proof (cases "status_ok ust")
    case False
    have same: "e\<lparr>mo_state := MS_Resident\<rparr> = e" using e(2) by simp
    have "m' = m" "b' = b1" "st = ust"
      using ev un e False
      by (auto simp: evict_one_def Let_def set_entry_def update_conv' update_twice same update_same)
    then show ?thesis using False inv by simp
  next
    case True
    let ?e = "e\<lparr>mo_state := MS_Unloaded\<rparr>"
    let ?es = "AList.update ?id ?e (mm_entries m)"
    have res: "reserved e = unat (mo_estimated_memory_bytes e)" using e(2) by (simp add: reserved_def)
    have used: "unat (rm_used (mm_resources m)) = reserved_sum (mm_entries m)" "rm_inv (mm_resources m)"
      using inv by (simp_all add: mm_inv_def)
    obtain rst rm where rel: "release (mo_estimated_memory_bytes e) (mm_resources m) = (rst, rm)" by fastforce
    note r = release_spec [OF used(2) rel]
    have ok: "status_ok rst" using r reserved_le [OF e(1)] res used(1) by simp
    have m': "m' = m\<lparr>mm_entries := ?es, mm_resources := rm,
        mm_metrics := (mm_metrics m)\<lparr>rs_unloads := rs_unloads (mm_metrics m) + 1,
                                     rs_evictions := rs_evictions (mm_metrics m) + 1\<rparr>\<rparr>"
      and st: "b' = b1" "st = status_success"
      using ev un e True mem rel ok
      by (auto simp: evict_one_def Let_def set_entry_def update_conv' update_twice)
    have "reserved_sum ?es + reserved e = reserved_sum (mm_entries m)"
      using reserved_sum_update [of ?id ?e "mm_entries m"] e(1) by (simp add: reserved_def)
    then have "unat (rm_used rm) = reserved_sum ?es" using r ok res used(1) by simp
    moreover have "\<forall>mid e'. map_of ?es mid = Some e' \<longrightarrow> entry_ok (mm_registry m) mid e'"
      using inv by (auto simp: update_conv' mm_inv_def entry_ok_def)
    moreover have "distinct (map fst ?es)" using inv by (simp add: mm_inv_def distinct_update)
    moreover have "resident_count m = Suc (resident_count m')"
      using resident_count_update [OF e, of ?e] m' by (simp add: resident_count_def)
    then have "of_nat (resident_count m') = rs_loads (mm_metrics m) - (rs_unloads (mm_metrics m) + 1)"
      using inv by (simp add: mm_inv_def algebra_simps)
    ultimately have "mm_inv m'" using m' r inv by (simp add: mm_inv_def)
    moreover have "resident mid m' \<longleftrightarrow> mid \<noteq> ?id \<and> resident mid m" for mid
      using m' by (auto simp: resident_iff update_conv')
    ultimately show ?thesis using m' st True r by (simp add: mm_static_def)
  qed
qed

lemma no_candidates_no_memory:
  assumes "mm_inv m" "eviction_candidates m = []"
  shows "rm_used (mm_resources m) = 0"
proof -
  have "reserved e = 0" if "(mid, e) \<in> set (mm_entries m)" for mid e
  proof -
    have "entry_ok (mm_registry m) mid e" by (rule mm_inv_member [OF assms(1) that])
    moreover have "mo_state e \<noteq> MS_Resident"
      using assms(2) that by (auto simp: eviction_candidates_def filter_empty_conv)
    ultimately show ?thesis by (auto simp: entry_ok_def reserved_def)
  qed
  then have "reserved_sum (mm_entries m) = 0" by (auto simp: reserved_sum_def)
  then show ?thesis using assms(1) by (simp add: mm_inv_def unat_eq_0)
qed

section \<open>Residency\<close>

text \<open>The manager and the backend agree on what is loaded.\<close>

definition coherent :: "(string \<Rightarrow> 'b \<Rightarrow> bool) \<Rightarrow> ModelManager \<Rightarrow> 'b \<Rightarrow> bool" where
  "coherent is_loaded m b \<longleftrightarrow> (\<forall>mid. is_loaded mid b \<longleftrightarrow> resident mid m)"

lemma resident_count_new:
  "(\<forall>e. map_of es mid = Some e \<longrightarrow> mo_state e \<noteq> MS_Resident) \<Longrightarrow> mo_state e' = MS_Resident \<Longrightarrow>
   length (filter (\<lambda>(_, e). mo_state e = MS_Resident) (AList.update mid e' es)) =
     Suc (length (filter (\<lambda>(_, e). mo_state e = MS_Resident) es))"
  by (induction es) auto

lemma resident_count_same:
  "(case map_of es mid of None \<Rightarrow> False | Some e \<Rightarrow> mo_state e = MS_Resident) = (mo_state e' = MS_Resident) \<Longrightarrow>
   length (filter (\<lambda>(_, e). mo_state e = MS_Resident) (AList.update mid e' es)) =
     length (filter (\<lambda>(_, e). mo_state e = MS_Resident) es)"
  by (induction es) (auto split: if_splits)

lemma touch_entry_spec:
  assumes inv: "mm_inv m" and e: "map_of (mm_entries m) mid = Some e" "mo_state e = MS_Resident"
  shows "mm_inv (touch_entry mid e m) \<and> mm_static m (touch_entry mid e m) \<and>
    (\<forall>k. resident k (touch_entry mid e m) = resident k m)"
proof -
  let ?e = "e\<lparr>mo_last_used := mm_touch_counter m + 1, mo_use_count := mo_use_count e + 1\<rparr>"
  have "reserved_sum (AList.update mid ?e (mm_entries m)) = reserved_sum (mm_entries m)"
    using reserved_sum_update [of mid ?e "mm_entries m"] e by (simp add: reserved_def)
  moreover have "length (filter (\<lambda>(_, e). mo_state e = MS_Resident) (AList.update mid ?e (mm_entries m))) =
      length (filter (\<lambda>(_, e). mo_state e = MS_Resident) (mm_entries m))"
    using e by (intro resident_count_same) simp
  moreover have "entry_ok (mm_registry m) mid ?e"
    using inv e by (auto simp: mm_inv_def entry_ok_def)
  ultimately show ?thesis using inv e
    by (auto simp: touch_entry_def Let_def mm_inv_def set_entry_def update_conv' distinct_update
        mm_static_def resident_iff resident_count_def)
qed

text \<open>Loading a model that is not resident, once there is room for it.\<close>

lemma load_model_spec:
  assumes inv: "mm_inv m" and spec: "map_of (mm_registry m) mid = Some spec"
    and room: "can_reserve (ms_estimated_memory_bytes spec) (mm_resources m)"
    and miss: "\<not> resident mid m" and l: "load spec b = (lst, b1)"
    and run: "load_model load mid spec (m, b) = (st, m', b')"
  shows "b' = b1 \<and> st = (if status_ok lst then status_success else lst) \<and> mm_static m m' \<and> mm_inv m' \<and>
    (\<forall>k. resident k m' \<longleftrightarrow> (if k = mid then status_ok lst else resident k m))"
proof -
  let ?n = "ms_estimated_memory_bytes spec"
  define entry where "entry = (case map_of (mm_entries m) mid of None \<Rightarrow> default_entry | Some e \<Rightarrow> e)"
  have used: "unat (rm_used (mm_resources m)) = reserved_sum (mm_entries m)" and rinv: "rm_inv (mm_resources m)"
    using inv by (simp_all add: mm_inv_def)
  obtain rst rm where rs: "reserve ?n (mm_resources m) = (rst, rm)" by fastforce
  note r = reserve_spec [OF rinv rs]
  have ok: "status_ok rst" using r room by simp
  obtain xst rm2 where rl: "release ?n rm = (xst, rm2)" by fastforce
  have "rm_inv rm" using r by blast
  note r2 = release_spec [OF this rl]
  have old: "\<forall>e. map_of (mm_entries m) mid = Some e \<longrightarrow> mo_state e \<notin> {MS_Resident, MS_Loading, MS_Evicting}"
    using miss mm_inv_entry [OF inv, of mid] by (auto simp: resident_iff entry_ok_def)
  have upd: "reserved_sum (AList.update mid e' (mm_entries m)) = reserved_sum (mm_entries m) + reserved e'" for e'
    using reserved_sum_update [of mid e' "mm_entries m"] old by (auto simp: reserved_def split: option.splits)
  show ?thesis
  proof (cases "status_ok lst")
    case False
    let ?e = "entry\<lparr>mo_estimated_memory_bytes := ?n, mo_state := MS_Failed\<rparr>"
    have m': "m' = m\<lparr>mm_entries := AList.update mid ?e (mm_entries m), mm_resources := rm2\<rparr>"
      and st: "st = lst" "b' = b1"
      using run rs ok l False rl
      by (auto simp: load_model_def Let_def set_entry_def update_twice entry_def split: option.splits)
    have "reserved ?e = 0" by (simp add: reserved_def)
    moreover have "length (filter (\<lambda>(_, e). mo_state e = MS_Resident) (AList.update mid ?e (mm_entries m))) =
        length (filter (\<lambda>(_, e). mo_state e = MS_Resident) (mm_entries m))"
      using old by (intro resident_count_same) (auto split: option.splits)
    moreover have "entry_ok (mm_registry m) mid ?e" by (simp add: entry_ok_def)
    ultimately show ?thesis using m' st inv False r r2 ok used upd [of ?e]
      by (auto simp: mm_inv_def update_conv' distinct_update mm_static_def resident_iff resident_count_def)
  next
    case True
    let ?e = "entry\<lparr>mo_estimated_memory_bytes := ?n, mo_state := MS_Resident,
      mo_last_used := mm_touch_counter m + 1, mo_previously_loaded := True, mo_use_count := mo_use_count entry + 1\<rparr>"
    let ?ms = "(mm_metrics m)\<lparr>rs_loads := rs_loads (mm_metrics m) + 1\<rparr>"
    have m': "m' = m\<lparr>mm_entries := AList.update mid ?e (mm_entries m), mm_resources := rm,
        mm_touch_counter := mm_touch_counter m + 1,
        mm_metrics := (if mo_previously_loaded entry then ?ms\<lparr>rs_reloads := rs_reloads ?ms + 1\<rparr> else ?ms)\<rparr>"
      and st: "st = status_success" "b' = b1"
      using run rs ok l True
      by (auto simp: load_model_def loaded_entry_def Let_def set_entry_def update_twice entry_def split: option.splits)
    have "reserved ?e = unat ?n" by (simp add: reserved_def)
    moreover have "length (filter (\<lambda>(_, e). mo_state e = MS_Resident) (AList.update mid ?e (mm_entries m))) =
        Suc (length (filter (\<lambda>(_, e). mo_state e = MS_Resident) (mm_entries m)))"
      using old by (intro resident_count_new) auto
    moreover have "entry_ok (mm_registry m) mid ?e" using spec by (simp add: entry_ok_def)
    ultimately show ?thesis using m' st inv True r ok used upd [of ?e]
      by (auto simp: mm_inv_def update_conv' distinct_update mm_static_def resident_iff resident_count_def algebra_simps)
  qed
qed

definition mm_fits :: "u64 \<Rightarrow> ModelManager \<Rightarrow> bool" where
  "mm_fits n m \<longleftrightarrow> n \<le> rm_budget (mm_resources m)"

lemma order_victims_member: "order_victims p cs = v # vs \<Longrightarrow> v \<in> set cs"
  by (metis list.set_intros(1) mset_eq_setD mset_order_victims)

text \<open>The backend after some models have been unloaded.\<close>

definition after_unloads :: "(string \<Rightarrow> 'b \<Rightarrow> Status \<times> 'b) \<Rightarrow> string list \<Rightarrow> 'b \<Rightarrow> 'b" where
  "after_unloads unload ks b = fold (\<lambda>k b. snd (unload k b)) ks b"

lemma after_unloads_simps [simp]:
  "after_unloads unload [] b = b"
  "after_unloads unload (k # ks) b = after_unloads unload ks (snd (unload k b))"
  by (simp_all add: after_unloads_def)

context model_backend
begin

abbreviation mm_good :: "ModelManager \<Rightarrow> 'b \<Rightarrow> bool" where
  "mm_good m b \<equiv> mm_inv m \<and> coherent is_loaded m b"

text \<open>While memory is short for something that fits into the budget, there is a model to evict.\<close>

lemma victim_exists:
  assumes "mm_inv m" "\<not> can_reserve n (mm_resources m)" "mm_fits n m"
  obtains v vs where "order_victims (mm_eviction_policy m) (eviction_candidates m) = v # vs"
    "v \<in> set (eviction_candidates m)"
proof -
  have "eviction_candidates m \<noteq> []"
  proof
    assume "eviction_candidates m = []"
    then have "rm_used (mm_resources m) = 0" using no_candidates_no_memory assms(1) by blast
    then show False using assms(2,3) by (simp add: can_reserve_def mm_fits_def)
  qed
  then obtain v vs where "order_victims (mm_eviction_policy m) (eviction_candidates m) = v # vs"
    by (metis order_victims_Nil list.exhaust)
  then show thesis using that order_victims_member by blast
qed

text \<open>
  Making room: it succeeds unless the backend refuses to unload a loaded model, and only
  evicts.
\<close>

lemma free_memory_spec:
  "free_memory_for unload n (m, b) = (st, m', b') \<Longrightarrow> mm_good m b \<Longrightarrow> mm_fits n m \<Longrightarrow>
   mm_good m' b' \<and> mm_static m m' \<and> (\<forall>mid. resident mid m' \<longrightarrow> resident mid m) \<and>
   (status_ok st \<longrightarrow> can_reserve n (mm_resources m')) \<and>
   (\<exists>ks. if status_ok st then b' = after_unloads unload ks b
     else (\<exists>k. is_loaded k (after_unloads unload ks b) \<and> fst (unload k (after_unloads unload ks b)) = st))"
proof (induction "resident_count m" arbitrary: m b rule: less_induct)
  case less
  have inv: "mm_inv m" and coh: "coherent is_loaded m b" using less.prems(2) by simp_all
  show ?case
  proof (cases "can_reserve n (mm_resources m)")
    case True
    then show ?thesis using less.prems by (auto simp: free_memory_for.simps intro: exI [of _ "[]"])
  next
    case full: False
    obtain v vs where v: "order_victims (mm_eviction_policy m) (eviction_candidates m) = v # vs"
      and c: "v \<in> set (eviction_candidates m)" by (rule victim_exists [OF inv full less.prems(3)])
    obtain st1 m1 b1 where ev: "evict_one unload v (m, b) = (st1, m1, b1)" by (metis prod_cases3)
    obtain ust bu where un: "unload (ec_model_id v) b = (ust, bu)" by fastforce
    note spec = evict_one_spec [OF inv c ev un]
    have res: "resident (ec_model_id v) m" using candidate_entry [OF inv c] by (auto simp: resident_iff)
    have ne: "eviction_candidates m \<noteq> []" using c by auto
    show ?thesis
    proof (cases "status_ok st1")
      case False
      then have same: "st = st1 \<and> m' = m1 \<and> b' = b1 \<and> m1 = m \<and> b1 = bu \<and> st1 = ust"
        using less.prems(1) full v ev ne spec
        by (auto simp: free_memory_for.simps Let_def split: if_splits)
      have "coherent is_loaded m bu"
        using coh unload_loaded [OF un] False same by (simp add: coherent_def)
      moreover have "is_loaded (ec_model_id v) b" using coh res by (simp add: coherent_def)
      ultimately show ?thesis using same inv un False by (auto intro!: exI [of _ "[]"] exI [of _ "ec_model_id v"])
    next
      case True
      have run: "free_memory_for unload n (m1, b1) = (st, m', b')"
        using less.prems(1) full v ev ne True
        by (simp add: free_memory_for.simps [of unload n m b] Let_def)
      have ust: "status_ok ust" using spec True by (auto split: if_splits)
      have "coherent is_loaded m1 b1"
        using coh unload_loaded [OF un] spec True ust by (simp add: coherent_def)
      then have good: "mm_good m1 b1" using spec by blast
      have fits: "mm_fits n m1" using less.prems(3) spec by (simp add: mm_fits_def mm_static_def)
      note IH = less.hyps [OF evict_one_shrinks [OF ev True] run good fits]
      obtain ks where ks: "if status_ok st then b' = after_unloads unload ks b1
          else (\<exists>k. is_loaded k (after_unloads unload ks b1) \<and> fst (unload k (after_unloads unload ks b1)) = st)"
        using IH by blast
      have "after_unloads unload (ec_model_id v # ks) b = after_unloads unload ks b1" using un spec by simp
      then have "\<exists>ks. if status_ok st then b' = after_unloads unload ks b
          else (\<exists>k. is_loaded k (after_unloads unload ks b) \<and> fst (unload k (after_unloads unload ks b)) = st)"
        using ks by metis
      then show ?thesis using IH spec True mm_static_trans by blast
    qed
  qed
qed

lemma load_freed:
  assumes good: "mm_good m b" and reg: "map_of (mm_registry m) mid = Some spec"
    and room: "can_reserve (ms_estimated_memory_bytes spec) (mm_resources m)" and miss: "\<not> resident mid m"
    and run: "load_model load mid spec (m, b) = (st, m', b')"
  shows "mm_good m' b' \<and> mm_static m m' \<and> (status_ok st \<longleftrightarrow> resident mid m') \<and>
    (\<not> status_ok st \<longrightarrow> fst (load spec b) = st)"
proof -
  obtain lst b2 where l: "load spec b = (lst, b2)" by fastforce
  have inv: "mm_inv m" using good by simp
  note ls = load_model_spec [OF inv reg room miss l run]
  have mid: "ms_model_id spec = mid" using inv map_of_SomeD [OF reg] by (auto simp: mm_inv_def registry_inv_def)
  then have "\<not> is_loaded (ms_model_id spec) b" using good miss by (simp add: coherent_def)
  then have "coherent is_loaded m' b'" using good load_loaded [OF l] ls mid by (simp add: coherent_def)
  then show ?thesis using ls l by (auto split: if_splits)
qed

lemma ensure_missing_spec:
  assumes run: "ensure_missing load unload mid (m, b) = (st, m', b')" and good: "mm_good m b"
    and miss: "\<not> resident mid m"
  shows "mm_good m' b' \<and> mm_static m m' \<and> (status_ok st \<longleftrightarrow> resident mid m') \<and>
    (\<not> status_ok st \<longrightarrow>
       (map_of (mm_registry m) mid = None \<and> st_code st = EC_ModelNotFound) \<or>
       (\<exists>spec. map_of (mm_registry m) mid = Some spec \<and> \<not> mm_fits (ms_estimated_memory_bytes spec) m \<and>
          st_code st = EC_InsufficientMemory) \<or>
       (\<exists>ks k. is_loaded k (after_unloads unload ks b) \<and> fst (unload k (after_unloads unload ks b)) = st) \<or>
       (\<exists>spec ks. map_of (mm_registry m) mid = Some spec \<and> mm_fits (ms_estimated_memory_bytes spec) m \<and>
          fst (load spec (after_unloads unload ks b)) = st))"
proof -
  let ?m = "m\<lparr>mm_metrics := (mm_metrics m)\<lparr>rs_residency_misses := rs_residency_misses (mm_metrics m) + 1\<rparr>\<rparr>"
  have rc: "resident_count ?m = resident_count m" and rs: "resident k ?m = resident k m" for k
    by (simp_all add: resident_count_def resident_iff)
  have good1: "mm_good ?m b" using good rc rs by (simp add: mm_inv_def coherent_def)
  have static: "mm_static m ?m" by (simp add: mm_static_def)
  consider (unknown) "map_of (mm_registry m) mid = None"
    | (large) spec where "map_of (mm_registry m) mid = Some spec" "\<not> mm_fits (ms_estimated_memory_bytes spec) m"
    | (fits) spec where "map_of (mm_registry m) mid = Some spec" "mm_fits (ms_estimated_memory_bytes spec) m"
    by fastforce
  then show ?thesis
  proof cases
    case unknown
    then have "m' = ?m \<and> b' = b \<and> st = status_error EC_ModelNotFound ''model not found in registry''"
      using run by (simp add: ensure_missing_def Let_def)
    then show ?thesis using good1 static miss rs unknown by simp
  next
    case large
    then have "m' = ?m \<and> b' = b \<and>
        st = status_error EC_InsufficientMemory ''model larger than worker memory budget''"
      using run by (simp add: ensure_missing_def Let_def mm_fits_def not_le)
    then show ?thesis using good1 static miss rs large by simp
  next
    case fits
    let ?n = "ms_estimated_memory_bytes spec"
    obtain fst1 m1 b1 where f: "free_memory_for unload ?n (?m, b) = (fst1, m1, b1)" by (metis prod_cases3)
    have "mm_fits ?n ?m" using fits(2) by (simp add: mm_fits_def)
    note fs = free_memory_spec [OF f good1 this]
    then have miss1: "\<not> resident mid m1" using miss rs by blast
    have static1: "mm_static m m1" using fs static mm_static_trans by blast
    have large: "\<not> ?n > rm_budget (mm_resources m)" using fits(2) by (simp add: mm_fits_def not_less)
    show ?thesis
    proof (cases "status_ok fst1")
      case False
      then have "st = fst1 \<and> m' = m1 \<and> b' = b1"
        using run f fits(1) large by (simp add: ensure_missing_def Let_def)
      moreover have "\<exists>ks k. is_loaded k (after_unloads unload ks b) \<and> fst (unload k (after_unloads unload ks b)) = fst1"
        using fs False by auto
      ultimately show ?thesis using fs False miss1 static1 by blast
    next
      case True
      have lm: "load_model load mid spec (m1, b1) = (st, m', b')"
        using run f fits(1) large True by (simp add: ensure_missing_def Let_def)
      have reg1: "map_of (mm_registry m1) mid = Some spec" using fits(1) static1 by (simp add: mm_static_def)
      have "mm_good m1 b1" "can_reserve ?n (mm_resources m1)" using fs True by blast+
      note ls = load_freed [OF this(1) reg1 this(2) miss1 lm]
      obtain ks where "b1 = after_unloads unload ks b" using fs True by auto
      then have "\<not> status_ok st \<longrightarrow> (\<exists>ks. fst (load spec (after_unloads unload ks b)) = st)" using ls by auto
      then show ?thesis using ls mm_static_trans [OF static1] fits by auto
    qed
  qed
qed

lemma ensure_resident_spec:
  assumes run: "ensure_resident load unload mid (m, b) = (st, m', b')" and good: "mm_good m b"
  shows "mm_good m' b' \<and> mm_static m m' \<and> (status_ok st \<longleftrightarrow> resident mid m') \<and>
    (\<not> status_ok st \<longrightarrow>
       (map_of (mm_registry m) mid = None \<and> st_code st = EC_ModelNotFound) \<or>
       (\<exists>spec. map_of (mm_registry m) mid = Some spec \<and> \<not> mm_fits (ms_estimated_memory_bytes spec) m \<and>
          st_code st = EC_InsufficientMemory) \<or>
       (\<exists>ks k. is_loaded k (after_unloads unload ks b) \<and> fst (unload k (after_unloads unload ks b)) = st) \<or>
       (\<exists>spec ks. map_of (mm_registry m) mid = Some spec \<and> mm_fits (ms_estimated_memory_bytes spec) m \<and>
          fst (load spec (after_unloads unload ks b)) = st))"
proof (cases "resident mid m")
  case True
  then obtain e where e: "map_of (mm_entries m) mid = Some e" "mo_state e = MS_Resident"
    by (auto simp: resident_iff)
  then have "st = status_success \<and> m' = touch_entry mid e m \<and> b' = b"
    using run by (simp add: ensure_resident_def)
  moreover note touch_entry_spec [OF _ e]
  ultimately show ?thesis using good True by (auto simp: coherent_def)
next
  case False
  then have "ensure_missing load unload mid (m, b) = (st, m', b')"
    using run by (auto simp: ensure_resident_def resident_iff split: option.splits if_splits)
  from ensure_missing_spec [OF this good False] show ?thesis .
qed

end

section \<open>Any sequence of calls\<close>

fun ensure_run ::
  "(ModelSpec \<Rightarrow> 'b \<Rightarrow> Status \<times> 'b) \<Rightarrow> (string \<Rightarrow> 'b \<Rightarrow> Status \<times> 'b) \<Rightarrow> string list \<Rightarrow>
     ModelManager \<times> 'b \<Rightarrow> Status list \<times> ModelManager \<times> 'b" where
  "ensure_run load unload [] mb = ([], mb)"
| "ensure_run load unload (mid # ids) mb =
     (case ensure_resident load unload mid mb of (st, mb1) \<Rightarrow>
      case ensure_run load unload ids mb1 of (sts, mb2) \<Rightarrow> (st # sts, mb2))"

context model_backend
begin

lemma ensure_run_good:
  "ensure_run load unload ids (m, b) = (sts, m', b') \<Longrightarrow> mm_good m b \<Longrightarrow> mm_good m' b' \<and> mm_static m m'"
proof (induction ids arbitrary: m b sts)
  case (Cons mid ids)
  obtain st m1 b1 where e: "ensure_resident load unload mid (m, b) = (st, m1, b1)" by (metis prod_cases3)
  obtain sts1 where r: "ensure_run load unload ids (m1, b1) = (sts1, m', b')"
    using Cons.prems(1) e by (auto split: prod.splits)
  note s = ensure_resident_spec [OF e Cons.prems(2)]
  then have "mm_good m1 b1" by blast
  from Cons.IH [OF r this] show ?case using s mm_static_trans by blast
qed simp

end

lemma set_resident_ids: "mm_inv m \<Longrightarrow> mid \<in> set (resident_model_ids m) \<longleftrightarrow> resident mid m"
  by (force simp: resident_model_ids_def resident_iff mm_inv_def)

lemma reserved_sum_resident:
  "\<forall>x \<in> set es. reserved (snd x) =
     (if mo_state (snd x) = MS_Resident then unat (mo_estimated_memory_bytes (snd x)) else 0) \<Longrightarrow>
   reserved_sum es = sum_list (map (\<lambda>(_, e). unat (mo_estimated_memory_bytes e))
     (filter (\<lambda>(_, e). mo_state e = MS_Resident) es))"
  by (induction es) (auto simp: reserved_sum_def case_prod_beta)

lemma reserved_resident:
  assumes "mm_inv m"
  shows "reserved_sum (mm_entries m) =
    sum_list (map (\<lambda>(_, e). unat (mo_estimated_memory_bytes e))
      (filter (\<lambda>(_, e). mo_state e = MS_Resident) (mm_entries m)))"
proof (rule reserved_sum_resident, rule ballI)
  fix x assume "x \<in> set (mm_entries m)"
  then have "entry_ok (mm_registry m) (fst x) (snd x)" by (intro mm_inv_member [OF assms]) simp
  then show "reserved (snd x) =
     (if mo_state (snd x) = MS_Resident then unat (mo_estimated_memory_bytes (snd x)) else 0)"
    by (auto simp: entry_ok_def reserved_def)
qed

section \<open>On the synthetic backend\<close>

text \<open>
  C11: Memory accounting of a worker. After any sequence of calls of \<^verbatim>\<open>ensure_resident\<close>,
  whatever their answers, the memory in use is exactly the sum over the resident models and
  never more than the budget, the models the manager reports as resident are exactly those
  the backend has loaded, and the number of loads minus the number of evictions is the number
  of resident models.
\<close>

theorem residency_accounting:
  assumes "mm_make (Some reg) budget (Some p) = Inr m" and "registry_inv reg"
    and "\<forall>mid. \<not> syn_is_loaded mid b"
    and "ensure_run syn_load syn_unload ids (m, b) = (sts, m', b')"
  shows "unat (memory_used_bytes m') =
      sum_list (map (\<lambda>(_, e). unat (mo_estimated_memory_bytes e))
        (filter (\<lambda>(_, e). mo_state e = MS_Resident) (mm_entries m'))) \<and>
    memory_used_bytes m' \<le> budget \<and>
    (\<forall>mid. mid \<in> set (resident_model_ids m') \<longleftrightarrow> syn_is_loaded mid b') \<and>
    of_nat (length (resident_model_ids m')) = rs_loads (mm_metrics m') - rs_evictions (mm_metrics m')"
proof -
  have m: "mm_inv m" "mm_entries m = []" "rm_budget (mm_resources m) = budget"
    using mm_make_inv [OF assms(1,2)] assms(1) by (auto simp: mm_make_def rm_make_def)
  then have "coherent syn_is_loaded m b" using assms(3) by (simp add: coherent_def resident_iff)
  with m(1) synthetic.ensure_run_good [OF assms(4)]
  have inv: "mm_inv m'" and coh: "coherent syn_is_loaded m' b'" and st: "mm_static m m'" by blast+
  then have "memory_used_bytes m' \<le> budget"
    using m(3) by (simp add: mm_inv_def rm_inv_def memory_used_bytes_def mm_static_def)
  moreover have "length (resident_model_ids m') = resident_count m'"
    by (simp add: resident_model_ids_def resident_count_def)
  ultimately show ?thesis
    using inv coh reserved_resident [OF inv] set_resident_ids [OF inv]
    by (simp add: mm_inv_def memory_used_bytes_def coherent_def)
qed

theorem residency_accounting_witness:
  "let c = \<lparr>sc_load_latency = 9, sc_prefill_latency = 5, sc_per_token_latency = 2,
            sc_fail_load = False, sc_fail_infer = False\<rparr>;
       b = syn_register ''y'' c (syn_register ''x'' c syn_make);
       reg = [(''x'', \<lparr>ms_model_id = ''x'', ms_estimated_memory_bytes = 4, ms_estimated_load_cost = 1\<rparr>),
              (''y'', \<lparr>ms_model_id = ''y'', ms_estimated_memory_bytes = 3, ms_estimated_load_cost = 1\<rparr>)];
       m = projr (mm_make (Some reg) 5 (Some LruEvictionPolicy));
       r = ensure_run syn_load syn_unload [''x'', ''y'', ''z''] (m, b)
   in map status_ok (fst r) = [True, True, False] \<and>
      resident_model_ids (fst (snd r)) = [''y''] \<and> memory_used_bytes (fst (snd r)) \<le> 5 \<and>
      syn_is_loaded ''y'' (snd (snd r))"
proof -
  let ?c = "\<lparr>sc_load_latency = 9, sc_prefill_latency = 5, sc_per_token_latency = 2,
            sc_fail_load = False, sc_fail_infer = False\<rparr>"
  let ?b = "syn_register ''y'' ?c (syn_register ''x'' ?c syn_make)"
  let ?reg = "[(''x'', \<lparr>ms_model_id = ''x'', ms_estimated_memory_bytes = 4, ms_estimated_load_cost = 1\<rparr>),
              (''y'', \<lparr>ms_model_id = ''y'', ms_estimated_memory_bytes = 3, ms_estimated_load_cost = 1\<rparr>)]"
  let ?m = "projr (mm_make (Some ?reg) 5 (Some LruEvictionPolicy))"
  let ?r = "ensure_run syn_load syn_unload [''x'', ''y'', ''z''] (?m, ?b)"
  have mk: "mm_make (Some ?reg) 5 (Some LruEvictionPolicy) = Inr ?m" by (simp add: mm_make_def)
  have reg: "registry_inv ?reg" by (simp add: registry_inv_def)
  have none: "\<forall>mid. \<not> syn_is_loaded mid ?b" by (simp add: syn_is_loaded_def syn_register_def syn_make_def)
  have run: "?r = (fst ?r, fst (snd ?r), snd (snd ?r))" by simp
  have ids: "resident_model_ids (fst (snd ?r)) = [''y'']" and oks: "map status_ok (fst ?r) = [True, True, False]"
    by code_simp+
  from residency_accounting [OF mk reg none run] have
    "memory_used_bytes (fst (snd ?r)) \<le> 5" "syn_is_loaded ''y'' (snd (snd ?r))" using ids by auto
  then show ?thesis using ids oks unfolding Let_def by blast
qed

lemma syn_unload_config:
  "map_of (sb_models b) k = Some e \<Longrightarrow>
   \<exists>e'. map_of (sb_models (snd (syn_unload j b))) k = Some e' \<and> se_config e' = se_config e"
  by (auto simp: syn_unload_def syn_set_state_def update_conv' split: option.splits)

lemma after_unloads_config:
  "map_of (sb_models b) k = Some e \<Longrightarrow>
   \<exists>e'. map_of (sb_models (after_unloads syn_unload ks b)) k = Some e' \<and> se_config e' = se_config e"
proof (induction ks arbitrary: b e)
  case (Cons j ks)
  from syn_unload_config [OF Cons.prems] obtain e' where
    "map_of (sb_models (snd (syn_unload j b))) k = Some e'" "se_config e' = se_config e" by blast
  from Cons.IH [OF this(1)] this(2) show ?case by auto
qed simp

lemma syn_unload_loaded_ok: "syn_is_loaded k b \<Longrightarrow> status_ok (fst (syn_unload k b))"
  by (auto simp: syn_is_loaded_def syn_unload_def split: option.splits)

lemma syn_load_ok:
  "map_of (sb_models b) (ms_model_id spec) = Some e \<Longrightarrow> \<not> sc_fail_load (se_config e) \<Longrightarrow>
   status_ok (fst (syn_load spec b))"
  by (simp add: syn_load_def Let_def)

text \<open>A resident model is registered and fits; a load that does not fail after evictions.\<close>

lemma resident_registered:
  assumes inv: "mm_inv m" and res: "resident mid m"
  shows "\<exists>spec. map_of (mm_registry m) mid = Some spec \<and> mm_fits (ms_estimated_memory_bytes spec) m"
proof -
  obtain e where e: "map_of (mm_entries m) mid = Some e" "mo_state e = MS_Resident"
    using res by (auto simp: resident_iff)
  obtain sp where sp: "map_of (mm_registry m) mid = Some sp"
    "mo_estimated_memory_bytes e = ms_estimated_memory_bytes sp"
    using mm_inv_entry [OF inv e(1)] e(2) by (auto simp: entry_ok_def)
  have "unat (mo_estimated_memory_bytes e) \<le> unat (rm_used (mm_resources m))"
    using reserved_le [OF e(1)] e(2) inv by (simp add: mm_inv_def reserved_def)
  also have "\<dots> \<le> unat (rm_budget (mm_resources m))" using inv by (simp add: mm_inv_def rm_inv_def word_le_nat_alt)
  finally show ?thesis using sp by (auto simp: mm_fits_def word_le_nat_alt)
qed

lemma syn_load_after_unloads:
  assumes inv: "mm_inv m" and spec: "map_of (mm_registry m) mid = Some spec"
    and e: "map_of (sb_models b) mid = Some e" "\<not> sc_fail_load (se_config e)"
  shows "status_ok (fst (syn_load spec (after_unloads syn_unload ks b)))"
proof -
  have "ms_model_id spec = mid" using inv map_of_SomeD [OF spec] by (auto simp: mm_inv_def registry_inv_def)
  then show ?thesis using after_unloads_config [OF e(1), of ks] e(2) syn_load_ok by auto
qed



end
