(* ===== verification/AR_Router.thy ===== *)
theory AR_Router
  imports AR_Models
begin

text \<open>
  The routers (\<^verbatim>\<open>router.hpp\<close>, \<^verbatim>\<open>router.cpp\<close>) choose a worker for a model from
  snapshots of the workers. The interface \<^verbatim>\<open>IWorkerRouter\<close> is the locale
  \<open>worker_router\<close>: a router only chooses feasible workers, and finds one if there is one.
  Round robin, least loaded and residency aware routing implement it; the properties say
  which feasible worker each of them takes.
\<close>

section \<open>Snapshots and results\<close>

record WorkerSnapshot =
  ws_worker_id :: WorkerId
  ws_queue_depth :: u64
  ws_queue_capacity :: nat
  ws_active_count :: u64
  ws_accepting :: bool
  ws_memory_budget_bytes :: u64
  ws_memory_used_bytes :: u64
  ws_resident_model_ids :: "string list"

record RoutingResult =
  rr_status :: Status
  rr_worker_id :: "WorkerId option"

definition routing_success :: "WorkerId \<Rightarrow> RoutingResult" where
  "routing_success k = \<lparr>rr_status = status_success, rr_worker_id = Some k\<rparr>"

definition routing_failure :: "Status \<Rightarrow> RoutingResult" where
  "routing_failure st = \<lparr>rr_status = st, rr_worker_id = None\<rparr>"

definition routing_ok :: "RoutingResult \<Rightarrow> bool" where
  "routing_ok r \<longleftrightarrow> status_ok (rr_status r) \<and> rr_worker_id r \<noteq> None"

definition no_workers :: RoutingResult where
  "no_workers = routing_failure (status_error EC_NoFeasibleWorker ''no workers available'')"

definition no_feasible :: RoutingResult where
  "no_feasible = routing_failure (status_error EC_NoFeasibleWorker ''no feasible worker for model'')"

lemma routing_simps [simp]:
  "routing_ok (routing_success k)" "\<not> routing_ok no_workers" "\<not> routing_ok no_feasible"
  "rr_worker_id (routing_success k) = Some k"
  "st_code (rr_status no_workers) = EC_NoFeasibleWorker" "st_code (rr_status no_feasible) = EC_NoFeasibleWorker"
  by (simp_all add: routing_ok_def routing_success_def no_workers_def no_feasible_def routing_failure_def)

definition is_m2_feasible :: "ModelSpec \<Rightarrow> WorkerSnapshot \<Rightarrow> bool" where
  "is_m2_feasible model worker \<longleftrightarrow>
     ws_accepting worker \<and> ms_estimated_memory_bytes model \<le> ws_memory_budget_bytes worker"

section \<open>The interface\<close>

locale worker_router =
  fixes select :: "ModelSpec \<Rightarrow> WorkerSnapshot list \<Rightarrow> 'r \<Rightarrow> RoutingResult \<times> 'r"
  assumes select_feasible:
      "select model ws r = (res, r') \<Longrightarrow> routing_ok res \<Longrightarrow>
         \<exists>w \<in> set ws. is_m2_feasible model w \<and> rr_worker_id res = Some (ws_worker_id w)"
    and select_complete:
      "select model ws r = (res, r') \<Longrightarrow> w \<in> set ws \<Longrightarrow> is_m2_feasible model w \<Longrightarrow> routing_ok res"
    and select_error:
      "select model ws r = (res, r') \<Longrightarrow> \<not> routing_ok res \<Longrightarrow> st_code (rr_status res) = EC_NoFeasibleWorker"

section \<open>Round robin\<close>

text \<open>The loop over the offsets; \<open>fuel\<close> is the number of offsets left.\<close>

fun rr_scan :: "ModelSpec \<Rightarrow> WorkerSnapshot list \<Rightarrow> nat \<Rightarrow> nat \<Rightarrow> nat \<Rightarrow> RoutingResult \<times> nat" where
  "rr_scan model ws nxt offset 0 = (no_feasible, nxt)"
| "rr_scan model ws nxt offset (Suc left) =
     (let index = (nxt + offset) mod length ws in
      if is_m2_feasible model (ws ! index)
      then (routing_success (ws_worker_id (ws ! index)), (index + 1) mod length ws)
      else rr_scan model ws nxt (offset + 1) left)"

definition rr_select :: "ModelSpec \<Rightarrow> WorkerSnapshot list \<Rightarrow> nat \<Rightarrow> RoutingResult \<times> nat" where
  "rr_select model ws next_index =
     (if ws = [] then (no_workers, next_index)
      else
        (let start = (if next_index \<ge> length ws then 0 else next_index)
         in rr_scan model ws start 0 (length ws)))"

text \<open>The scan stops at the first feasible worker from the start index on.\<close>

lemma rr_scan_spec:
  assumes "rr_scan model ws nxt offset left = (res, nxt')"
  shows "(\<forall>j < left. \<not> is_m2_feasible model (ws ! ((nxt + offset + j) mod length ws))) \<and>
      res = no_feasible \<and> nxt' = nxt \<or>
    (\<exists>j < left. is_m2_feasible model (ws ! ((nxt + offset + j) mod length ws)) \<and>
      (\<forall>i < j. \<not> is_m2_feasible model (ws ! ((nxt + offset + i) mod length ws))) \<and>
      res = routing_success (ws_worker_id (ws ! ((nxt + offset + j) mod length ws))) \<and>
      nxt' = ((nxt + offset + j) mod length ws + 1) mod length ws)"
  using assms
proof (induction left arbitrary: offset)
  case 0
  then show ?case by simp
next
  case (Suc left)
  let ?feas = "\<lambda>j. is_m2_feasible model (ws ! ((nxt + offset + j) mod length ws))"
  show ?case
  proof (cases "?feas 0")
    case True
    then show ?thesis using Suc.prems by (intro disjI2 exI [of _ 0]) (simp add: Let_def)
  next
    case False
    have r: "rr_scan model ws nxt (offset + 1) left = (res, nxt')"
      using Suc.prems False by (simp add: Let_def)
    have shift: "nxt + (offset + 1) + j = nxt + offset + Suc j" for j by simp
    from Suc.IH [OF r] show ?thesis
    proof
      assume "(\<forall>j < left. \<not> is_m2_feasible model (ws ! ((nxt + (offset + 1) + j) mod length ws))) \<and>
        res = no_feasible \<and> nxt' = nxt"
      then have "\<forall>j < left. \<not> ?feas (Suc j)" "res = no_feasible" "nxt' = nxt" using shift by simp_all
      then have "\<forall>j < Suc left. \<not> ?feas j" using False by (metis less_Suc_eq_0_disj)
      then show ?thesis using \<open>res = no_feasible\<close> \<open>nxt' = nxt\<close> by blast
    next
      assume "\<exists>j < left. is_m2_feasible model (ws ! ((nxt + (offset + 1) + j) mod length ws)) \<and>
        (\<forall>i < j. \<not> is_m2_feasible model (ws ! ((nxt + (offset + 1) + i) mod length ws))) \<and>
        res = routing_success (ws_worker_id (ws ! ((nxt + (offset + 1) + j) mod length ws))) \<and>
        nxt' = ((nxt + (offset + 1) + j) mod length ws + 1) mod length ws"
      then obtain j where j: "j < left" "?feas (Suc j)" "\<forall>i < j. \<not> ?feas (Suc i)"
        "res = routing_success (ws_worker_id (ws ! ((nxt + offset + Suc j) mod length ws)))"
        "nxt' = ((nxt + offset + Suc j) mod length ws + 1) mod length ws"
        unfolding shift by blast
      have "\<forall>i < Suc j. \<not> ?feas i" using False j(3) by (metis less_Suc_eq_0_disj)
      then show ?thesis using j by (intro disjI2 exI [of _ "Suc j"]) simp
    qed
  qed
qed

lemma mod_covers:
  assumes "(k::nat) < n" "s < n"
  shows "\<exists>j < n. (s + j) mod n = k"
proof (cases "s \<le> k")
  case True
  then show ?thesis using assms by (intro exI [of _ "k - s"]) simp
next
  case False
  then show ?thesis using assms by (intro exI [of _ "n - s + k"]) simp
qed

definition rr_start :: "WorkerSnapshot list \<Rightarrow> nat \<Rightarrow> nat" where
  "rr_start ws nxt = (if nxt \<ge> length ws then 0 else nxt)"

lemma rr_select_spec:
  assumes "rr_select model ws nxt = (res, nxt')" "ws \<noteq> []"
  shows "(\<forall>w \<in> set ws. \<not> is_m2_feasible model w) \<and> res = no_feasible \<or>
    (\<exists>j < length ws. let index = (rr_start ws nxt + j) mod length ws in
      is_m2_feasible model (ws ! index) \<and>
      (\<forall>i < j. \<not> is_m2_feasible model (ws ! ((rr_start ws nxt + i) mod length ws))) \<and>
      res = routing_success (ws_worker_id (ws ! index)) \<and> nxt' = (index + 1) mod length ws)"
proof -
  have r: "rr_scan model ws (rr_start ws nxt) 0 (length ws) = (res, nxt')"
    using assms by (simp add: rr_select_def rr_start_def Let_def)
  have s: "rr_start ws nxt < length ws" using assms(2) by (simp add: rr_start_def)
  from rr_scan_spec [OF r] show ?thesis
  proof
    assume a: "(\<forall>j < length ws. \<not> is_m2_feasible model (ws ! ((rr_start ws nxt + 0 + j) mod length ws))) \<and>
      res = no_feasible \<and> nxt' = rr_start ws nxt"
    have "\<not> is_m2_feasible model w" if w: "w \<in> set ws" for w
    proof -
      obtain k where k: "k < length ws" "ws ! k = w" using w by (auto simp: in_set_conv_nth)
      obtain j where "j < length ws" "(rr_start ws nxt + j) mod length ws = k" using mod_covers [OF k(1) s] by blast
      then show ?thesis using a k by auto
    qed
    then show ?thesis using a by blast
  qed (auto simp: Let_def)
qed

interpretation round_robin: worker_router rr_select
proof unfold_locales
  fix model ws nxt res nxt'
  assume r: "rr_select model ws nxt = (res, nxt')"
  show "\<exists>w \<in> set ws. is_m2_feasible model w \<and> rr_worker_id res = Some (ws_worker_id w)" if "routing_ok res"
  proof -
    have "ws \<noteq> []" using r that by (auto simp: rr_select_def)
    then have mem: "ws ! (k mod length ws) \<in> set ws" for k by simp
    from rr_select_spec [OF r \<open>ws \<noteq> []\<close>] that show ?thesis
      by (auto simp: Let_def intro: bexI [OF _ mem])
  qed
  show "st_code (rr_status res) = EC_NoFeasibleWorker" if "\<not> routing_ok res"
    using r rr_select_spec [OF r] that by (cases "ws = []") (auto simp: rr_select_def Let_def)
next
  fix model ws nxt res nxt' w
  assume "rr_select model ws nxt = (res, nxt')" "w \<in> set ws" "is_m2_feasible model w"
  then show "routing_ok res" using rr_select_spec [of model ws nxt res nxt'] by (cases ws) (auto simp: Let_def)
qed

text \<open>Several selections on the same snapshots.\<close>

fun rr_selects :: "nat \<Rightarrow> ModelSpec \<Rightarrow> WorkerSnapshot list \<Rightarrow> nat \<Rightarrow> RoutingResult list \<times> nat" where
  "rr_selects 0 model ws nxt = ([], nxt)"
| "rr_selects (Suc n) model ws nxt =
     (case rr_select model ws nxt of (r, next1) \<Rightarrow>
      case rr_selects n model ws next1 of (rs, next2) \<Rightarrow> (r # rs, next2))"

lemma rr_select_all_feasible:
  assumes "\<forall>w \<in> set ws. is_m2_feasible model w" "ws \<noteq> []" "nxt < length ws"
  shows "rr_select model ws nxt = (routing_success (ws_worker_id (ws ! nxt)), (nxt + 1) mod length ws)"
  using assms by (cases "length ws") (auto simp: rr_select_def Let_def)

text \<open>
  Round robin is fair. While all workers are feasible for a model, consecutive selections
  take the workers in a circle, so that every window of as many selections as there are
  workers takes each worker exactly once.
\<close>

lemma round_robin_fair:
  assumes "\<forall>w \<in> set ws. is_m2_feasible model w" and "ws \<noteq> []" and "nxt < length ws"
  shows "fst (rr_selects n model ws nxt) =
    map (\<lambda>j. routing_success (ws_worker_id (ws ! ((nxt + j) mod length ws)))) [0..<n]"
  using assms(3)
proof (induction n arbitrary: nxt)
  case 0
  then show ?case by simp
next
  case (Suc n)
  let ?n = "length ws"
  have step: "rr_select model ws nxt = (routing_success (ws_worker_id (ws ! nxt)), (nxt + 1) mod ?n)"
    by (rule rr_select_all_feasible [OF assms(1,2) Suc.prems])
  have lt: "(nxt + 1) mod ?n < ?n" using assms(2) by simp
  have "((nxt + 1) mod ?n + j) mod ?n = (nxt + Suc j) mod ?n" for j
    by (simp add: mod_add_left_eq)
  then have "map (\<lambda>j. routing_success (ws_worker_id (ws ! (((nxt + 1) mod ?n + j) mod ?n)))) [0..<n] =
      map (\<lambda>j. routing_success (ws_worker_id (ws ! ((nxt + j) mod ?n)))) [1..<Suc n]"
    by (simp add: map_Suc_upt [symmetric] del: upt_Suc map_Suc_upt)
  then show ?case using step Suc.IH [OF lt] Suc.prems
    by (simp add: case_prod_beta upt_conv_Cons del: upt_Suc)
qed

lemma round_robin_fair_witness:
  "let w = (\<lambda>k. \<lparr>ws_worker_id = k, ws_queue_depth = 0, ws_queue_capacity = 1, ws_active_count = 0,
                ws_accepting = True, ws_memory_budget_bytes = 9, ws_memory_used_bytes = 0,
                ws_resident_model_ids = []\<rparr>);
       spec = \<lparr>ms_model_id = ''m'', ms_estimated_memory_bytes = 4, ms_estimated_load_cost = 1\<rparr>
   in fst (rr_selects 3 spec [w 5, w 7] 0) = [routing_success 5, routing_success 7, routing_success 5]"
proof -
  let ?w = "\<lambda>k. \<lparr>ws_worker_id = k, ws_queue_depth = 0, ws_queue_capacity = 1, ws_active_count = 0,
                ws_accepting = True, ws_memory_budget_bytes = 9, ws_memory_used_bytes = 0,
                ws_resident_model_ids = []\<rparr>"
  let ?spec = "\<lparr>ms_model_id = ''m'', ms_estimated_memory_bytes = 4, ms_estimated_load_cost = 1\<rparr>"
  have "\<forall>w \<in> set [?w 5, ?w 7]. is_m2_feasible ?spec w" by (simp add: is_m2_feasible_def)
  from round_robin_fair [OF this, of 0 3] show ?thesis by (simp add: Let_def upt_rec)
qed

section \<open>Taking the best worker\<close>

text \<open>A loop that keeps the least key seen so far.\<close>

fun least_key :: "('w \<Rightarrow> 'k::linorder) \<Rightarrow> 'w list \<Rightarrow> 'k option \<Rightarrow> 'k option" where
  "least_key key [] best = best"
| "least_key key (w # ws) best =
     least_key key ws (if (case best of None \<Rightarrow> True | Some k \<Rightarrow> key w < k) then Some (key w) else best)"

lemma least_key_Some:
  "least_key key ws (Some k) = Some (Min (insert k (key ` set ws)))"
proof (induction ws arbitrary: k)
  case (Cons w ws)
  have "least_key key (w # ws) (Some k) = least_key key ws (Some (min (key w) k))"
    by (simp add: min_def not_less) (use order_less_imp_le order_antisym in blast)
  also have "\<dots> = Some (Min (insert (min (key w) k) (key ` set ws)))" by (rule Cons.IH)
  also have "Min (insert (min (key w) k) (key ` set ws)) = Min (insert k (key ` set (w # ws)))"
    by (cases "ws = []") (simp_all add: ac_simps)
  finally show ?case .
qed simp

lemma least_key_None:
  "least_key key ws None = (if ws = [] then None else Some (Min (key ` set ws)))"
  by (cases ws) (simp_all add: least_key_Some)

text \<open>The least loaded worker: the loop keeps the load and the identifier of the best one.\<close>

definition worker_load :: "WorkerSnapshot \<Rightarrow> u64" where
  "worker_load w = ws_queue_depth w + ws_active_count w"

fun ll_loop :: "ModelSpec \<Rightarrow> WorkerSnapshot list \<Rightarrow> (u64 \<times> WorkerId) option \<Rightarrow> (u64 \<times> WorkerId) option" where
  "ll_loop model [] best = best"
| "ll_loop model (w # ws) best =
     (if \<not> is_m2_feasible model w then ll_loop model ws best
      else if (case best of
                 None \<Rightarrow> True
               | Some (best_load, best_id) \<Rightarrow>
                   worker_load w < best_load \<or>
                   worker_load w = best_load \<and> ws_worker_id w < best_id)
      then ll_loop model ws (Some (worker_load w, ws_worker_id w))
      else ll_loop model ws best)"

definition ll_select :: "ModelSpec \<Rightarrow> WorkerSnapshot list \<Rightarrow> RoutingResult" where
  "ll_select model ws =
     (if ws = [] then no_workers
      else (case ll_loop model ws None of
              None \<Rightarrow> no_feasible
            | Some (_, best_id) \<Rightarrow> routing_success best_id))"

definition ll_key :: "WorkerSnapshot \<Rightarrow> u64 \<times> WorkerId" where
  "ll_key w = (worker_load w, ws_worker_id w)"

lemma ll_loop_least: "ll_loop model ws best = least_key ll_key (filter (is_m2_feasible model) ws) best"
  by (induction ws arbitrary: best) (auto simp: ll_key_def less_prod_def' split: option.splits)

text \<open>
  The residency tier. \<^verbatim>\<open>std::binary_search\<close> finds the lower bound by halving and compares
  the element there; on a sorted list it decides membership.
\<close>

function lower_bound :: "string list \<Rightarrow> string \<Rightarrow> nat \<Rightarrow> nat \<Rightarrow> nat" where
  "lower_bound xs v first len =
     (if len = 0 then first
      else
        (let half = len div 2; middle = first + half in
         if xs ! middle < v then lower_bound xs v (middle + 1) (len - half - 1)
         else lower_bound xs v first half))"
  by pat_completeness auto
termination
  by (relation "measure (\<lambda>(xs, v, first, len). len)") auto

declare lower_bound.simps [simp del]

definition binary_search :: "string list \<Rightarrow> string \<Rightarrow> bool" where
  "binary_search xs v =
     (let i = lower_bound xs v 0 (length xs) in i < length xs \<and> \<not> v < xs ! i)"

lemma lower_bound_spec:
  assumes "sorted xs" "first + len \<le> length xs"
    and "\<forall>i < first. xs ! i < v" "\<forall>i. first + len \<le> i \<and> i < length xs \<longrightarrow> v \<le> xs ! i"
  shows "let k = lower_bound xs v first len in
    k \<le> length xs \<and> (\<forall>i < k. xs ! i < v) \<and> (\<forall>i. k \<le> i \<and> i < length xs \<longrightarrow> v \<le> xs ! i)"
  using assms
proof (induction xs v first len rule: lower_bound.induct)
  case (1 xs v first len)
  show ?case
  proof (cases "len = 0")
    case True
    then show ?thesis using "1.prems" by (simp add: lower_bound.simps Let_def)
  next
    case False
    define half where "half = len div 2"
    define middle where "middle = first + half"
    have hl: "half < len" using False by (simp add: half_def)
    then have mid: "middle < length xs" using "1.prems"(2) by (simp add: middle_def)
    have srt: "xs ! i \<le> xs ! j" if "i \<le> j" "j < length xs" for i j
      using "1.prems"(1) that by (simp add: sorted_iff_nth_mono)
    show ?thesis
    proof (cases "xs ! middle < v")
      case True
      have step: "lower_bound xs v first len = lower_bound xs v (middle + 1) (len - half - 1)"
        using False True by (simp add: lower_bound.simps [of xs v first len] half_def middle_def Let_def)
      have "\<forall>i < middle + 1. xs ! i < v" using srt mid True by (metis Suc_eq_plus1 less_Suc_eq_le order_le_less_trans)
      moreover have "middle + 1 + (len - half - 1) = first + len" using hl by (simp add: middle_def)
      ultimately show ?thesis unfolding step
        using "1.IH"(1) [OF False half_def middle_def True "1.prems"(1)] "1.prems"(2,4) by simp
    next
      case nlt: False
      have step: "lower_bound xs v first len = lower_bound xs v first half"
        using False nlt by (simp add: lower_bound.simps [of xs v first len] half_def middle_def Let_def)
      have "\<forall>i. first + half \<le> i \<and> i < length xs \<longrightarrow> v \<le> xs ! i"
        using srt nlt by (metis middle_def not_less order_trans)
      then show ?thesis unfolding step
        using "1.IH"(2) [OF False half_def middle_def nlt "1.prems"(1)] "1.prems"(2,3) hl by simp
    qed
  qed
qed

lemma binary_search_iff: "sorted xs \<Longrightarrow> binary_search xs v \<longleftrightarrow> v \<in> set xs"
proof -
  assume srt: "sorted xs"
  let ?k = "lower_bound xs v 0 (length xs)"
  have beyond: "\<forall>i. 0 + length xs \<le> i \<and> i < length xs \<longrightarrow> v \<le> xs ! i" by auto
  have k: "?k \<le> length xs" "\<forall>i < ?k. xs ! i < v" "\<forall>i. ?k \<le> i \<and> i < length xs \<longrightarrow> v \<le> xs ! i"
    using lower_bound_spec [OF srt _ _ beyond] by (simp_all add: Let_def)
  show ?thesis
  proof
    assume "binary_search xs v"
    then have "?k < length xs" "\<not> v < xs ! ?k" by (simp_all add: binary_search_def Let_def)
    moreover have "v \<le> xs ! ?k" using k(3) \<open>?k < length xs\<close> by blast
    ultimately have "v = xs ! ?k" by order
    then show "v \<in> set xs" using nth_mem [OF \<open>?k < length xs\<close>] by simp
  next
    assume "v \<in> set xs"
    then obtain i where i: "i < length xs" "xs ! i = v" by (auto simp: in_set_conv_nth)
    then have ki: "?k \<le> i" using k(2) by (metis less_irrefl not_le)
    then have "xs ! ?k \<le> v" using srt i by (metis sorted_nth_mono)
    then show "binary_search xs v" using ki i(1) by (simp add: binary_search_def Let_def not_less)
  qed
qed

definition residency_tier :: "ModelSpec \<Rightarrow> WorkerSnapshot \<Rightarrow> nat" where
  "residency_tier model w =
     (if binary_search (ws_resident_model_ids w) (ms_model_id model) then 0
      else
        (let free_bytes = (if ws_memory_budget_bytes w \<ge> ws_memory_used_bytes w
                           then ws_memory_budget_bytes w - ws_memory_used_bytes w else 0)
         in if ms_estimated_memory_bytes model \<le> free_bytes then 1 else 2))"

record ResidencyAwareRouterMetrics =
  ra_resident_selections :: u64
  ra_no_eviction_load_selections :: u64
  ra_eviction_required_selections :: u64

fun ra_loop ::
  "ModelSpec \<Rightarrow> WorkerSnapshot list \<Rightarrow> (nat \<times> u64 \<times> WorkerId) option \<Rightarrow> (nat \<times> u64 \<times> WorkerId) option" where
  "ra_loop model [] best = best"
| "ra_loop model (w # ws) best =
     (if \<not> is_m2_feasible model w then ra_loop model ws best
      else
        (let tier = residency_tier model w; load = worker_load w in
         if (case best of
               None \<Rightarrow> True
             | Some (best_tier, best_load, best_id) \<Rightarrow>
                 tier < best_tier \<or> (tier = best_tier \<and> load < best_load) \<or>
                 (tier = best_tier \<and> load = best_load \<and> ws_worker_id w < best_id))
         then ra_loop model ws (Some (tier, load, ws_worker_id w))
         else ra_loop model ws best))"

definition count_tier :: "nat \<Rightarrow> ResidencyAwareRouterMetrics \<Rightarrow> ResidencyAwareRouterMetrics" where
  "count_tier tier ms =
     (if tier = 0 then ms\<lparr>ra_resident_selections := ra_resident_selections ms + 1\<rparr>
      else if tier = 1
      then ms\<lparr>ra_no_eviction_load_selections := ra_no_eviction_load_selections ms + 1\<rparr>
      else ms\<lparr>ra_eviction_required_selections := ra_eviction_required_selections ms + 1\<rparr>)"

definition ra_select ::
  "ModelSpec \<Rightarrow> WorkerSnapshot list \<Rightarrow> ResidencyAwareRouterMetrics \<Rightarrow>
     RoutingResult \<times> ResidencyAwareRouterMetrics" where
  "ra_select model ws ms =
     (if ws = [] then (no_workers, ms)
      else (case ra_loop model ws None of
              None \<Rightarrow> (no_feasible, ms)
            | Some (best_tier, _, best_id) \<Rightarrow> (routing_success best_id, count_tier best_tier ms)))"

definition ra_key :: "ModelSpec \<Rightarrow> WorkerSnapshot \<Rightarrow> nat \<times> u64 \<times> WorkerId" where
  "ra_key model w = (residency_tier model w, worker_load w, ws_worker_id w)"

lemma ra_loop_least: "ra_loop model ws best = least_key (ra_key model) (filter (is_m2_feasible model) ws) best"
  by (induction ws arbitrary: best) (auto simp: ra_key_def less_prod_def' Let_def split: option.splits)

section \<open>The routers together\<close>

datatype IWorkerRouter =
    RoundRobinRouter nat
  | LeastLoadedRouter
  | ResidencyAwareRouter ResidencyAwareRouterMetrics

fun router_select :: "ModelSpec \<Rightarrow> WorkerSnapshot list \<Rightarrow> IWorkerRouter \<Rightarrow> RoutingResult \<times> IWorkerRouter" where
  "router_select model ws (RoundRobinRouter nxt) = map_prod id RoundRobinRouter (rr_select model ws nxt)"
| "router_select model ws LeastLoadedRouter = (ll_select model ws, LeastLoadedRouter)"
| "router_select model ws (ResidencyAwareRouter ms) = map_prod id ResidencyAwareRouter (ra_select model ws ms)"

text \<open>A router that takes the worker of least key among the feasible ones.\<close>

lemma least_worker:
  assumes "ws \<noteq> []"
  shows "\<exists>w \<in> set ws. Min (key ` set ws) = key w \<and> (\<forall>v \<in> set ws. key w \<le> key v)"
proof -
  have "Min (key ` set ws) \<in> key ` set ws" using assms by (intro Min_in) auto
  then obtain w where "w \<in> set ws" "Min (key ` set ws) = key w" by blast
  then show ?thesis by (metis List.finite_set Min_le finite_imageI imageI)
qed

lemma ll_select_cases:
  "(\<forall>w \<in> set ws. \<not> is_m2_feasible model w) \<and> (ll_select model ws = no_feasible \<or> ll_select model ws = no_workers) \<or>
   (\<exists>w \<in> set ws. is_m2_feasible model w \<and> ll_select model ws = routing_success (ws_worker_id w) \<and>
      (\<forall>v \<in> set ws. is_m2_feasible model v \<longrightarrow> ll_key w \<le> ll_key v))"
proof (cases "filter (is_m2_feasible model) ws = []")
  case True
  then show ?thesis by (auto simp: ll_select_def ll_loop_least filter_empty_conv)
next
  case False
  obtain w where w: "w \<in> set (filter (is_m2_feasible model) ws)"
    "Min (ll_key ` set (filter (is_m2_feasible model) ws)) = ll_key w"
    "\<forall>v \<in> set (filter (is_m2_feasible model) ws). ll_key w \<le> ll_key v"
    using least_worker [OF False, of ll_key] by blast
  have "ws \<noteq> []" using False by auto
  then have "ll_select model ws = routing_success (ws_worker_id w)"
    using False w(2) by (simp add: ll_select_def ll_loop_least least_key_None ll_key_def)
  then show ?thesis using w by auto
qed

lemma ra_select_cases:
  "(\<forall>w \<in> set ws. \<not> is_m2_feasible model w) \<and>
     (ra_select model ws ms = (no_feasible, ms) \<or> ra_select model ws ms = (no_workers, ms)) \<or>
   (\<exists>w \<in> set ws. is_m2_feasible model w \<and>
      ra_select model ws ms = (routing_success (ws_worker_id w), count_tier (residency_tier model w) ms) \<and>
      (\<forall>v \<in> set ws. is_m2_feasible model v \<longrightarrow> ra_key model w \<le> ra_key model v))"
proof (cases "filter (is_m2_feasible model) ws = []")
  case True
  then show ?thesis by (auto simp: ra_select_def ra_loop_least filter_empty_conv)
next
  case False
  obtain w where w: "w \<in> set (filter (is_m2_feasible model) ws)"
    "Min (ra_key model ` set (filter (is_m2_feasible model) ws)) = ra_key model w"
    "\<forall>v \<in> set (filter (is_m2_feasible model) ws). ra_key model w \<le> ra_key model v"
    using least_worker [OF False, of "ra_key model"] by blast
  have "ws \<noteq> []" using False by auto
  then have "ra_select model ws ms = (routing_success (ws_worker_id w), count_tier (residency_tier model w) ms)"
    using False w(2) by (simp add: ra_select_def ra_loop_least least_key_None ra_key_def)
  then show ?thesis using w by auto
qed

interpretation least_loaded: worker_router "\<lambda>model ws (u::unit). (ll_select model ws, u)"
proof unfold_locales
  fix model ws res and u u' :: unit
  assume "(ll_select model ws, u) = (res, u')"
  then have r: "res = ll_select model ws" by simp
  show "\<exists>w \<in> set ws. is_m2_feasible model w \<and> rr_worker_id res = Some (ws_worker_id w)" if "routing_ok res"
    using that ll_select_cases [of ws model] unfolding r by (elim disjE conjE bexE) auto
  show "st_code (rr_status res) = EC_NoFeasibleWorker" if "\<not> routing_ok res"
    using that ll_select_cases [of ws model] unfolding r by (elim disjE conjE bexE) auto
  show "routing_ok res" if "w \<in> set ws" "is_m2_feasible model w" for w
    using that ll_select_cases [of ws model] unfolding r by (elim disjE conjE bexE) auto
qed

interpretation residency_aware: worker_router ra_select
proof unfold_locales
  fix model ws ms res ms'
  assume r: "ra_select model ws ms = (res, ms')"
  show "\<exists>w \<in> set ws. is_m2_feasible model w \<and> rr_worker_id res = Some (ws_worker_id w)" if "routing_ok res"
    using that ra_select_cases [of ws model ms] unfolding r by (elim disjE conjE bexE) auto
  show "st_code (rr_status res) = EC_NoFeasibleWorker" if "\<not> routing_ok res"
    using that ra_select_cases [of ws model ms] unfolding r by (elim disjE conjE bexE) auto
  show "routing_ok res" if "w \<in> set ws" "is_m2_feasible model w" for w
    using that ra_select_cases [of ws model ms] unfolding r by (elim disjE conjE bexE) auto
qed

lemma router_selectE:
  assumes "router_select model ws r = (res, r')"
  obtains (RR) nxt nxt' where "rr_select model ws nxt = (res, nxt')"
  | (LL) "(ll_select model ws, ()) = (res, ())"
  | (RA) ms ms' where "ra_select model ws ms = (res, ms')"
proof (cases r)
  case (RoundRobinRouter nxt)
  then show thesis using assms RR by (cases "rr_select model ws nxt") simp
next
  case LeastLoadedRouter
  then show thesis using assms LL by simp
next
  case (ResidencyAwareRouter ms)
  then show thesis using assms RA by (cases "ra_select model ws ms") simp
qed

interpretation router: worker_router router_select
proof unfold_locales
  fix model ws r res r'
  assume sel: "router_select model ws r = (res, r')"
  show "\<exists>w \<in> set ws. is_m2_feasible model w \<and> rr_worker_id res = Some (ws_worker_id w)" if "routing_ok res"
    using sel that
    by (elim router_selectE)
      (rule round_robin.select_feasible least_loaded.select_feasible residency_aware.select_feasible, assumption+)+
  show "st_code (rr_status res) = EC_NoFeasibleWorker" if "\<not> routing_ok res"
    using sel that
    by (elim router_selectE)
      (rule round_robin.select_error least_loaded.select_error residency_aware.select_error, assumption+)+
  show "routing_ok res" if "w \<in> set ws" "is_m2_feasible model w" for w
    using sel that
    by (elim router_selectE)
      (rule round_robin.select_complete least_loaded.select_complete residency_aware.select_complete, assumption+)+
qed

text \<open>
  C17: Whatever the router, a selection names a feasible worker of the snapshots exactly if
  there is one: one that accepts requests and whose whole memory budget holds the model.
  Otherwise it answers \<^verbatim>\<open>NoFeasibleWorker\<close>.
\<close>

theorem routing_feasible:
  assumes "router_select model ws r = (res, r')"
  shows "if \<exists>w \<in> set ws. is_m2_feasible model w
    then status_ok (rr_status res) \<and>
      (\<exists>w \<in> set ws. is_m2_feasible model w \<and> rr_worker_id res = Some (ws_worker_id w))
    else \<not> routing_ok res \<and> st_code (rr_status res) = EC_NoFeasibleWorker"
proof (cases "\<exists>w \<in> set ws. is_m2_feasible model w")
  case True
  then have "routing_ok res" using router.select_complete [OF assms] by blast
  then show ?thesis using True router.select_feasible [OF assms] by (simp add: routing_ok_def)
next
  case False
  then have "\<not> routing_ok res" using router.select_feasible [OF assms] by blast
  then show ?thesis using False router.select_error [OF assms] by simp
qed

theorem routing_feasible_witness:
  "let w = \<lparr>ws_worker_id = 5, ws_queue_depth = 0, ws_queue_capacity = 1, ws_active_count = 0,
            ws_accepting = True, ws_memory_budget_bytes = 9, ws_memory_used_bytes = 0,
            ws_resident_model_ids = []\<rparr>;
       spec = \<lparr>ms_model_id = ''m'', ms_estimated_memory_bytes = 4, ms_estimated_load_cost = 1\<rparr>
   in rr_worker_id (fst (router_select spec [w\<lparr>ws_accepting := False, ws_worker_id := 3\<rparr>, w] LeastLoadedRouter)) = Some 5"
proof -
  let ?w = "\<lparr>ws_worker_id = 5, ws_queue_depth = 0, ws_queue_capacity = 1, ws_active_count = 0,
            ws_accepting = True, ws_memory_budget_bytes = 9, ws_memory_used_bytes = 0,
            ws_resident_model_ids = []\<rparr>"
  let ?spec = "\<lparr>ms_model_id = ''m'', ms_estimated_memory_bytes = 4, ms_estimated_load_cost = 1\<rparr>"
  let ?ws = "[?w\<lparr>ws_accepting := False, ws_worker_id := 3\<rparr>, ?w]"
  have run: "router_select ?spec ?ws LeastLoadedRouter = (fst (router_select ?spec ?ws LeastLoadedRouter), LeastLoadedRouter)"
    by simp
  from routing_feasible [OF run] show ?thesis by (auto simp: is_m2_feasible_def Let_def)
qed



end
