(* ===== verification/AR_Worker.thy ===== *)
theory AR_Worker
  imports AR_Batch AR_ModelManager AR_Router
begin

text \<open>
  A worker (\<^verbatim>\<open>worker.hpp\<close>, \<^verbatim>\<open>worker.cpp\<close>): a lane of requests, a thread that forms
  batches from it and runs them on the worker's backend.

  What other threads touch, the lane, the counter of queued requests and the accepting flag,
  is in the shared state under the worker's number; the rest, which only the worker's thread
  writes, is the record \<open>Worker\<close>. The backend's operations are arguments. The loop of the
  thread is a total function of the shared state and of what the other threads do: it answers
  that the thread has stopped, or that it sleeps because the other threads do nothing more.
\<close>

section \<open>State\<close>

datatype WorkerState = Idle | Busy

record WorkerBatchMetrics =
  wb_batches_executed :: u64
  wb_requests_executed_via_batches :: u64
  wb_multi_request_batches :: u64
  wb_max_batch_size_observed :: u64

record 'b WorkerConfig =
  wc_worker_id :: WorkerId
  wc_queue_capacity :: nat
  wc_memory_budget_bytes :: u64
  wc_batch_config :: BatchBuilderConfig
  wc_registry :: "ModelRegistry option"
  wc_backend :: "'b option"
  wc_eviction_policy :: "IEvictionPolicy option"

record 'b Worker =
  wk_worker_id :: WorkerId
  wk_queue_capacity :: nat
  wk_batch_builder :: BatchBuilderConfig
  wk_backend :: 'b
  wk_model_manager :: ModelManager
  wk_state :: WorkerState
  wk_active_count :: u64
  wk_batch_metrics :: WorkerBatchMetrics
  wk_deferred :: "RequestPtr option"
  wk_started :: bool
  wk_thread :: bool

definition require_backend :: "'b option \<Rightarrow> 'b or_throw" where
  "require_backend backend =
     (case backend of None \<Rightarrow> Inl ''Worker requires a non-null backend'' | Some b \<Rightarrow> Inr b)"

text \<open>The constructor: the members are initialised in the order of their declaration.\<close>

definition worker_make :: "'b WorkerConfig \<Rightarrow> World \<Rightarrow> ('b Worker \<times> World) or_throw" where
  "worker_make config w =
     (let k = wc_worker_id config in
      if wc_queue_capacity config = 0 \<or> wc_memory_budget_bytes config = 0
      then Inl ''Worker requires positive queue capacity and memory budget''
      else
        (case bb_make (wc_batch_config config) of
           Inl e \<Rightarrow> Inl e
         | Inr builder \<Rightarrow>
             (case require_backend (wc_backend config) of
                Inl e \<Rightarrow> Inl e
              | Inr backend \<Rightarrow>
                  (case mm_make (wc_registry config) (wc_memory_budget_bytes config) (wc_eviction_policy config) of
                     Inl e \<Rightarrow> Inl e
                   | Inr manager \<Rightarrow>
                       (case make_queue (wc_queue_capacity config) of
                          Inl e \<Rightarrow> Inl e
                        | Inr lane \<Rightarrow>
                            Inr (\<lparr>wk_worker_id = k, wk_queue_capacity = wc_queue_capacity config,
                                  wk_batch_builder = builder, wk_backend = backend, wk_model_manager = manager,
                                  wk_state = Idle, wk_active_count = 0,
                                  wk_batch_metrics = \<lparr>wb_batches_executed = 0,
                                    wb_requests_executed_via_batches = 0, wb_multi_request_batches = 0,
                                    wb_max_batch_size_observed = 0\<rparr>,
                                  wk_deferred = None, wk_started = False, wk_thread = False\<rparr>,
                                 w\<lparr>w_lane := (w_lane w)(k := lane),
                                   w_queued_count := (w_queued_count w)(k := 0),
                                   w_accepting := (w_accepting w)(k := False)\<rparr>))))))"

definition worker_start :: "'b Worker \<times> World \<Rightarrow> Status \<times> 'b Worker \<times> World" where
  "worker_start ws =
     (case ws of (wk, w) \<Rightarrow>
        if wk_started wk then (status_success, wk, w)
        else (status_success, wk\<lparr>wk_thread := True, wk_started := True\<rparr>,
              w\<lparr>w_accepting := (w_accepting w)(wk_worker_id wk := True)\<rparr>))"

section \<open>Calls of other threads\<close>

definition queued_add :: "WorkerId \<Rightarrow> u64 \<Rightarrow> World \<Rightarrow> World" where
  "queued_add k n w =
     (let w1 = interfere w in w1\<lparr>w_queued_count := (w_queued_count w1)(k := w_queued_count w1 k + n)\<rparr>)"

definition queued_sub :: "WorkerId \<Rightarrow> u64 \<Rightarrow> World \<Rightarrow> World" where
  "queued_sub k n w =
     (let w1 = interfere w in w1\<lparr>w_queued_count := (w_queued_count w1)(k := w_queued_count w1 k - n)\<rparr>)"

definition lane_try_push :: "WorkerId \<Rightarrow> RequestPtr \<Rightarrow> World \<Rightarrow> Status \<times> World" where
  "lane_try_push k p w =
     (let w1 = interfere w in
      case try_push p (w_lane w1 k) of (st, q) \<Rightarrow> (st, set_lane k q w1))"

text \<open>
  The checks before each of the three ways to enqueue: \<open>Inl\<close> is an early return, \<open>Inr\<close> goes
  on with the non-null request.
\<close>

definition enqueue_checks :: "WorkerId \<Rightarrow> RequestPtr \<Rightarrow> World \<Rightarrow> (Status + addr) \<times> World" where
  "enqueue_checks k p w =
     (case p of
        None \<Rightarrow> (Inl (status_error EC_InternalError ''null request''), w)
      | Some a \<Rightarrow>
          (let w1 = interfere w in
           if \<not> w_accepting w1 k
           then (Inl (status_error EC_QueueClosed ''worker is not accepting work''), w1)
           else
             (case is_dead_request p w1 of (dead, w2) \<Rightarrow>
                if dead then (Inl status_success, w2) else (Inr a, w2))))"

definition try_enqueue :: "WorkerId \<Rightarrow> RequestPtr \<Rightarrow> World \<Rightarrow> Status \<times> World" where
  "try_enqueue k p w =
     (case enqueue_checks k p w of
        (Inl st, w1) \<Rightarrow> (st, w1)
      | (Inr a, w1) \<Rightarrow>
          (case lane_try_push k p w1 of (st, w2) \<Rightarrow>
             (st, if status_ok st then queued_add k 1 w2 else w2)))"

definition enqueue :: "WorkerId \<Rightarrow> RequestPtr \<Rightarrow> World \<Rightarrow> (Status \<times> World) option" where
  "enqueue k p w =
     (case enqueue_checks k p w of
        (Inl st, w1) \<Rightarrow> Some (st, w1)
      | (Inr a, w1) \<Rightarrow>
          (let w2 = interfere w1 in
           case wait_push (\<lambda>w. w_lane w k) (set_lane k) p (env_wakes w2) w2 of
             None \<Rightarrow> None
           | Some (st, w3, _) \<Rightarrow> Some (st, if status_ok st then queued_add k 1 w3 else w3)))"

definition enqueue_until :: "WorkerId \<Rightarrow> RequestPtr \<Rightarrow> time_point \<Rightarrow> World \<Rightarrow> (Status \<times> World) option" where
  "enqueue_until k p deadline w =
     (case enqueue_checks k p w of
        (Inl st, w1) \<Rightarrow> Some (st, w1)
      | (Inr a, w1) \<Rightarrow>
          (let w2 = interfere w1 in
           case wait_push_until (\<lambda>w. w_lane w k) (set_lane k) p (timed_wakes deadline w2) w2 of
             None \<Rightarrow> None
           | Some (st, w3, _) \<Rightarrow>
               if status_ok st then Some (st, queued_add k 1 w3)
               else if st_code st = EC_TimedOut then Some (st, snd (try_timeout a w3))
               else Some (st, w3)))"

definition worker_close :: "WorkerId \<Rightarrow> World \<Rightarrow> World" where
  "worker_close k w =
     (let w1 = interfere w;
          w2 = interfere (w1\<lparr>w_accepting := (w_accepting w1)(k := False)\<rparr>)
      in set_lane k (close_queue (w_lane w2 k)) w2)"

text \<open>\<^verbatim>\<open>join\<close> takes the thread out of the object and waits for the end of \<^verbatim>\<open>run_loop\<close>.\<close>

definition worker_join :: "'b Worker \<Rightarrow> 'b Worker" where
  "worker_join wk = wk\<lparr>wk_thread := False\<rparr>"

definition worker_snapshot :: "'b Worker \<Rightarrow> World \<Rightarrow> WorkerSnapshot \<times> World" where
  "worker_snapshot wk w =
     (let k = wk_worker_id wk; w1 = interfere w; w2 = interfere w1 in
      (\<lparr>ws_worker_id = k, ws_queue_depth = w_queued_count w1 k, ws_queue_capacity = wk_queue_capacity wk,
        ws_active_count = wk_active_count wk, ws_accepting = w_accepting w2 k,
        ws_memory_budget_bytes = memory_budget_bytes (wk_model_manager wk),
        ws_memory_used_bytes = memory_used_bytes (wk_model_manager wk),
        ws_resident_model_ids = resident_model_ids (wk_model_manager wk)\<rparr>, w2))"

section \<open>Running a batch\<close>

text \<open>The live requests of a batch; null pointers count as dead, so what is left are addresses.\<close>

fun filter_live_batch :: "RequestPtr list \<Rightarrow> World \<Rightarrow> addr list \<times> World" where
  "filter_live_batch [] w = ([], w)"
| "filter_live_batch (p # ps) w =
     (case is_dead_request p w of (dead, w1) \<Rightarrow>
      case filter_live_batch ps w1 of (live, w2) \<Rightarrow>
        (if dead then live else the p # live, w2))"

definition set_busy :: "nat \<Rightarrow> 'b Worker \<Rightarrow> 'b Worker" where
  "set_busy n wk = wk\<lparr>wk_state := Busy, wk_active_count := of_nat n\<rparr>"

definition restore_idle :: "'b Worker \<Rightarrow> 'b Worker" where
  "restore_idle wk = wk\<lparr>wk_state := Idle, wk_active_count := 0\<rparr>"

fun fail_loop :: "Status \<Rightarrow> addr list \<Rightarrow> World \<Rightarrow> World" where
  "fail_loop e [] w = w"
| "fail_loop e (a # as) w =
     (case read_req a w of (r, w1) \<Rightarrow>
        if is_terminal r then fail_loop e as w1
        else
          (case read_req a w1 of (r1, w2) \<Rightarrow>
           let w3 = (if rq_state r1 = Queued then snd (transition_to Running a w2) else w2) in
           case read_req a w3 of (r2, w4) \<Rightarrow>
             fail_loop e as (if \<not> is_terminal r2 then snd (try_fail e a w4) else w4)))"

definition fail_all :: "Status \<Rightarrow> addr list \<Rightarrow> 'b Worker \<times> World \<Rightarrow> Status \<times> 'b Worker \<times> World" where
  "fail_all e batch ws = (case ws of (wk, w) \<Rightarrow> (e, restore_idle wk, fail_loop e batch w))"

definition record_batch_metrics :: "nat \<Rightarrow> 'b Worker \<Rightarrow> 'b Worker" where
  "record_batch_metrics n wk =
     (let m = wk_batch_metrics wk;
          m1 = m\<lparr>wb_batches_executed := wb_batches_executed m + 1,
                 wb_requests_executed_via_batches := wb_requests_executed_via_batches m + of_nat n\<rparr>;
          m2 = (if n > 1 then m1\<lparr>wb_multi_request_batches := wb_multi_request_batches m1 + 1\<rparr> else m1);
          m3 = (if (of_nat n :: u64) > wb_max_batch_size_observed m2
                then m2\<lparr>wb_max_batch_size_observed := of_nat n\<rparr> else m2)
      in wk\<lparr>wk_batch_metrics := m3\<rparr>)"

text \<open>Taking the requests to \<open>Running\<close>; \<open>Some\<close> is the error of the first that refuses.\<close>

fun start_running :: "addr list \<Rightarrow> World \<Rightarrow> Status option \<times> World" where
  "start_running [] w = (None, w)"
| "start_running (a # as) w =
     (case is_dead_request (Some a) w of (dead, w1) \<Rightarrow>
        if dead then start_running as w1
        else
          (case transition_to Running a w1 of (running, w2) \<Rightarrow>
             if \<not> status_ok running then (Some running, w2) else start_running as w2))"

fun fail_live :: "Status \<Rightarrow> addr list \<Rightarrow> World \<Rightarrow> World" where
  "fail_live e [] w = w"
| "fail_live e (a # as) w =
     (case read_req a w of (r, w1) \<Rightarrow>
        fail_live e as (if \<not> is_terminal r then snd (try_fail e a w1) else w1))"

fun deliver :: "(addr \<times> InferenceResult) list \<Rightarrow> Status \<Rightarrow> World \<Rightarrow> Status \<times> World" where
  "deliver [] latest w = (latest, w)"
| "deliver ((a, res) # rs) latest w =
     (case read_req a w of (r, w1) \<Rightarrow>
        if is_terminal r then deliver rs latest w1
        else if \<not> result_ok res then
          (case try_fail (res_status res) a w1 of (done, w2) \<Rightarrow>
             deliver rs (if done then res_status res else latest) w2)
        else
          (case try_complete res a w1 of (_, w2) \<Rightarrow> deliver rs latest w2))"

definition exn_status :: "backend_exn \<Rightarrow> Status" where
  "exn_status ex =
     (case ex of
        StdException what \<Rightarrow> status_error EC_InternalError what
      | OtherException \<Rightarrow> status_error EC_InternalError ''unknown backend exception'')"

type_synonym 'b infer_fn = "InferenceRequest option list \<Rightarrow> 'b \<Rightarrow> batch_result \<times> 'b"

text \<open>From the call of the backend on (lines 337 to 385).\<close>

definition run_inference :: "'b infer_fn \<Rightarrow> addr list \<Rightarrow> 'b Worker \<times> World \<Rightarrow> Status \<times> 'b Worker \<times> World" where
  "run_inference infer_batch batch ws =
     (case ws of (wk, w) \<Rightarrow>
      case infer_batch (map (\<lambda>a. Some (w_reqs w a)) batch) (wk_backend wk) of (res, b) \<Rightarrow>
      let wk1 = wk\<lparr>wk_backend := b\<rparr>; w1 = interfere w in
      case res of
        Inl ex \<Rightarrow> fail_all (exn_status ex) batch (wk1, w1)
      | Inr results \<Rightarrow>
          (let wk2 = restore_idle (record_batch_metrics (length batch) wk1) in
           if length results \<noteq> length batch
           then (let err = status_error EC_InternalError ''infer_batch result cardinality mismatch''
                 in (err, wk2, fail_live err batch w1))
           else (case deliver (zip batch results) status_success w1 of (latest, w2) \<Rightarrow> (latest, wk2, w2))))"

text \<open>From the check of the live requests on (lines 312 to 335).\<close>

definition run_live ::
  "(ModelSpec \<Rightarrow> 'b \<Rightarrow> Status \<times> 'b) \<Rightarrow> (string \<Rightarrow> 'b \<Rightarrow> Status \<times> 'b) \<Rightarrow> 'b infer_fn \<Rightarrow>
   addr list \<Rightarrow> 'b Worker \<times> World \<Rightarrow> Status \<times> 'b Worker \<times> World" where
  "run_live load unload infer_batch batch0 ws =
     (case ws of (wk, w) \<Rightarrow>
      case filter_live_batch (map Some batch0) w of
        ([], w1) \<Rightarrow> (status_success, restore_idle wk, w1)
      | (a # as, w1) \<Rightarrow>
          (let batch = a # as in
           case ensure_resident load unload (rq_model_id (w_reqs w1 a)) (wk_model_manager wk, wk_backend wk) of
             (res_st, m, b) \<Rightarrow>
           let wk1 = wk\<lparr>wk_model_manager := m, wk_backend := b\<rparr>; w2 = interfere w1 in
           if \<not> status_ok res_st
           then (res_st, restore_idle (record_batch_metrics (length batch) wk1), fail_live res_st batch w2)
           else
             (case filter_live_batch (map Some batch) w2 of
                ([], w3) \<Rightarrow> (status_success, restore_idle wk1, w3)
              | (batch2, w3) \<Rightarrow> run_inference infer_batch batch2 (wk1, w3))))"

definition execute_batch ::
  "(ModelSpec \<Rightarrow> 'b \<Rightarrow> Status \<times> 'b) \<Rightarrow> (string \<Rightarrow> 'b \<Rightarrow> Status \<times> 'b) \<Rightarrow> 'b infer_fn \<Rightarrow>
   RequestPtr list \<Rightarrow> 'b Worker \<times> World \<Rightarrow> Status \<times> 'b Worker \<times> World" where
  "execute_batch load unload infer_batch ps ws =
     (case ws of (wk, w) \<Rightarrow>
      case filter_live_batch ps w of (batch, w1) \<Rightarrow>
        if batch = [] then (status_success, wk, w1)
        else
          (let wk1 = set_busy (length batch) wk;
               w2 = queued_sub (wk_worker_id wk) (of_nat (length batch)) w1
           in case start_running batch w2 of
                (Some running, w3) \<Rightarrow> fail_all running batch (wk1, w3)
              | (None, w3) \<Rightarrow> run_live load unload infer_batch batch (wk1, w3)))"

section \<open>The loop of the thread\<close>

definition lane_wait_pop :: "WorkerId \<Rightarrow> World \<Rightarrow> (RequestPtr option \<times> World) option" where
  "lane_wait_pop k w =
     (let w1 = interfere w in
      map_option (\<lambda>(r, w2, _). (r, w2)) (wait_pop (\<lambda>w. w_lane w k) (set_lane k) (env_wakes w1) w1))"

text \<open>A timed wait always answers, see \<open>lane_pop_until_answers\<close>.\<close>

definition lane_pop_until :: "WorkerId \<Rightarrow> time_point \<Rightarrow> World \<Rightarrow> RequestPtr option \<times> World" where
  "lane_pop_until k deadline w =
     (let w1 = interfere w in
      case wait_pop_until (\<lambda>w. w_lane w k) (set_lane k) (timed_wakes deadline w1) w1 of
        None \<Rightarrow> (None, w1)
      | Some (r, w2, _) \<Rightarrow> (r, w2))"

definition discard_queued_request :: "WorkerId \<Rightarrow> World \<Rightarrow> World" where
  "discard_queued_request k w =
     (let w1 = interfere w in
      if w_queued_count w1 k > 0 then queued_sub k 1 w1 else w1)"

section \<open>What the queue operations take from a lane\<close>

lemma env_wakes_n_frame: "w' \<in> set (env_wakes_n n w) \<Longrightarrow> lane_frame w w'"
proof (induction n arbitrary: w)
  case (Suc n)
  then show ?case by (auto simp: Let_def intro: interfere_frame lane_frame_trans [OF interfere_frame])
qed simp

lemma env_wakes_frame: "w' \<in> set (env_wakes w) \<Longrightarrow> lane_frame w w'"
  by (simp add: env_wakes_def env_wakes_n_frame)

lemma timed_wakes_frame:
  assumes "(w', b) \<in> set (timed_wakes d w)"
  shows "lane_frame w w'"
proof -
  have l: "lane_frame w (last (w # env_wakes w))"
    using env_wakes_frame [of "last (env_wakes w)" w] by (auto simp: last_in_set)
  have "lane_frame v (v\<lparr>w_clock := max (w_clock v) d\<rparr>)" for v
    by (simp add: lane_frame_def clock_le)
  then have "lane_frame w ((last (w # env_wakes w))\<lparr>w_clock := max (w_clock (last (w # env_wakes w))) d\<rparr>)"
    using l lane_frame_trans by blast
  then show ?thesis using assms by (auto simp: timed_wakes_def Let_def intro: env_wakes_frame)
qed

abbreviation taken :: "RequestPtr option \<Rightarrow> RequestPtr list" where
  "taken r \<equiv> (case r of None \<Rightarrow> [] | Some p \<Rightarrow> [p])"

lemma pop_in_takes:
  assumes "pop_in (\<lambda>w. w_lane w k) (set_lane k) w = (r, w')"
  shows "takes k (taken r) w w'"
proof (cases "bq_queue (w_lane w k)")
  case Nil
  then have "r = None" "w' = w"
    using assms lane.pop_in_empty [of w k] by simp_all
  then show ?thesis by (simp add: takes_none)
next
  case (Cons p ps)
  then have r: "r = Some p" "w' = set_lane k ((w_lane w k)\<lparr>bq_queue := ps\<rparr>) w"
    using assms by (simp_all add: pop_in_def pop_front_or_none_def)
  have "world_le w w'"
    unfolding r(2) by (rule set_lane_le) (auto simp: bq_inv_def Cons)
  then show ?thesis
    using r Cons by (auto simp: takes_def lane_length_def waiting_def set_lane_def)
qed

lemma lane_wait_pop_takes:
  assumes "lane_wait_pop k w = Some (r, w')"
  shows "takes k (taken r) w w'"
proof -
  let ?w1 = "interfere w"
  obtain rest where p: "wait_pop (\<lambda>w. w_lane w k) (set_lane k) (env_wakes ?w1) ?w1 = Some (r, w', rest)"
    using assms by (auto simp: lane_wait_pop_def Let_def)
  obtain s where s: "cv_wait (\<lambda>w. bq_queue (w_lane w k) \<noteq> [] \<or> bq_closed (w_lane w k)) (env_wakes ?w1) ?w1 = Some (s, rest)"
    "pop_in (\<lambda>w. w_lane w k) (set_lane k) s = (r, w')"
    by (rule lane.wait_pop_Some [OF p])
  have "s \<in> insert ?w1 (set (env_wakes ?w1))" using cv_wait_Some [OF s(1)] by auto
  then have "lane_frame ?w1 s" using env_wakes_frame by auto
  then show ?thesis using frame_takes [OF lane_frame_trans [OF interfere_frame] pop_in_takes [OF s(2)]] by blast
qed

lemma lane_pop_until_answers:
  "\<exists>r w2 rest. wait_pop_until (\<lambda>w. w_lane w k) (set_lane k) (timed_wakes d w) w = Some (r, w2, rest)"
  using timed_wait_answers [of "\<lambda>s. \<not> (bq_queue (w_lane s k) = [] \<and> \<not> bq_closed (w_lane s k))" d w w]
  by (auto simp: wait_pop_until_def split: option.splits prod.splits)

lemma lane_pop_until_takes:
  assumes "lane_pop_until k d w = (r, w')"
  shows "takes k (taken r) w w'"
proof -
  let ?w1 = "interfere w"
  obtain rest where p: "wait_pop_until (\<lambda>w. w_lane w k) (set_lane k) (timed_wakes d ?w1) ?w1 = Some (r, w', rest)"
    using assms lane_pop_until_answers [of k d ?w1] by (auto simp: lane_pop_until_def Let_def)
  then obtain t s where s: "cv_wait_until (\<lambda>s. \<not> (bq_queue (w_lane s k) = [] \<and> \<not> bq_closed (w_lane s k)))
      (timed_wakes d ?w1) ?w1 = Some (t, s, rest)"
    "pop_in (\<lambda>w. w_lane w k) (set_lane k) s = (r, w')"
    by (auto simp: wait_pop_until_def split: option.splits prod.splits)
  have "s = ?w1 \<or> (\<exists>b. (s, b) \<in> set (timed_wakes d ?w1))" 
    using cv_wait_until_Some [OF s(1)] by (cases t) force+
  then have "lane_frame ?w1 s" using timed_wakes_frame by auto
  then show ?thesis using frame_takes [OF lane_frame_trans [OF interfere_frame] pop_in_takes [OF s(2)]] by blast
qed

lemma queued_count_frame: "lane_frame w (w\<lparr>w_queued_count := c\<rparr>)"
  by (auto simp: lane_frame_def world_le_def)

lemma queued_sub_frame: "lane_frame w (queued_sub k n w)"
  using lane_frame_trans [OF interfere_frame queued_count_frame] by (simp add: queued_sub_def Let_def)

lemma queued_add_frame: "lane_frame w (queued_add k n w)"
  using lane_frame_trans [OF interfere_frame queued_count_frame] by (simp add: queued_add_def Let_def)

lemma discard_frame: "lane_frame w (discard_queued_request k w)"
  using lane_frame_trans [OF interfere_frame queued_sub_frame] interfere_frame
  by (simp add: discard_queued_request_def Let_def)

lemma takes_smaller:
  assumes "takes k (p # ps) w w'"
  shows "length (w_env w') < length (w_env w) \<or>
    length (w_env w') = length (w_env w) \<and> lane_length k w' < lane_length k w"
proof -
  have "world_le w w'" using assms by (simp add: takes_def)
  then obtain es where "w_env w = es @ w_env w'" using world_le_env by blast
  then show ?thesis using assms by (cases es) (auto simp: takes_def)
qed

lemma takes_dead:
  assumes "takes k [p] w w'" "\<forall>a. p = Some a \<longrightarrow> is_terminal (w_reqs w' a)"
  shows "takes k [] w w'"
  using assms by (auto simp: takes_def waiting_def)

section \<open>The loop of the thread\<close>

lemma pop_live_smaller:
  assumes pop: "lane_pop_until k d w = (Some p, w1)" and dead: "is_dead_request p w1 = (dead, w2)"
  shows "((k, d, discard_queued_request k w2), (k, d, w)) \<in>
    measures [\<lambda>(k, d, w). length (w_env w), \<lambda>(k, d, w). lane_length k w]"
proof -
  have "takes k [p] w w1" using lane_pop_until_takes [OF pop] by simp
  moreover have "lane_frame w1 (discard_queued_request k w2)"
    using is_dead_request_frame [of w1 p] dead lane_frame_trans [OF _ discard_frame] by simp
  ultimately have "takes k [p] w (discard_queued_request k w2)" by (rule takes_frame)
  then show ?thesis using takes_smaller by fastforce
qed

text \<open>The source of further requests that \<^verbatim>\<open>run_loop\<close> gives to the batch builder.\<close>

function pop_live :: "WorkerId \<Rightarrow> pop_until_fn" where
  "pop_live k deadline w =
     (case lane_pop_until k deadline w of
        (None, w1) \<Rightarrow> (None, w1)
      | (Some p, w1) \<Rightarrow>
          (case is_dead_request p w1 of (dead, w2) \<Rightarrow>
             if \<not> dead then (Some p, w2) else pop_live k deadline (discard_queued_request k w2)))"
  by pat_completeness auto
termination
  by (relation "measures [\<lambda>(k, d, w). length (w_env w), \<lambda>(k, d, w). lane_length k w]")
    (simp, hypsubst, erule (1) pop_live_smaller [OF sym sym])

declare pop_live.simps [simp del]

definition check_extra :: "WorkerId \<Rightarrow> extra_request_fn" where
  "check_extra k p w =
     (case is_dead_request p w of (dead, w1) \<Rightarrow>
        if dead then (False, discard_queued_request k w1) else (True, w1))"

text \<open>
  One turn of the loop on a request; \<open>None\<close> would be a null pointer dereferenced by the batch
  builder.
\<close>

definition serve ::
  "(ModelSpec \<Rightarrow> 'b \<Rightarrow> Status \<times> 'b) \<Rightarrow> (string \<Rightarrow> 'b \<Rightarrow> Status \<times> 'b) \<Rightarrow> 'b infer_fn \<Rightarrow>
   RequestPtr \<Rightarrow> 'b Worker \<times> World \<Rightarrow> ('b Worker \<times> World) option" where
  "serve load unload infer_batch first ws =
     (case ws of (wk, w) \<Rightarrow>
      let k = wk_worker_id wk in
      case is_dead_request first w of (dead, w1) \<Rightarrow>
        if dead then Some (wk, discard_queued_request k w1)
        else
          (let w2 = interfere w1; allow_wait = (\<not> bq_closed (w_lane w2 k)) in
           case form (wk_batch_builder wk) first (pop_live k) allow_wait (Some (check_extra k)) w2 of
             None \<Rightarrow> None
           | Some (formed, w3) \<Rightarrow>
               (let wk1 = (case fb_deferred formed of None \<Rightarrow> wk | Some p \<Rightarrow> wk\<lparr>wk_deferred := Some p\<rparr>) in
                if fb_requests formed = [] then Some (wk1, w3)
                else
                  (case filter_live_batch (fb_requests formed) w3 of (live, w4) \<Rightarrow>
                   let removed = length (fb_requests formed) - length live;
                       w5 = (if removed > 0 then queued_sub k (of_nat removed) w4 else w4)
                   in if live = [] then Some (wk1, w5)
                      else Some (snd (execute_batch load unload infer_batch (map Some live) (wk1, w5)))))))"

text \<open>
  The head of the loop: the deferred request if there is one, otherwise the next of the lane.
  The outer \<open>None\<close> means that the thread sleeps; the inner one that the lane is closed and empty.
\<close>

definition take_first :: "'b Worker \<times> World \<Rightarrow> (RequestPtr option \<times> 'b Worker \<times> World) option" where
  "take_first ws =
     (case ws of (wk, w) \<Rightarrow>
      case wk_deferred wk of
        Some p \<Rightarrow> Some (Some p, wk\<lparr>wk_deferred := None\<rparr>, w)
      | None \<Rightarrow> map_option (\<lambda>(r, w1). (r, wk, w1)) (lane_wait_pop (wk_worker_id wk) w))"

section \<open>Running a batch leaves the lanes alone\<close>

lemma filter_live_frame: "lane_frame w (snd (filter_live_batch ps w))"
proof (induction ps arbitrary: w)
  case (Cons p ps)
  have "lane_frame w (snd (is_dead_request p w))" by (rule is_dead_request_frame)
  also have "lane_frame (snd (is_dead_request p w)) (snd (filter_live_batch ps (snd (is_dead_request p w))))"
    by (rule Cons)
  finally show ?case by (simp add: case_prod_beta)
qed simp

lemma fail_loop_frame: "lane_frame w (fail_loop e as w)"
proof (induction as arbitrary: w)
  case (Cons a as)
  have step: "lane_frame w v \<Longrightarrow> lane_frame w (fail_loop e as v)" for v
    using Cons lane_frame_trans by blast
  obtain r w1 where 1: "read_req a w = (r, w1)" by fastforce
  obtain r1 w2 where 2: "read_req a w1 = (r1, w2)" by fastforce
  define w3 where "w3 = (if rq_state r1 = Queued then snd (transition_to Running a w2) else w2)"
  obtain r2 w4 where 4: "read_req a w3 = (r2, w4)" by fastforce
  have f1: "lane_frame w w1" using read_req_frame [of w a] 1 by simp
  also have "lane_frame w1 w2" using read_req_frame [of w1 a] 2 by simp
  also have "lane_frame w2 w3" by (simp add: w3_def transition_to_frame)
  also have "lane_frame w3 w4" using read_req_frame [of w3 a] 4 by simp
  finally have f4: "lane_frame w w4" .
  then have "lane_frame w (snd (try_fail e a w4))" using lane_frame_trans try_frame by blast
  then show ?case
    using 1 2 4 step [OF f1] step [OF f4] step by (simp add: w3_def [symmetric] Let_def)
qed simp

lemma fail_live_frame: "lane_frame w (fail_live e as w)"
proof (induction as arbitrary: w)
  case (Cons a as)
  obtain r w1 where 1: "read_req a w = (r, w1)" by fastforce
  have f1: "lane_frame w w1" using read_req_frame [of w a] 1 by simp
  moreover have "lane_frame w (snd (try_fail e a w1))" using f1 lane_frame_trans try_frame by blast
  ultimately show ?case using 1 lane_frame_trans [OF _ Cons] by simp
qed simp

lemma deliver_frame: "lane_frame w (snd (deliver rs st w))"
proof (induction rs arbitrary: st w)
  case (Cons x rs)
  obtain a res where x: "x = (a, res)" by fastforce
  obtain r w1 where 1: "read_req a w = (r, w1)" by fastforce
  obtain d w2 where 2: "try_fail (res_status res) a w1 = (d, w2)" by fastforce
  obtain c w3 where 3: "try_complete res a w1 = (c, w3)" by fastforce
  have f1: "lane_frame w w1" using read_req_frame [of w a] 1 by simp
  have f2: "lane_frame w w2" using f1 try_frame(2) [of w1 "res_status res" a] 2 lane_frame_trans by fastforce
  have f3: "lane_frame w w3" using f1 try_frame(1) [of w1 res a] 3 lane_frame_trans by fastforce
  show ?case
    using x 1 2 3 lane_frame_trans [OF f1 Cons] lane_frame_trans [OF f2 Cons] lane_frame_trans [OF f3 Cons]
    by simp
qed simp

lemma start_running_frame: "lane_frame w (snd (start_running as w))"
proof (induction as arbitrary: w)
  case (Cons a as)
  obtain d w1 where 1: "is_dead_request (Some a) w = (d, w1)" by fastforce
  obtain st w2 where 2: "transition_to Running a w1 = (st, w2)" by fastforce
  have f1: "lane_frame w w1" using is_dead_request_frame [of w "Some a"] 1 by simp
  have f2: "lane_frame w w2" using f1 transition_to_frame [of w1 Running a] 2 lane_frame_trans by fastforce
  show ?case using 1 2 f2 lane_frame_trans [OF f1 Cons] lane_frame_trans [OF f2 Cons] by simp
qed simp

end
