(* ===== verification/AR_Worker_Loop.thy ===== *)
theory AR_Worker_Loop
  imports AR_Worker
begin

text \<open>
  The loop of a worker's thread (\<^verbatim>\<open>Worker::run_loop\<close>) as a total function, and what it
  guarantees whatever the other threads do in between: every request that waits in the lane
  gets settled before the thread stops or sleeps, and the worker is idle then.
\<close>

section \<open>What running a batch leaves as it was\<close>

definition same_worker :: "'b Worker \<Rightarrow> 'b Worker \<Rightarrow> bool" where
  "same_worker wk wk' \<longleftrightarrow>
     wk_worker_id wk' = wk_worker_id wk \<and> wk_queue_capacity wk' = wk_queue_capacity wk \<and>
     wk_batch_builder wk' = wk_batch_builder wk \<and> wk_deferred wk' = wk_deferred wk \<and>
     wk_started wk' = wk_started wk \<and> wk_thread wk' = wk_thread wk"

lemma same_worker_simps [simp]:
  "same_worker wk wk" "same_worker wk (restore_idle wk') = same_worker wk wk'"
  "same_worker wk (set_busy n wk') = same_worker wk wk'"
  "same_worker wk (record_batch_metrics n wk') = same_worker wk wk'"
  "same_worker wk (wk'\<lparr>wk_backend := b\<rparr>) = same_worker wk wk'"
  "same_worker wk (wk'\<lparr>wk_model_manager := m\<rparr>) = same_worker wk wk'"
  "same_worker (restore_idle wk) wk' = same_worker wk wk'"
  "same_worker (set_busy n wk) wk' = same_worker wk wk'"
  "same_worker (wk\<lparr>wk_backend := b\<rparr>) wk' = same_worker wk wk'"
  "same_worker (wk\<lparr>wk_model_manager := m\<rparr>) wk' = same_worker wk wk'"
  by (simp_all add: same_worker_def restore_idle_def set_busy_def record_batch_metrics_def Let_def)

lemma run_inference_frame:
  assumes "run_inference infer batch (wk, w) = (st, wk', w')"
  shows "lane_frame w w' \<and> same_worker wk wk'"
proof -
  have "lane_frame w (fail_loop e as (interfere w))" "lane_frame w (fail_live e as (interfere w))"
    "lane_frame w (snd (deliver rs s (interfere w)))" for e as rs s
    using lane_frame_trans [OF interfere_frame] fail_loop_frame fail_live_frame deliver_frame by blast+
  then show ?thesis
    using assms
    by (auto simp: run_inference_def fail_all_def Let_def split: prod.splits sum.splits if_splits)
      (metis snd_conv)
qed

text \<open>The ways a batch can go after its requests have been taken to \<open>Running\<close>.\<close>

lemma run_liveE:
  assumes "run_live load unload infer batch (wk, w) = (st, wk', w')"
  obtains (Empty) "filter_live_batch (map Some batch) w = ([], w')" "wk' = restore_idle wk"
  | (Refused) live w1 wk1 where "filter_live_batch (map Some batch) w = (live, w1)" "same_worker wk wk1"
      "wk' = restore_idle wk1" "w' = fail_live st live (interfere w1)"
  | (Emptied) live w1 wk1 where "filter_live_batch (map Some batch) w = (live, w1)" "same_worker wk wk1"
      "filter_live_batch (map Some live) (interfere w1) = ([], w')" "wk' = restore_idle wk1"
  | (Run) live w1 wk1 live2 w3 where "filter_live_batch (map Some batch) w = (live, w1)" "same_worker wk wk1"
      "filter_live_batch (map Some live) (interfere w1) = (live2, w3)"
      "run_inference infer live2 (wk1, w3) = (st, wk', w')"
proof -
  obtain live w1 where 1: "filter_live_batch (map Some batch) w = (live, w1)" by fastforce
  show thesis
  proof (cases live)
    case Nil
    then show thesis using assms 1 Empty by (simp add: run_live_def)
  next
    case (Cons a as)
    obtain rst m b where 2: "ensure_resident load unload (rq_model_id (w_reqs w1 a))
        (wk_model_manager wk, wk_backend wk) = (rst, m, b)" by (metis prod.exhaust)
    obtain live2 w3 where 3: "filter_live_batch (map Some live) (interfere w1) = (live2, w3)" by fastforce
    let ?wk1 = "wk\<lparr>wk_model_manager := m, wk_backend := b\<rparr>"
    have run: "(st, wk', w') = (if \<not> status_ok rst
        then (rst, restore_idle (record_batch_metrics (length live) ?wk1), fail_live rst live (interfere w1))
        else (case live2 of [] \<Rightarrow> (status_success, restore_idle ?wk1, w3)
              | _ \<Rightarrow> run_inference infer live2 (?wk1, w3)))"
      using assms 1 2 3 Cons
      by (cases "status_ok rst"; cases live2) (simp_all add: run_live_def Let_def del: filter_live_batch.simps fail_live.simps list.map)
    show thesis
    proof (cases "status_ok rst")
      case False
      then show thesis
        using run Refused [OF 1, of "record_batch_metrics (length live) ?wk1"] by (simp del: fail_live.simps)
    next
      case True
      then show thesis
        using run 3 Emptied [OF 1, of ?wk1] Run [OF 1, of ?wk1] by (cases live2) simp_all
    qed
  qed
qed

lemma run_live_frame:
  assumes "run_live load unload infer batch (wk, w) = (st, wk', w')"
  shows "lane_frame w w' \<and> same_worker wk wk'"
  using assms
proof (cases rule: run_liveE)
  case Empty
  then show ?thesis using filter_live_frame [of w "map Some batch"] by simp
next
  case (Refused live w1 wk1)
  have "lane_frame w w1" using filter_live_frame [of w "map Some batch"] Refused(1) by simp
  then show ?thesis
    using Refused lane_frame_trans [OF _ lane_frame_trans [OF interfere_frame fail_live_frame]] by simp
next
  case (Emptied live w1 wk1)
  have "lane_frame w w1" using filter_live_frame [of w "map Some batch"] Emptied(1) by simp
  moreover have "lane_frame (interfere w1) w'"
    using filter_live_frame [of "interfere w1" "map Some live"] Emptied(3) by simp
  ultimately show ?thesis using Emptied lane_frame_trans [OF _ lane_frame_trans [OF interfere_frame]] by simp
next
  case (Run live w1 wk1 live2 w3)
  have "lane_frame w w1" using filter_live_frame [of w "map Some batch"] Run(1) by simp
  moreover have "lane_frame (interfere w1) w3"
    using filter_live_frame [of "interfere w1" "map Some live"] Run(3) by simp
  ultimately have "lane_frame w w3" using lane_frame_trans [OF _ lane_frame_trans [OF interfere_frame]] by blast
  then show ?thesis
    using run_inference_frame [OF Run(4)] Run(2) lane_frame_trans unfolding same_worker_def by metis
qed

lemma execute_batch_frame:
  assumes "execute_batch load unload infer ps (wk, w) = (st, wk', w')"
  shows "lane_frame w w' \<and> same_worker wk wk'"
proof -
  obtain batch w1 where 1: "filter_live_batch ps w = (batch, w1)" by fastforce
  define w2 where "w2 = queued_sub (wk_worker_id wk) (of_nat (length batch)) w1"
  obtain r w3 where 3: "start_running batch w2 = (r, w3)" by fastforce
  have f1: "lane_frame w w1" using filter_live_frame [of w ps] 1 by simp
  have "lane_frame w w2" unfolding w2_def using f1 lane_frame_trans queued_sub_frame by blast
  then have f3: "lane_frame w w3" using start_running_frame [of w2 batch] 3 lane_frame_trans by fastforce
  show ?thesis
  proof (cases "batch = []")
    case True
    then show ?thesis using assms 1 f1 by (simp add: execute_batch_def)
  next
    case ne: False
    show ?thesis
    proof (cases r)
      case (Some e)
      then show ?thesis
        using assms 1 3 ne lane_frame_trans [OF f3 fail_loop_frame]
        by (auto simp: execute_batch_def fail_all_def w2_def Let_def)
    next
      case None
      then have "run_live load unload infer batch (set_busy (length batch) wk, w3) = (st, wk', w')"
        using assms 1 3 ne by (simp add: execute_batch_def w2_def Let_def)
      from run_live_frame [OF this] show ?thesis using f3 lane_frame_trans by auto
    qed
  qed
qed

section \<open>The batch builder on a worker's lane\<close>

lemma pop_live_spec:
  "pop_live k d w = (r, w') \<Longrightarrow>
   takes k (taken r) w w' \<and> (\<forall>p. r = Some p \<longrightarrow> p \<noteq> None)"
proof (induction k d w rule: pop_live.induct)
  case (1 k d w)
  obtain r1 w1 where pop: "lane_pop_until k d w = (r1, w1)" by fastforce
  show ?case
  proof (cases r1)
    case None
    then show ?thesis using 1(2) pop lane_pop_until_takes [OF pop] by (simp add: pop_live.simps [of k d w])
  next
    case (Some p)
    obtain dead w2 where dead: "is_dead_request p w1 = (dead, w2)" by fastforce
    have t1: "takes k [p] w w1" using lane_pop_until_takes [OF pop] Some by simp
    have t2: "takes k [p] w w2" using takes_frame [OF t1] is_dead_request_frame [of w1 p] dead by simp
    show ?thesis
    proof (cases dead)
      case False
      then have "r = Some p" "w' = w2" using 1(2) pop Some dead by (simp_all add: pop_live.simps [of k d w])
      then show ?thesis using t2 dead False is_dead_request_False by fastforce
    next
      case True
      define w3 where "w3 = discard_queued_request k w2"
      have "\<forall>a. p = Some a \<longrightarrow> is_terminal (w_reqs w2 a)" 
        using is_dead_request_True [of _ w1 w2] dead True by auto
      then have "takes k [] w w2" using takes_dead [OF t2] by blast
      then have t3: "takes k [] w w3" unfolding w3_def by (rule takes_frame [OF _ discard_frame])
      have "pop_live k d w3 = (r, w')"
        using 1(2) pop Some dead True by (simp add: pop_live.simps [of k d w] w3_def)
      then have "takes k (taken r) w3 w' \<and> (\<forall>p. r = Some p \<longrightarrow> p \<noteq> None)"
        using 1(1) [OF pop [symmetric] Some dead [symmetric]] True by (simp add: w3_def)
      then show ?thesis using takes_trans [OF t3] by fastforce
    qed
  qed
qed

lemma check_extra_frame: "lane_frame w (snd (check_extra k p w))"
  using is_dead_request_frame [of w p] lane_frame_trans [OF _ discard_frame]
  by (auto simp: check_extra_def split: prod.splits)

interpretation lane_source: batch_source k "pop_live k" "check_extra k" for k
  by unfold_locales (use pop_live_spec check_extra_frame in blast)+



section \<open>Every request of a batch gets settled\<close>

text \<open>
  The rank of a request's state only falls: 2 means queued or further, 1 running or settled,
  0 settled. Nothing is assumed about what other threads do to the requests.
\<close>

abbreviation rank_of :: "addr \<Rightarrow> World \<Rightarrow> nat" where
  "rank_of a w \<equiv> rank (rq_state (w_reqs w a))"

lemma rank_of_terminal: "is_terminal (w_reqs w a) \<longleftrightarrow> rank_of a w = 0"
  by (simp add: is_terminal_def rank_terminal)

lemma world_le_rank: "world_le w w' \<Longrightarrow> rank_of a w' \<le> rank_of a w"
  using world_le_evolves [of w w' a] by (simp add: evolves_def)

lemma lane_frame_rank: "lane_frame w w' \<Longrightarrow> rank_of a w \<le> n \<Longrightarrow> rank_of a w' \<le> n"
  using world_le_rank [OF lane_frame_le] le_trans by blast

lemma lane_frame_terminal: "lane_frame w w' \<Longrightarrow> is_terminal (w_reqs w a) \<Longrightarrow> is_terminal (w_reqs w' a)"
  using world_le_terminal [OF lane_frame_le] .

lemma rank_past_queued: "rank s \<le> 2 \<Longrightarrow> s \<noteq> Queued \<Longrightarrow> rank s \<le> 1"
  by (cases s) simp_all

lemma perform_settle_terminal:
  assumes "rank_of a w \<le> 1" and x: "x = OpFail e \<or> x = OpComplete res"
  shows "is_terminal (w_reqs (snd (perform x a w)) a)"
proof (cases "is_terminal (w_reqs (interfere w) a)")
  case True
  have "lane_frame (interfere w) (snd (perform x a w)) \<or> snd (perform x a w) = interfere w"
  proof (cases "op_locked x (w_reqs (interfere w) a)")
    case (Some y)
    then have False
      using True x by (cases y) (auto simp: settle_defs settle_locked_Some_iff is_terminal_def terminal_no_transition)
    then show ?thesis ..
  qed (simp add: perform_def Let_def)
  then show ?thesis using True lane_frame_terminal by auto
next
  case False
  have "rank_of a (interfere w) \<le> 1" using lane_frame_rank [OF interfere_frame] assms(1) by blast
  then have run: "rq_state (w_reqs (interfere w) a) = Running"
    using False by (cases "rq_state (w_reqs (interfere w) a)") (auto simp: is_terminal_def)
  obtain r n where r: "op_locked x (w_reqs (interfere w) a) = Some (r, n)" "is_terminal r"
    using x run
    by (auto simp: settle_defs settle_locked_def try_transition_to_locked_def is_valid_transition_def
        is_terminal_def Let_def)
  then show ?thesis using perform_terminal [of x a w] by (metis prod.collapse)
qed

lemma try_fail_terminal: "rank_of a w \<le> 1 \<Longrightarrow> is_terminal (w_reqs (snd (try_fail e a w)) a)"
  unfolding try_fail_def by (rule perform_settle_terminal) simp_all

lemma try_complete_terminal: "rank_of a w \<le> 1 \<Longrightarrow> is_terminal (w_reqs (snd (try_complete res a w)) a)"
  unfolding try_complete_def by (rule perform_settle_terminal) simp_all

lemma transition_running_rank:
  assumes "rank_of a w \<le> 2"
  shows "rank_of a (snd (transition_to Running a w)) \<le> 1"
proof -
  let ?w1 = "interfere w"
  have 2: "rank_of a ?w1 \<le> 2" using lane_frame_rank [OF interfere_frame] assms by blast
  show ?thesis
  proof (cases "op_locked (OpTransition Running) (w_reqs ?w1 a)")
    case None
    then have "rq_state (w_reqs ?w1 a) \<noteq> Queued"
      by (auto simp: transition_locked_def try_transition_to_locked_def is_valid_transition_def split: if_splits)
    then have "rank_of a ?w1 \<le> 1" using 2 rank_past_queued by blast
    then show ?thesis using None by (simp add: transition_to_snd perform_def Let_def)
  next
    case (Some y)
    obtain r obs sn where y: "y = (r, (obs, sn))" by (cases y) auto
    have "rq_state r = Running"
      using Some y by (auto simp: transition_locked_def try_transition_to_locked_def notify_observers_locked_def
          split: if_splits)
    then have "rank_of a (interfere (?w1\<lparr>w_reqs := (w_reqs ?w1)(a := r)\<rparr>)) \<le> 1"
      by (intro lane_frame_rank [OF interfere_frame]) simp
    then show ?thesis using Some y by (simp add: transition_to_snd perform_def Let_def)
  qed
qed

lemma fail_loop_terminal:
  "a \<in> set as \<Longrightarrow> rank_of a w \<le> 2 \<Longrightarrow> is_terminal (w_reqs (fail_loop e as w) a)"
proof (induction as arbitrary: w)
  case (Cons b as)
  obtain r w1 where 1: "read_req b w = (r, w1)" by fastforce
  obtain r1 w2 where 2: "read_req b w1 = (r1, w2)" by fastforce
  define w3 where "w3 = (if rq_state r1 = Queued then snd (transition_to Running b w2) else w2)"
  obtain r2 w4 where 4: "read_req b w3 = (r2, w4)" by fastforce
  define w5 where "w5 = (if \<not> is_terminal r2 then snd (try_fail e b w4) else w4)"
  have r: "r = w_reqs w1 b" "r1 = w_reqs w2 b" "r2 = w_reqs w4 b"
    using 1 2 4 by (auto simp: read_req_def Let_def)
  have f1: "lane_frame w w1" using read_req_frame [of w b] 1 by simp
  have f2: "lane_frame w1 w2" using read_req_frame [of w1 b] 2 by simp
  have f3: "lane_frame w2 w3" by (simp add: w3_def transition_to_frame)
  have f4: "lane_frame w3 w4" using read_req_frame [of w3 b] 4 by simp
  have f5: "lane_frame w4 w5" by (simp add: w5_def try_frame)
  have f: "lane_frame w w2" "lane_frame w w5"
    using f1 f2 f3 f4 f5 lane_frame_trans by blast+
  have loop: "fail_loop e (b # as) w = (if is_terminal r then fail_loop e as w1 else fail_loop e as w5)"
    using 1 2 4 by (simp add: w3_def [symmetric] w5_def Let_def)
  show ?case
  proof (cases "a = b")
    case True
    show ?thesis
    proof (cases "is_terminal r")
      case True
      then show ?thesis using loop r(1) \<open>a = b\<close> lane_frame_terminal [OF fail_loop_frame] by simp
    next
      case False
      have "rank_of b w2 \<le> 2" using lane_frame_rank [OF f(1)] Cons.prems(2) \<open>a = b\<close> by simp
      then have "rank_of b w3 \<le> 1"
        using transition_running_rank [of w2 b] rank_past_queued by (auto simp: w3_def r(2))
      then have "rank_of b w4 \<le> 1" using lane_frame_rank [OF f4] by blast
      then have "is_terminal (w_reqs w5 b)" using try_fail_terminal r(3) by (auto simp: w5_def)
      then show ?thesis using loop False \<open>a = b\<close> lane_frame_terminal [OF fail_loop_frame] by simp
    qed
  next
    case False
    then show ?thesis
      using Cons.IH [of w1] Cons.IH [of w5] Cons.prems loop lane_frame_rank [OF f1] lane_frame_rank [OF f(2)]
      by simp
  qed
qed simp

lemma fail_live_terminal:
  "a \<in> set as \<Longrightarrow> rank_of a w \<le> 1 \<Longrightarrow> is_terminal (w_reqs (fail_live e as w) a)"
proof (induction as arbitrary: w)
  case (Cons b as)
  obtain r w1 where 1: "read_req b w = (r, w1)" by fastforce
  define w2 where "w2 = (if \<not> is_terminal r then snd (try_fail e b w1) else w1)"
  have r: "r = w_reqs w1 b" using 1 by (auto simp: read_req_def Let_def)
  have f1: "lane_frame w w1" using read_req_frame [of w b] 1 by simp
  have f2: "lane_frame w w2" using f1 lane_frame_trans [OF f1 try_frame(2) [of w1 e b]] by (simp add: w2_def)
  have loop: "fail_live e (b # as) w = fail_live e as w2" using 1 by (simp add: w2_def)
  show ?case
  proof (cases "a = b")
    case True
    have "rank_of b w1 \<le> 1" using lane_frame_rank [OF f1] Cons.prems(2) True by simp
    then have "is_terminal (w_reqs w2 b)" using try_fail_terminal r by (auto simp: w2_def)
    then show ?thesis using loop True lane_frame_terminal [OF fail_live_frame] by simp
  next
    case False
    then show ?thesis using Cons.IH [of w2] Cons.prems loop lane_frame_rank [OF f2] by simp
  qed
qed simp

lemma deliver_terminal:
  "a \<in> fst ` set rs \<Longrightarrow> rank_of a w \<le> 1 \<Longrightarrow> is_terminal (w_reqs (snd (deliver rs st w)) a)"
proof (induction rs arbitrary: st w)
  case (Cons x rs)
  obtain b res where x: "x = (b, res)" by fastforce
  obtain r w1 where 1: "read_req b w = (r, w1)" by fastforce
  obtain d w2 where 2: "try_fail (res_status res) b w1 = (d, w2)" by fastforce
  obtain c w3 where 3: "try_complete res b w1 = (c, w3)" by fastforce
  have r: "r = w_reqs w1 b" using 1 by (auto simp: read_req_def Let_def)
  have f1: "lane_frame w w1" using read_req_frame [of w b] 1 by simp
  obtain v st' where v: "deliver (x # rs) st w = deliver rs st' v" "v = w1 \<and> is_terminal r \<or> v = w2 \<or> v = w3"
    using x 1 2 3 by (cases "is_terminal r"; cases "result_ok res") auto
  have fv: "lane_frame w v"
    using v(2) f1 lane_frame_trans [OF f1 try_frame(2) [of w1 "res_status res" b]]
      lane_frame_trans [OF f1 try_frame(1) [of w1 res b]] 2 3 by auto
  show ?case
  proof (cases "a = b")
    case True
    have "rank_of b w1 \<le> 1" using lane_frame_rank [OF f1] Cons.prems(2) True by simp
    then have "is_terminal (w_reqs v b)"
      using v(2) r try_fail_terminal [of w1 b "res_status res"] try_complete_terminal [of w1 b res] 2 3 by auto
    then show ?thesis using v(1) True lane_frame_terminal [OF deliver_frame] by simp
  next
    case False
    then show ?thesis using Cons.IH [of v st'] Cons.prems v(1) x lane_frame_rank [OF fv] by auto
  qed
qed simp

lemma start_running_rank:
  "start_running as w = (None, w') \<Longrightarrow> a \<in> set as \<Longrightarrow> rank_of a w \<le> 2 \<Longrightarrow> rank_of a w' \<le> 1"
proof (induction as arbitrary: w)
  case (Cons b as)
  obtain d w1 where 1: "is_dead_request (Some b) w = (d, w1)" by fastforce
  obtain st w2 where 2: "transition_to Running b w1 = (st, w2)" by fastforce
  have f1: "lane_frame w w1" using is_dead_request_frame [of w "Some b"] 1 by simp
  have f2: "lane_frame w w2" using lane_frame_trans [OF f1 transition_to_frame [of w1 Running b]] 2 by simp
  obtain v where v: "start_running as v = (None, w')" "v = w1 \<and> d \<or> v = w2"
    using Cons.prems(1) 1 2 by (auto split: if_splits)
  have fv: "lane_frame w v" using v(2) f1 f2 by auto
  show ?case
  proof (cases "a = b")
    case True
    have "rank_of b w1 \<le> 2" using lane_frame_rank [OF f1] Cons.prems(3) True by simp
    then have "rank_of b v \<le> 1"
      using v(2) transition_running_rank [of w1 b] 2 is_dead_request_sound [OF 1] by (auto simp: rank_of_terminal)
    then show ?thesis
      using True lane_frame_rank [OF start_running_frame [of v as]] v(1) by simp
  next
    case False
    then show ?thesis using Cons.IH [OF v(1)] Cons.prems lane_frame_rank [OF fv] by auto
  qed
qed simp

lemma filter_live_terminal:
  "filter_live_batch ps w = (live, w') \<Longrightarrow> Some a \<in> set ps \<Longrightarrow> a \<in> set live \<or> is_terminal (w_reqs w' a)"
proof (induction ps arbitrary: w live)
  case (Cons p ps)
  obtain d w1 where 1: "is_dead_request p w = (d, w1)" by fastforce
  obtain live1 where 2: "filter_live_batch ps w1 = (live1, w')" "live = (if d then live1 else the p # live1)"
    using Cons.prems(1) 1 by (auto split: prod.splits)
  show ?case
  proof (cases "p = Some a")
    case True
    then have "d \<Longrightarrow> is_terminal (w_reqs w1 a)" using is_dead_request_sound 1 by blast
    then show ?thesis
      using 2 True lane_frame_terminal [OF filter_live_frame [of w1 ps]] by auto
  next
    case False
    then show ?thesis using Cons.IH [OF 2(1)] Cons.prems(2) 2(2) by auto
  qed
qed simp

lemma filter_live_subset: "filter_live_batch ps w = (live, w') \<Longrightarrow> Some ` set live \<subseteq> set ps"
proof (induction ps arbitrary: w live)
  case (Cons p ps)
  obtain d w1 where 1: "is_dead_request p w = (d, w1)" by fastforce
  obtain live1 where 2: "filter_live_batch ps w1 = (live1, w')" "live = (if d then live1 else the p # live1)"
    using Cons.prems 1 by (auto split: prod.splits)
  have "p \<noteq> None" if "\<not> d" using 1 that by (cases p) auto
  then show ?case using Cons.IH [OF 2(1)] 2(2) by auto
qed simp

definition idle :: "'b Worker \<Rightarrow> bool" where
  "idle wk \<longleftrightarrow> wk_state wk = Idle \<and> wk_active_count wk = 0"

lemma idle_restore [simp]: "idle (restore_idle wk)"
  by (simp add: idle_def restore_idle_def)

lemma run_inference_settles:
  assumes "run_inference infer batch (wk, w) = (st, wk', w')"
  shows "idle wk' \<and> (\<forall>a \<in> set batch. rank_of a w \<le> 1 \<longrightarrow> is_terminal (w_reqs w' a))"
proof -
  obtain res b where i: "infer (map (\<lambda>a. Some (w_reqs w a)) batch) (wk_backend wk) = (res, b)" by fastforce
  have r1: "rank_of a (interfere w) \<le> 1" if "rank_of a w \<le> 1" for a
    using lane_frame_rank [OF interfere_frame] that by blast
  then have r2: "rank_of a (interfere w) \<le> 2" if "rank_of a w \<le> 1" for a using that by fastforce
  show ?thesis
  proof (cases res)
    case (Inl ex)
    then show ?thesis
      using assms(1) i fail_loop_terminal r2 by (auto simp: run_inference_def fail_all_def Let_def)
  next
    case (Inr results)
    show ?thesis
    proof (cases "length results = length batch")
      case False
      then show ?thesis
        using assms(1) i Inr fail_live_terminal r1 by (auto simp: run_inference_def Let_def)
    next
      case True
      then have "is_terminal (w_reqs (snd (deliver (zip batch results) status_success (interfere w))) a)"
        if "a \<in> set batch" "rank_of a w \<le> 1" for a
        using deliver_terminal [of a "zip batch results"] r1 that
        by (metis list.set_map map_fst_zip)
      then show ?thesis
        using assms(1) i Inr True by (auto simp: run_inference_def Let_def split: prod.splits)
    qed
  qed
qed

lemma filter_live_keeps:
  assumes "filter_live_batch (map Some batch) w = (live, w1)" "lane_frame w1 w'" "a \<in> set batch"
    and "a \<in> set live \<Longrightarrow> is_terminal (w_reqs w' a)"
  shows "is_terminal (w_reqs w' a)"
  using filter_live_terminal [OF assms(1)] assms(3,4) lane_frame_terminal [OF assms(2)] by fastforce

lemma run_live_settles:
  assumes run: "run_live load unload infer batch (wk, w) = (st, wk', w')"
  shows "idle wk' \<and> (\<forall>a \<in> set batch. rank_of a w \<le> 1 \<longrightarrow> is_terminal (w_reqs w' a))"
  using run
proof (cases rule: run_liveE)
  case Empty
  then show ?thesis using filter_live_terminal [OF Empty(1)] by simp
next
  case (Refused live w1 wk1)
  have f: "lane_frame w (interfere w1)"
    using lane_frame_trans [OF filter_live_frame [of w "map Some batch"] interfere_frame] Refused(1) by simp
  have "is_terminal (w_reqs w' a)" if "a \<in> set batch" "rank_of a w \<le> 1" for a
  proof (rule filter_live_keeps [OF Refused(1) _ that(1)])
    show "lane_frame w1 w'" using Refused(4) lane_frame_trans [OF interfere_frame fail_live_frame] by simp
    show "is_terminal (w_reqs w' a)" if "a \<in> set live"
      using Refused(4) fail_live_terminal [OF that] lane_frame_rank [OF f] \<open>rank_of a w \<le> 1\<close> by simp
  qed
  then show ?thesis using Refused(3) by simp
next
  case (Emptied live w1 wk1)
  have f: "lane_frame w1 w'"
    using lane_frame_trans [OF interfere_frame filter_live_frame [of "interfere w1" "map Some live"]] Emptied(3) by simp
  have "is_terminal (w_reqs w' a)" if "a \<in> set batch" for a
    using filter_live_keeps [OF Emptied(1) f that] filter_live_terminal [OF Emptied(3)] by simp
  then show ?thesis using Emptied(4) by simp
next
  case (Run live w1 wk1 live2 w3)
  have f3: "lane_frame w3 w'" using run_inference_frame [OF Run(4)] by simp
  have f1: "lane_frame w1 w3"
    using lane_frame_trans [OF interfere_frame filter_live_frame [of "interfere w1" "map Some live"]] Run(3) by simp
  have f: "lane_frame w w3"
    using lane_frame_trans [OF filter_live_frame [of w "map Some batch"]] Run(1) f1 by simp
  have "is_terminal (w_reqs w' a)" if "a \<in> set batch" "rank_of a w \<le> 1" for a
  proof (rule filter_live_keeps [OF Run(1) lane_frame_trans [OF f1 f3] that(1)])
    show "is_terminal (w_reqs w' a)" if "a \<in> set live"
      by (rule filter_live_keeps [OF Run(3) f3 that])
        (use run_inference_settles [OF Run(4)] lane_frame_rank [OF f \<open>rank_of a w \<le> 1\<close>] in blast)
  qed
  then show ?thesis using run_inference_settles [OF Run(4)] by blast
qed

lemma execute_batch_settles:
  assumes run: "execute_batch load unload infer ps (wk, w) = (st, wk', w')"
  shows "(idle wk \<longrightarrow> idle wk') \<and> (\<forall>a. Some a \<in> set ps \<and> rank_of a w \<le> 2 \<longrightarrow> is_terminal (w_reqs w' a))"
proof -
  obtain batch w1 where 1: "filter_live_batch ps w = (batch, w1)" by fastforce
  define w2 where "w2 = queued_sub (wk_worker_id wk) (of_nat (length batch)) w1"
  obtain r w3 where 3: "start_running batch w2 = (r, w3)" by fastforce
  have f12: "lane_frame w1 w2" unfolding w2_def by (rule queued_sub_frame)
  have f23: "lane_frame w2 w3" using start_running_frame [of w2 batch] 3 by simp
  have f2: "lane_frame w w2" using lane_frame_trans [OF filter_live_frame [of w ps]] f12 1 by simp
  have dead: "is_terminal (w_reqs w' a)" if "Some a \<in> set ps" "a \<notin> set batch" "lane_frame w1 w'" for a
    using filter_live_terminal [OF 1 that(1)] that lane_frame_terminal by blast
  show ?thesis
  proof (cases "batch = []")
    case True
    then show ?thesis using run 1 dead [of _] by (auto simp: execute_batch_def)
  next
    case ne: False
    have "idle wk' \<and> lane_frame w3 w' \<and> (\<forall>a \<in> set batch. rank_of a w2 \<le> 2 \<longrightarrow> is_terminal (w_reqs w' a))"
    proof (cases r)
      case (Some e)
      then show ?thesis
        using run 1 3 ne fail_loop_terminal fail_loop_frame lane_frame_rank [OF f23]
        by (auto simp: execute_batch_def fail_all_def w2_def Let_def)
    next
      case None
      have go: "run_live load unload infer batch (set_busy (length batch) wk, w3) = (st, wk', w')"
        using run 1 3 ne None by (simp add: execute_batch_def w2_def Let_def)
      have "rank_of a w3 \<le> 1" if "a \<in> set batch" "rank_of a w2 \<le> 2" for a
        using start_running_rank 3 None that by blast
      then show ?thesis using run_live_settles [OF go] run_live_frame [OF go] by blast
    qed
    moreover have "lane_frame w1 w3" using f12 f23 lane_frame_trans by blast
    ultimately show ?thesis using dead lane_frame_trans lane_frame_rank [OF f2] by blast
  qed
qed

end
