(* ===== verification/AR_Worker_Run.thy ===== *)
theory AR_Worker_Run
  imports AR_Worker_Loop
begin

text \<open>
  \<^verbatim>\<open>Worker::run_loop\<close> itself. The properties say that the thread settles everything that
  waits in its lane, that it can only stop on a closed and empty lane, and that it delivers
  the results of the backend to the requests they belong to.
\<close>

section \<open>One turn\<close>

definition deferred_length :: "'b Worker \<Rightarrow> nat" where
  "deferred_length wk = (case wk_deferred wk of None \<Rightarrow> 0 | Some _ \<Rightarrow> 1)"

definition in_worker :: "addr \<Rightarrow> 'b Worker \<times> World \<Rightarrow> bool" where
  "in_worker a ws \<longleftrightarrow>
     waiting (wk_worker_id (fst ws)) (snd ws) a \<or> wk_deferred (fst ws) = Some (Some a)"

text \<open>What a turn promises, from the state \<open>(wk, w)\<close> with the request \<open>first\<close> in hand.\<close>

definition turn_ok :: "RequestPtr \<Rightarrow> 'b Worker \<times> World \<Rightarrow> 'b Worker \<times> World \<Rightarrow> bool" where
  "turn_ok first ws ws' \<longleftrightarrow>
     (case (ws, ws') of ((wk, w), (wk', w')) \<Rightarrow>
        wk_worker_id wk' = wk_worker_id wk \<and> world_le w w' \<and>
        (w_env w' = w_env w \<longrightarrow>
           lane_length (wk_worker_id wk) w' + deferred_length wk' \<le> lane_length (wk_worker_id wk) w) \<and>
        (idle wk \<longrightarrow> idle wk') \<and>
        (\<forall>j. j \<noteq> wk_worker_id wk \<longrightarrow> prefix (bq_queue (w_lane w j)) (bq_queue (w_lane w' j))) \<and>
        (\<forall>a. rank_of a w \<le> 2 \<and> (waiting (wk_worker_id wk) w a \<or> first = Some a) \<longrightarrow> in_worker a (wk', w')))"

lemma turn_ok_dropped:
  assumes "lane_frame w w'" "\<forall>a. first = Some a \<longrightarrow> is_terminal (w_reqs w' a)" "wk_deferred wk = None"
  shows "turn_ok first (wk, w) (wk, w')"
  using assms lane_frame_waiting [OF assms(1)]
  by (auto simp: turn_ok_def lane_frame_le lane_frame_length deferred_length_def in_worker_def waiting_def)
    (simp_all add: lane_frame_def)

lemma same_worker_deferred:
  "same_worker wk wk' \<Longrightarrow> wk_worker_id wk' = wk_worker_id wk \<and> wk_deferred wk' = wk_deferred wk \<and>
     deferred_length wk' = deferred_length wk"
  by (simp add: same_worker_def deferred_length_def)

text \<open>The part of a turn after the batch has been formed.\<close>

lemma served_batch:
  assumes t: "takes k (qs @ taken d) w w3" and k: "wk_worker_id wk = k" "wk_deferred wk = None"
    and live: "filter_live_batch (Some a # qs) w3 = (live, w4)" and f5: "lane_frame w4 w5"
    and wk1: "wk1 = (case d of None \<Rightarrow> wk | Some p \<Rightarrow> wk\<lparr>wk_deferred := Some p\<rparr>)"
    and run: "(if live = [] then (wk1, w5)
        else snd (execute_batch load unload infer (map Some live) (wk1, w5))) = (wk', w')"
  shows "turn_ok (Some a) (wk, w) (wk', w')"
proof -
  have f4: "lane_frame w3 w4" using filter_live_frame [of w3 "Some a # qs"] live by simp
  have f35: "lane_frame w3 w5" using f4 f5 lane_frame_trans by blast
  have idle1: "idle wk1 = idle wk" using wk1 by (simp add: idle_def split: option.splits)
  obtain st where ex: "live = [] \<and> wk' = wk1 \<and> w' = w5 \<or>
      execute_batch load unload infer (map Some live) (wk1, w5) = (st, wk', w')"
    using run by (metis prod.collapse prod.inject snd_conv)
  then have f: "lane_frame w5 w'" and sw: "same_worker wk1 wk'"
    using execute_batch_frame [of load unload infer "map Some live" wk1 w5 st wk' w'] by auto
  have t': "takes k (qs @ taken d) w w'" using takes_frame [OF t lane_frame_trans [OF f35 f]] .
  have wk': "wk_worker_id wk' = k" "wk_deferred wk' = d" "deferred_length wk' = length (taken d)"
    using same_worker_deferred [OF sw] wk1 k by (auto simp: deferred_length_def split: option.splits)
  have le: "world_le w w5" using t lane_frame_le [OF f35] world_le_trans unfolding takes_def by blast
  have settled: "is_terminal (w_reqs w' b)" if "Some b \<in> set (Some a # qs)" "rank_of b w \<le> 2" for b
  proof (cases "b \<in> set live")
    case True
    have "rank_of b w5 \<le> 2" using world_le_rank [OF le, of b] that(2) by linarith
    then show ?thesis 
      using ex True execute_batch_settles [of load unload infer "map Some live" wk1 w5 st wk' w'] by auto
  next
    case False
    then have "is_terminal (w_reqs w4 b)" using filter_live_terminal [OF live] that(1) by blast
    then show ?thesis using lane_frame_terminal f5 f by blast
  qed
  have "in_worker b (wk', w')" if "rank_of b w \<le> 2" "waiting k w b \<or> b = a" for b
  proof -
    have "waiting k w' b \<or> Some b \<in> set (Some a # qs) \<or> d = Some (Some b)"
      using t' that(2) by (auto simp: takes_def split: option.splits)
    then show ?thesis using settled [OF _ that(1)] wk' by (auto simp: in_worker_def waiting_def)
  qed
  moreover have "idle wk \<longrightarrow> idle wk'" 
    using ex idle1 execute_batch_settles [of load unload infer "map Some live" wk1 w5 st wk' w'] by blast
  ultimately show ?thesis using t' wk' k by (auto simp: turn_ok_def takes_def)
qed

lemma serve_spec:
  assumes "wk_deferred wk = None"
  shows "\<exists>wk' w'. serve load unload infer first (wk, w) = Some (wk', w') \<and> turn_ok first (wk, w) (wk', w')"
proof -
  let ?k = "wk_worker_id wk"
  obtain dead w1 where 1: "is_dead_request first w = (dead, w1)" by fastforce
  have f1: "lane_frame w w1" using is_dead_request_frame [of w first] 1 by simp
  show ?thesis
  proof (cases dead)
    case True
    have "lane_frame w (discard_queued_request ?k w1)" using f1 lane_frame_trans discard_frame by blast
    moreover have "\<forall>a. first = Some a \<longrightarrow> is_terminal (w_reqs (discard_queued_request ?k w1) a)"
      using is_dead_request_True [of _ w w1] 1 True lane_frame_terminal [OF discard_frame] by auto
    ultimately show ?thesis using 1 True turn_ok_dropped assms by (simp add: serve_def Let_def)
  next
    case False
    then obtain a where a: "first = Some a" using 1 is_dead_request_False [of first w w1] by auto
    let ?w2 = "interfere w1"
    obtain formed w3 qs where f: "form (wk_batch_builder wk) (Some a) (pop_live ?k)
        (\<not> bq_closed (w_lane ?w2 ?k)) (Some (check_extra ?k)) ?w2 = Some (formed, w3)"
      "fb_requests formed = Some a # qs" "takes ?k (qs @ taken (fb_deferred formed)) ?w2 w3"
      using lane_source.form_spec by blast
    have t: "takes ?k (qs @ taken (fb_deferred formed)) w w3"
      using frame_takes [OF lane_frame_trans [OF f1 interfere_frame] f(3)] .
    obtain live w4 where l: "filter_live_batch (Some a # qs) w3 = (live, w4)" by fastforce
    let ?n = "length (Some a # qs) - length live"
    let ?w5 = "if ?n > 0 then queued_sub ?k (of_nat ?n) w4 else w4"
    let ?wk1 = "case fb_deferred formed of None \<Rightarrow> wk | Some p \<Rightarrow> wk\<lparr>wk_deferred := Some p\<rparr>"
    obtain wk' w' where run: "(if live = [] then (?wk1, ?w5)
        else snd (execute_batch load unload infer (map Some live) (?wk1, ?w5))) = (wk', w')" by fastforce
    have f5: "lane_frame w4 ?w5" by (simp add: queued_sub_frame)
    have "serve load unload infer first (wk, w) = Some (wk', w')"
      using 1 False a f(1,2) l run
      by (auto simp: serve_def Let_def simp del: filter_live_batch.simps split: if_splits)
    then show ?thesis using served_batch [OF t refl assms l f5 refl run] a by blast
  qed
qed

section \<open>The loop\<close>

datatype run_outcome = Stopped | Asleep | Crashed

text \<open>The state in which a thread sleeps once the other threads have done all they do.\<close>

definition asleep :: "World \<Rightarrow> World" where
  "asleep w = last (interfere w # env_wakes (interfere w))"

lemma take_first_spec:
  assumes "take_first (wk, w) = Some (r, wk1, w1)"
  shows "wk_worker_id wk1 = wk_worker_id wk \<and> wk_deferred wk1 = None \<and> (idle wk1 \<longleftrightarrow> idle wk) \<and>
    world_le w w1 \<and>
    (\<forall>j. j \<noteq> wk_worker_id wk \<longrightarrow> prefix (bq_queue (w_lane w j)) (bq_queue (w_lane w1 j))) \<and>
    (w_env w1 = w_env w \<longrightarrow>
      lane_length (wk_worker_id wk) w1 + length (taken r) \<le> lane_length (wk_worker_id wk) w + deferred_length wk) \<and>
    (\<forall>a. in_worker a (wk, w) \<longrightarrow> waiting (wk_worker_id wk) w1 a \<or> r = Some (Some a))"
proof (cases "wk_deferred wk")
  case None
  then have pop: "lane_wait_pop (wk_worker_id wk) w = Some (r, w1)" "wk1 = wk"
    using assms by (auto simp: take_first_def)
  show ?thesis
    using lane_wait_pop_takes [OF pop(1)] pop(2) None
    by (auto simp: takes_def in_worker_def split: option.splits)
next
  case (Some p)
  then show ?thesis
    using assms by (auto simp: take_first_def in_worker_def deferred_length_def idle_def split: option.splits)
qed

lemma loop_smaller:
  assumes "take_first (wk, w) = Some (Some first, wk1, w1)"
    and "serve load unload infer first (wk1, w1) = Some (wk2, w2)"
  shows "length (w_env w2) < length (w_env w) \<or> length (w_env w2) = length (w_env w) \<and>
    lane_length (wk_worker_id wk2) w2 + deferred_length wk2 < lane_length (wk_worker_id wk) w + deferred_length wk"
proof -
  let ?k = "wk_worker_id wk"
  note t = take_first_spec [OF assms(1)]
  have tn: "turn_ok first (wk1, w1) (wk2, w2)" using serve_spec [of wk1 load unload infer first w1] t assms(2) by auto
  have le: "world_le w w1" "world_le w1 w2" using t tn by (simp_all add: turn_ok_def)
  obtain es where es: "w_env w = es @ w_env w2" using world_le_env [OF world_le_trans [OF le]] by blast
  show ?thesis
  proof (cases "es = []")
    case True
    then have same: "w_env w2 = w_env w" using es by simp
    then have "w_env w1 = w_env w" using world_le_env_antisym [OF le] by simp
    then show ?thesis using t tn same by (auto simp: turn_ok_def)
  next
    case False
    then show ?thesis using es by simp
  qed
qed

function run_loop ::
  "(ModelSpec \<Rightarrow> 'b \<Rightarrow> Status \<times> 'b) \<Rightarrow> (string \<Rightarrow> 'b \<Rightarrow> Status \<times> 'b) \<Rightarrow> 'b infer_fn \<Rightarrow>
   'b Worker \<times> World \<Rightarrow> run_outcome \<times> 'b Worker \<times> World" where
  "run_loop load unload infer_batch (wk, w) =
     (case take_first (wk, w) of
        None \<Rightarrow> (Asleep, wk, asleep w)
      | Some (None, wk1, w1) \<Rightarrow> (Stopped, wk1, w1)
      | Some (Some first, wk1, w1) \<Rightarrow>
          (case serve load unload infer_batch first (wk1, w1) of
             None \<Rightarrow> (Crashed, wk1, w1)
           | Some (wk2, w2) \<Rightarrow> run_loop load unload infer_batch (wk2, w2)))"
  by pat_completeness auto
termination
  by (relation "measures [\<lambda>(l, u, i, (wk, w)). length (w_env w),
        \<lambda>(l, u, i, (wk, w)). lane_length (wk_worker_id wk) w + deferred_length wk]")
    (auto dest: loop_smaller)

declare run_loop.simps [simp del]

text \<open>What a run of the loop from \<open>(wk, w)\<close> promises.\<close>

definition run_ok :: "'b Worker \<times> World \<Rightarrow> run_outcome \<times> 'b Worker \<times> World \<Rightarrow> bool" where
  "run_ok ws r \<longleftrightarrow>
     (case (ws, r) of ((wk, w), (out, wk', w')) \<Rightarrow>
        out \<noteq> Crashed \<and> wk_worker_id wk' = wk_worker_id wk \<and> (idle wk \<longrightarrow> idle wk') \<and> wk_deferred wk' = None \<and>
        bq_queue (w_lane w' (wk_worker_id wk)) = [] \<and>
        (out = Stopped \<longleftrightarrow> bq_closed (w_lane w' (wk_worker_id wk))) \<and>
        world_le w w' \<and>
        (\<forall>j. j \<noteq> wk_worker_id wk \<longrightarrow> prefix (bq_queue (w_lane w j)) (bq_queue (w_lane w' j))) \<and>
        (\<forall>a. rank_of a w \<le> 2 \<and> in_worker a (wk, w) \<longrightarrow> is_terminal (w_reqs w' a)))"

lemma run_asleep:
  assumes none: "take_first (wk, w) = None"
  shows "run_ok (wk, w) (Asleep, wk, asleep w)"
proof -
  let ?k = "wk_worker_id wk" and ?w1 = "interfere w"
  have d: "wk_deferred wk = None" and blocked: "wait_pop (\<lambda>w. w_lane w ?k) (set_lane ?k) (env_wakes ?w1) ?w1 = None"
    using none by (auto simp: take_first_def lane_wait_pop_def Let_def split: option.splits)
  have mem: "asleep w \<in> insert ?w1 (set (env_wakes ?w1))"
    using last_in_set [of "?w1 # env_wakes ?w1"] by (simp add: asleep_def)
  have e: "bq_queue (w_lane (asleep w) ?k) = [] \<and> \<not> bq_closed (w_lane (asleep w) ?k)"
    using bspec [OF lane.wait_pop_blocked [THEN iffD1, OF blocked] mem] .
  have "lane_frame ?w1 (asleep w)" using mem env_wakes_frame by (elim insertE) simp_all
  then have f: "lane_frame w (asleep w)" by (rule lane_frame_trans [OF interfere_frame])
  have "is_terminal (w_reqs (asleep w) a)" if "in_worker a (wk, w)" for a
    using lane_frame_waiting [OF f, of ?k a] that d e by (simp add: in_worker_def waiting_def)
  then show ?thesis using e d f lane_frame_le by (simp add: run_ok_def lane_frame_def)
qed

lemma run_stopped:
  assumes tf: "take_first (wk, w) = Some (None, wk1, w1)"
  shows "run_ok (wk, w) (Stopped, wk1, w1)"
proof -
  let ?k = "wk_worker_id wk"
  have "lane_wait_pop ?k w = Some (None, w1)" using tf by (auto simp: take_first_def split: option.splits)
  then obtain rest where
    "wait_pop (\<lambda>w. w_lane w ?k) (set_lane ?k) (env_wakes (interfere w)) (interfere w) = Some (None, w1, rest)"
    by (auto simp: lane_wait_pop_def Let_def)
  from lane.wait_pop_None [OF this] show ?thesis using take_first_spec [OF tf] by (auto simp: run_ok_def waiting_def)
qed

lemma run_turn:
  assumes tf: "take_first (wk, w) = Some (Some first, wk1, w1)" and tn: "turn_ok first (wk1, w1) (wk2, w2)"
    and rec: "run_ok (wk2, w2) (out, wk', w')"
  shows "run_ok (wk, w) (out, wk', w')"
proof -
  let ?k = "wk_worker_id wk"
  note t = take_first_spec [OF tf]
  have k2: "wk_worker_id wk2 = ?k" and le: "world_le w w1" "world_le w1 w2" "world_le w2 w'"
    using t tn rec by (simp_all add: turn_ok_def run_ok_def)
  have "is_terminal (w_reqs w' a)" if a: "rank_of a w \<le> 2" "in_worker a (wk, w)" for a
  proof -
    have r: "rank_of a w1 \<le> 2" "rank_of a w2 \<le> 2"
      using world_le_rank [OF le(1), of a] world_le_rank [OF le(2), of a] a(1) by linarith+
    have "waiting ?k w1 a \<or> first = Some a" using t a(2) by auto
    then have "in_worker a (wk2, w2)" using r(1) tn t by (auto simp: turn_ok_def)
    then show ?thesis using rec r(2) by (simp add: run_ok_def)
  qed
  moreover have "prefix (bq_queue (w_lane w j)) (bq_queue (w_lane w' j))" if "j \<noteq> ?k" for j
  proof -
    have "prefix (bq_queue (w_lane w j)) (bq_queue (w_lane w1 j))" using t that by blast
    moreover have "prefix (bq_queue (w_lane w1 j)) (bq_queue (w_lane w2 j))" using tn t that by (simp add: turn_ok_def)
    moreover have "prefix (bq_queue (w_lane w2 j)) (bq_queue (w_lane w' j))" using rec k2 that by (simp add: run_ok_def)
    ultimately show ?thesis using prefix_order.trans by blast
  qed
  ultimately show ?thesis
    using rec k2 t tn world_le_trans [OF world_le_trans [OF le(1,2)] le(3)] by (auto simp: run_ok_def turn_ok_def)
qed

lemma run_loop_ok: "run_ok (wk, w) (run_loop load unload infer (wk, w))"
proof (induction load unload infer "(wk, w)" arbitrary: wk w rule: run_loop.induct)
  case (1 load unload infer wk w)
  consider (asleep) "take_first (wk, w) = None" | (stopped) wk1 w1 where "take_first (wk, w) = Some (None, wk1, w1)"
    | (turn) first wk1 w1 where "take_first (wk, w) = Some (Some first, wk1, w1)"
    by (metis not_None_eq prod.exhaust)
  then show ?case
  proof cases
    case turn
    have "wk_deferred wk1 = None" using take_first_spec [OF turn] by simp
    from serve_spec [OF this, of load unload infer first w1]
    obtain wk2 w2 where s: "serve load unload infer first (wk1, w1) = Some (wk2, w2)"
      and tn: "turn_ok first (wk1, w1) (wk2, w2)" by (elim exE conjE)
    have "run_ok (wk2, w2) (run_loop load unload infer (wk2, w2))" by (rule 1 [OF turn refl refl refl s refl])
    then show ?thesis
      using run_turn [OF turn tn] turn s by (metis (no_types, lifting) run_loop.simps option.simps(5) prod.exhaust prod.simps(2))
  qed (simp_all add: run_loop.simps [of _ _ _ wk w] run_asleep run_stopped)
qed

lemma run_loop_spec:
  "run_loop load unload infer (wk, w) = (out, wk', w') \<Longrightarrow>
   out \<noteq> Crashed \<and> wk_worker_id wk' = wk_worker_id wk \<and> (idle wk \<longrightarrow> idle wk') \<and> wk_deferred wk' = None \<and>
   bq_queue (w_lane w' (wk_worker_id wk)) = [] \<and>
   (out = Stopped \<longleftrightarrow> bq_closed (w_lane w' (wk_worker_id wk))) \<and>
   world_le w w' \<and>
   (\<forall>j. j \<noteq> wk_worker_id wk \<longrightarrow> prefix (bq_queue (w_lane w j)) (bq_queue (w_lane w' j))) \<and>
   (\<forall>a. rank_of a w \<le> 2 \<and> in_worker a (wk, w) \<longrightarrow> is_terminal (w_reqs w' a))"
  using run_loop_ok [of wk w load unload infer] by (simp add: run_ok_def)

text \<open>
  C6: A worker settles everything that waits for it. Whatever the other threads do meanwhile
  (cancel requests, let deadlines pass, push further requests, close the lane), the loop of
  the worker's thread comes to an end: it stops exactly on a closed and empty lane, or it
  sleeps on an open and empty one. It never dereferences a null pointer. Every queued or
  running request that was in the lane or deferred is settled then, whatever the backend
  answered or threw, and the worker shows itself as idle.
\<close>

theorem worker_settles_all:
  assumes "run_loop load unload infer (wk, w) = (out, wk', w')"
    and "wk_state wk = Idle" "wk_active_count wk = 0"
  shows "out \<noteq> Crashed \<and>
    (out = Stopped \<longleftrightarrow> bq_closed (w_lane w' (wk_worker_id wk))) \<and>
    bq_queue (w_lane w' (wk_worker_id wk)) = [] \<and> wk_deferred wk' = None \<and>
    wk_state wk' = Idle \<and> wk_active_count wk' = 0 \<and>
    (\<forall>a. rq_state (w_reqs w a) \<in> {Queued, Running} \<and>
         (Some a \<in> set (bq_queue (w_lane w (wk_worker_id wk))) \<or> wk_deferred wk = Some (Some a)) \<longrightarrow>
       is_terminal (w_reqs w' a))"
  using run_loop_spec [OF assms(1)] assms(2,3)
  by (auto simp: idle_def in_worker_def waiting_def)

section \<open>Delivering results\<close>

text \<open>A quiet thread that looks at a live request changes nothing.\<close>

lemma reap_keeps_live: "quiet w \<Longrightarrow> \<not> dead_now w p \<Longrightarrow> reap p w = w"
  by (auto simp: reap_def is_dead_request_def dead_now_def read_req_def steady_now_def
      try_timeout_if_expired_def is_expired_def interfere_quiet Let_def split: option.splits)

lemma filter_live_quiet:
  "quiet w \<Longrightarrow> \<forall>a \<in> set batch. \<not> dead_now w (Some a) \<Longrightarrow> filter_live_batch (map Some batch) w = (batch, w)"
  by (induction batch) (simp_all add: is_dead_request_quiet reap_keeps_live)

lemma perform_quiet_reqs:
  "quiet w \<Longrightarrow> w_reqs (snd (perform x a w)) = (w_reqs w)(a := op_apply x (w_reqs w a)) \<and>
     w_clock (snd (perform x a w)) = w_clock w \<and> quiet (snd (perform x a w)) \<and>
     w_queued_count (snd (perform x a w)) = w_queued_count w \<and> w_lane (snd (perform x a w)) = w_lane w"
  by (auto simp: perform_quiet op_apply_def quiet_def split: option.splits)

lemma transition_quiet_ok:
  "quiet w \<Longrightarrow> rq_state (w_reqs w a) = Queued \<Longrightarrow> fst (transition_to Running a w) = status_success"
  by (auto simp: transition_to_def perform_quiet transition_locked_def try_transition_to_locked_def
      is_valid_transition_def split: prod.splits)

definition queued_live :: "World \<Rightarrow> addr \<Rightarrow> bool" where
  "queued_live w a \<longleftrightarrow> rq_state (w_reqs w a) = Queued \<and> \<not> is_expired (w_clock w) (w_reqs w a)"

definition running_live :: "World \<Rightarrow> addr \<Rightarrow> bool" where
  "running_live w a \<longleftrightarrow> rq_state (w_reqs w a) = Running \<and> \<not> is_expired (w_clock w) (w_reqs w a)"

lemma live_not_dead:
  "queued_live w a \<Longrightarrow> \<not> dead_now w (Some a)" "running_live w a \<Longrightarrow> \<not> dead_now w (Some a)"
  by (simp_all add: queued_live_def running_live_def dead_now_def is_terminal_def)

lemma op_running: "rq_state r = Queued \<Longrightarrow> op_apply (OpTransition Running) r = r\<lparr>rq_state := Running\<rparr>"
  by (simp add: op_apply_def transition_locked_def try_transition_to_locked_def is_valid_transition_def
      notify_observers_locked_def)

lemma start_running_quiet:
  "quiet w \<Longrightarrow> distinct as \<Longrightarrow> \<forall>a \<in> set as. queued_live w a \<Longrightarrow>
   start_running as w = (None, snd (start_running as w)) \<and> quiet (snd (start_running as w)) \<and>
   w_clock (snd (start_running as w)) = w_clock w \<and> w_queued_count (snd (start_running as w)) = w_queued_count w \<and>
   (\<forall>a. w_reqs (snd (start_running as w)) a =
      (if a \<in> set as then (w_reqs w a)\<lparr>rq_state := Running\<rparr> else w_reqs w a))"
proof (induction as arbitrary: w)
  case (Cons a as)
  have "\<not> dead_now w (Some a)" using Cons.prems(3) live_not_dead by simp
  then have dead: "is_dead_request (Some a) w = (False, w)"
    using Cons.prems(1) by (simp add: is_dead_request_quiet reap_keeps_live)
  have q: "rq_state (w_reqs w a) = Queued" using Cons.prems(3) by (simp add: queued_live_def)
  then obtain w1 where tr: "transition_to Running a w = (status_success, w1)"
    using transition_quiet_ok [OF Cons.prems(1)] by (metis prod.collapse)
  have w1: "w_reqs w1 = (w_reqs w)(a := (w_reqs w a)\<lparr>rq_state := Running\<rparr>)" "w_clock w1 = w_clock w"
    "quiet w1" "w_queued_count w1 = w_queued_count w"
    using perform_quiet_reqs [OF Cons.prems(1), of "OpTransition Running" a] q
      transition_to_snd [of Running a w] tr
    by (simp_all add: op_running)
  have step: "start_running (a # as) w = start_running as w1" using dead tr by simp
  have "\<forall>b \<in> set as. queued_live w1 b" using Cons.prems w1 by (auto simp: queued_live_def)
  then show ?case using Cons.IH [OF w1(3)] Cons.prems(2) step w1 by auto
qed simp

text \<open>What a result makes of a running request.\<close>

definition settled_with :: "InferenceResult \<Rightarrow> InferenceRequest \<Rightarrow> InferenceRequest" where
  "settled_with res r =
     r\<lparr>rq_state := (if result_ok res then Completed else Failed),
       rq_result := Some (if result_ok res then res else result_failure (res_status res)),
       rq_observers := []\<rparr>"

lemma op_settled:
  "rq_state r = Running \<Longrightarrow> result_ok res \<Longrightarrow> op_apply (OpComplete res) r = settled_with res r"
  "rq_state r = Running \<Longrightarrow> \<not> result_ok res \<Longrightarrow> op_apply (OpFail (res_status res)) r = settled_with res r"
  by (simp_all add: op_apply_def settle_defs settle_locked_def try_transition_to_locked_def is_valid_transition_def
      settled_with_def Let_def)

lemma deliver_quiet:
  "quiet w \<Longrightarrow> distinct (map fst rs) \<Longrightarrow> \<forall>(a, res) \<in> set rs. rq_state (w_reqs w a) = Running \<Longrightarrow>
   (\<forall>a. w_reqs (snd (deliver rs st w)) a =
      (case map_of rs a of None \<Rightarrow> w_reqs w a | Some res \<Rightarrow> settled_with res (w_reqs w a))) \<and>
   w_queued_count (snd (deliver rs st w)) = w_queued_count w"
proof (induction rs arbitrary: st w)
  case (Cons x rs)
  obtain a res where x: "x = (a, res)" by fastforce
  have run: "rq_state (w_reqs w a) = Running" using Cons.prems(3) x by auto
  obtain st' op where d: "deliver (x # rs) st w = deliver rs st' (snd (perform op a w))"
    "op_apply op (w_reqs w a) = settled_with res (w_reqs w a)"
    using x run Cons.prems(1) op_settled [OF run]
    by (cases "result_ok res")
      (auto simp: read_req_def interfere_quiet Let_def is_terminal_def try_fail_def try_complete_def
        case_prod_beta)
  let ?w1 = "snd (perform op a w)"
  have w1: "w_reqs ?w1 = (w_reqs w)(a := settled_with res (w_reqs w a))" "quiet ?w1"
    "w_queued_count ?w1 = w_queued_count w"
    using perform_quiet_reqs [OF Cons.prems(1), of op a] d(2) by simp_all
  have na: "a \<notin> fst ` set rs" using Cons.prems(2) x by simp
  have "\<forall>(b, res) \<in> set rs. rq_state (w_reqs ?w1 b) = Running"
    using Cons.prems(3) w1(1) na by force
  then show ?case using Cons.IH [OF w1(2), of st'] Cons.prems(2) d(1) w1 x na
    by (auto simp: map_of_eq_None_iff [symmetric] split: option.splits)
qed simp

lemma settled_with_running [simp]: "settled_with res (r\<lparr>rq_state := Running\<rparr>) = settled_with res r"
  by (simp add: settled_with_def)

lemma running_live_quiet:
  assumes "\<forall>a \<in> set batch. queued_live w a" "w_clock w' = w_clock w"
    and "\<forall>a \<in> set batch. w_reqs w' a = (w_reqs w a)\<lparr>rq_state := Running\<rparr>"
  shows "\<forall>a \<in> set batch. running_live w' a"
  using assms by (auto simp: queued_live_def running_live_def is_expired_def split: option.splits)

lemma run_inference_quiet:
  assumes "quiet w" "distinct batch" "\<forall>a \<in> set batch. running_live w a"
    and inf: "infer (map (\<lambda>a. Some (w_reqs w a)) batch) (wk_backend wk) = (Inr results, b')"
      "length results = length batch"
    and run: "run_inference infer batch (wk, w) = (st, wk', w')"
  shows "wk' = restore_idle (record_batch_metrics (length batch) (wk\<lparr>wk_backend := b'\<rparr>)) \<and>
    w_queued_count w' = w_queued_count w \<and>
    (\<forall>a. w_reqs w' a = (case map_of (zip batch results) a of
       None \<Rightarrow> w_reqs w a | Some res \<Rightarrow> settled_with res (w_reqs w a)))"
proof -
  have q: "interfere w = w" using assms(1) by (rule interfere_quiet)
  have "\<forall>(a, res) \<in> set (zip batch results). rq_state (w_reqs w a) = Running"
    using assms(3) by (auto simp: running_live_def dest: set_zip_leftD)
  then show ?thesis
    using deliver_quiet [OF assms(1), of "zip batch results" status_success] assms(2) inf run
    by (auto simp: run_inference_def q Let_def split: prod.splits)
qed

lemma run_live_quiet:
  assumes "quiet w" "batch \<noteq> []" "\<forall>a \<in> set batch. running_live w a"
    and res: "ensure_resident load unload (rq_model_id (w_reqs w (hd batch)))
        (wk_model_manager wk, wk_backend wk) = (rst, m, b)" "status_ok rst"
  shows "run_live load unload infer batch (wk, w) =
    run_inference infer batch (wk\<lparr>wk_model_manager := m, wk_backend := b\<rparr>, w)"
proof -
  have q: "interfere w = w" using assms(1) by (rule interfere_quiet)
  have f: "filter_live_batch (map Some batch) w = (batch, w)"
    using filter_live_quiet [OF assms(1)] assms(3) live_not_dead by blast
  obtain a as where "batch = a # as" using assms(2) by (cases batch) auto
  then show ?thesis
    using f res q by (simp add: run_live_def Let_def del: filter_live_batch.simps list.map)
qed

text \<open>
  C7: Each result goes to the request it was computed for. When no other thread interferes, a
  batch of distinct queued requests whose deadlines have not passed, for a model that can be
  made resident, ends with every request completed with its own result, or failed with the
  status of its own result. No other request changes, the counter of queued requests goes
  down by the size of the batch, and the worker is idle with the batch in its metrics.
\<close>

theorem batch_delivery:
  assumes w: "quiet w" "distinct batch" "batch \<noteq> []" "\<forall>a \<in> set batch. queued_live w a"
    and res: "ensure_resident load unload (rq_model_id (w_reqs w (hd batch)))
        (wk_model_manager wk, wk_backend wk) = (rst, m, b)" "status_ok rst"
    and inf: "infer (map (\<lambda>a. Some ((w_reqs w a)\<lparr>rq_state := Running\<rparr>)) batch) b = (Inr results, b')"
      "length results = length batch"
    and run: "execute_batch load unload infer (map Some batch) (wk, w) = (st, wk', w')"
  shows "(\<forall>i < length batch. w_reqs w' (batch ! i) = settled_with (results ! i) (w_reqs w (batch ! i))) \<and>
    (\<forall>a. a \<notin> set batch \<longrightarrow> w_reqs w' a = w_reqs w a) \<and>
    w_queued_count w' (wk_worker_id wk) = w_queued_count w (wk_worker_id wk) - of_nat (length batch) \<and>
    wk_state wk' = Idle \<and> wk_active_count wk' = 0 \<and> wk_model_manager wk' = m \<and> wk_backend wk' = b' \<and>
    wb_batches_executed (wk_batch_metrics wk') = wb_batches_executed (wk_batch_metrics wk) + 1 \<and>
    wb_requests_executed_via_batches (wk_batch_metrics wk') =
      wb_requests_executed_via_batches (wk_batch_metrics wk) + of_nat (length batch)"
proof -
  let ?k = "wk_worker_id wk"
  let ?w2 = "w\<lparr>w_queued_count := (w_queued_count w)(?k := w_queued_count w ?k - of_nat (length batch))\<rparr>"
  let ?wk1 = "set_busy (length batch) wk"
  let ?wk2 = "?wk1\<lparr>wk_model_manager := m, wk_backend := b\<rparr>"
  have f: "filter_live_batch (map Some batch) w = (batch, w)"
    using filter_live_quiet [OF w(1)] w(4) live_not_dead by blast
  have sub: "queued_sub ?k (of_nat (length batch)) w = ?w2"
    using w(1) by (simp add: queued_sub_def interfere_quiet Let_def)
  have "quiet ?w2" "\<forall>a \<in> set batch. queued_live ?w2 a" using w(1,4) by (simp_all add: quiet_def queued_live_def)
  note s = start_running_quiet [OF this(1) w(2) this(2)]
  then obtain w3 where w3: "start_running batch ?w2 = (None, w3)" "quiet w3" "w_clock w3 = w_clock w"
    "w_queued_count w3 = w_queued_count ?w2"
    "\<forall>a. w_reqs w3 a = (if a \<in> set batch then (w_reqs w a)\<lparr>rq_state := Running\<rparr> else w_reqs w a)"
    by (cases "start_running batch ?w2") simp
  have live: "\<forall>a \<in> set batch. running_live w3 a" using running_live_quiet [OF w(4) w3(3)] w3(5) by simp
  have go: "run_live load unload infer batch (?wk1, w3) = (st, wk', w')"
    using run f w(3) w3(1) by (simp add: execute_batch_def sub Let_def)
  have "ensure_resident load unload (rq_model_id (w_reqs w3 (hd batch)))
      (wk_model_manager ?wk1, wk_backend ?wk1) = (rst, m, b)"
    using res(1) w3(5) w(3) by (simp add: set_busy_def)
  then have ri: "run_inference infer batch (?wk2, w3) = (st, wk', w')"
    using run_live_quiet [OF w3(2) w(3) live _ res(2), of load unload ?wk1 m b infer] go by simp
  have inf3: "infer (map (\<lambda>a. Some (w_reqs w3 a)) batch) (wk_backend ?wk2) = (Inr results, b')"
    using inf(1) w3(5) by (simp cong: map_cong)
  have fin: "wk' = restore_idle (record_batch_metrics (length batch) (?wk2\<lparr>wk_backend := b'\<rparr>))"
    "w_queued_count w' = w_queued_count ?w2"
    "w_reqs w' a = (case map_of (zip batch results) a of None \<Rightarrow> w_reqs w3 a
       | Some r \<Rightarrow> settled_with r (w_reqs w3 a))" for a
    using run_inference_quiet [OF w3(2) w(2) live inf3 inf(2) ri] w3(4) by simp_all
  have "map_of (zip batch results) (batch ! i) = Some (results ! i)" if "i < length batch" for i
    using map_of_zip_nth [of batch results i] w(2) inf(2) that by simp
  moreover have "map_of (zip batch results) a = None" if "a \<notin> set batch" for a
    using that inf(2) by (simp add: map_of_zip_is_None)
  ultimately show ?thesis
    using fin w3(5) by (auto simp: set_busy_def restore_idle_def record_batch_metrics_def Let_def)
qed

section \<open>A worker with the synthetic backend\<close>

text \<open>A started worker with number 7 and room for a batch of two, on which the examples run.\<close>

definition demo_spec :: ModelSpec where
  "demo_spec = \<lparr>ms_model_id = ''m'', ms_estimated_memory_bytes = 4, ms_estimated_load_cost = 1\<rparr>"

definition demo_backend :: SyntheticModelBackend where
  "demo_backend = syn_register ''m''
     \<lparr>sc_load_latency = 0, sc_prefill_latency = 1, sc_per_token_latency = 1, sc_fail_load = False,
      sc_fail_infer = False\<rparr> syn_make"

definition demo_config :: "SyntheticModelBackend WorkerConfig" where
  "demo_config =
     \<lparr>wc_worker_id = 7, wc_queue_capacity = 4, wc_memory_budget_bytes = 9,
      wc_batch_config = \<lparr>bb_max_batch_size = 2, bb_max_batch_wait = 5\<rparr>,
      wc_registry = Some [(''m'', demo_spec)], wc_backend = Some demo_backend,
      wc_eviction_policy = Some LruEvictionPolicy\<rparr>"

definition demo_world :: World where
  "demo_world = fresh_world (\<lambda>a. (new_request ''r'' ''m'' ''p'' 4)\<lparr>rq_state := Queued\<rparr>)"

definition demo_worker :: "SyntheticModelBackend Worker \<times> World" where
  "demo_worker = snd (worker_start (projr (worker_make demo_config demo_world)))"

definition demo_submit :: "addr list \<Rightarrow> SyntheticModelBackend Worker \<times> World \<Rightarrow> SyntheticModelBackend Worker \<times> World" where
  "demo_submit as ws = (fst ws, fold (\<lambda>a w. snd (try_enqueue 7 (Some a) w)) as (snd ws))"

abbreviation demo_run :: "SyntheticModelBackend Worker \<times> World \<Rightarrow> run_outcome \<times> SyntheticModelBackend Worker \<times> World" where
  "demo_run \<equiv> run_loop syn_load syn_unload syn_infer_batch_virtual"

theorem worker_settles_all_witness:
  "let ws = demo_submit [1, 2, 3] demo_worker; w' = snd (snd (demo_run ws))
   in fst (demo_run ws) \<noteq> Crashed \<and> is_terminal (w_reqs w' 1) \<and> is_terminal (w_reqs w' 3)"
proof -
  let ?ws = "demo_submit [1, 2, 3] demo_worker"
  let ?run = "demo_run ?ws"
  have run: "demo_run (fst ?ws, snd ?ws) = (fst ?run, fst (snd ?run), snd (snd ?run))" by simp
  have idle: "wk_state (fst ?ws) = Idle" "wk_active_count (fst ?ws) = 0" by code_simp+
  have lane: "bq_queue (w_lane (snd ?ws) (wk_worker_id (fst ?ws))) = [Some 1, Some 2, Some 3]" by code_simp
  have st: "rq_state (w_reqs (snd ?ws) 1) = Queued" "rq_state (w_reqs (snd ?ws) 3) = Queued" by code_simp+
  from worker_settles_all [OF run idle] lane st show ?thesis by (simp add: Let_def)
qed

theorem batch_delivery_witness:
  "let wk = fst demo_worker;
       run = execute_batch syn_load syn_unload syn_infer_batch_virtual (map Some [1, 2]) (wk, demo_world);
       w' = snd (snd run)
   in w_reqs w' 2 = settled_with (syn_infer_one False (w_reqs demo_world 2)) (w_reqs demo_world 2) \<and>
      w_reqs w' 3 = w_reqs demo_world 3"
proof -
  let ?wk = "fst demo_worker"
  let ?run = "execute_batch syn_load syn_unload syn_infer_batch_virtual (map Some [1, 2]) (?wk, demo_world)"
  let ?res = "ensure_resident syn_load syn_unload (rq_model_id (w_reqs demo_world (hd [1, 2])))
      (wk_model_manager ?wk, wk_backend ?wk)"
  let ?r = "(w_reqs demo_world 2)\<lparr>rq_state := Running\<rparr>"
  let ?inf = "syn_infer_batch_virtual (map (\<lambda>a. Some ((w_reqs demo_world a)\<lparr>rq_state := Running\<rparr>)) [1, 2]) (snd (snd ?res))"
  have q: "quiet demo_world" by (simp add: demo_world_def)
  have live: "\<forall>a \<in> set [1, 2]. queued_live demo_world a" by code_simp
  have res: "?res = (fst ?res, fst (snd ?res), snd (snd ?res))" by simp
  have ok: "status_ok (fst ?res)" by code_simp
  have "fst ?inf = Inr [syn_infer_one False ?r, syn_infer_one False ?r]" by code_simp
  then have inf: "?inf = (Inr [syn_infer_one False ?r, syn_infer_one False ?r], snd ?inf)"
    by (simp add: prod_eq_iff)
  have run: "?run = (fst ?run, fst (snd ?run), snd (snd ?run))" by simp
  have len: "length [syn_infer_one False ?r, syn_infer_one False ?r] = length [1, 2::addr]" by simp
  have "distinct [1, 2::addr]" "[1, 2::addr] \<noteq> []" by simp_all
  note d = batch_delivery [OF q this live res ok inf len run]
  have "w_reqs (snd (snd ?run)) 2 = settled_with (syn_infer_one False ?r) (w_reqs demo_world 2)"
    using conjunct1 [OF d, rule_format, of 1] by simp
  moreover have "syn_infer_one False ?r = syn_infer_one False (w_reqs demo_world 2)"
    by (simp add: syn_infer_one_def)
  moreover have "w_reqs (snd (snd ?run)) 3 = w_reqs demo_world 3" 
    using conjunct1 [OF conjunct2 [OF d], rule_format, of 3] by simp
  ultimately show ?thesis by (simp add: Let_def)
qed

section \<open>The reported queue depth\<close>

lemma discard_quiet:
  "quiet w \<Longrightarrow> discard_queued_request k w =
     (if w_queued_count w k > 0
      then w\<lparr>w_queued_count := (w_queued_count w)(k := w_queued_count w k - 1)\<rparr> else w)"
  by (simp add: discard_queued_request_def queued_sub_def interfere_quiet Let_def)

lemma discard_keeps_quiet: "quiet w \<Longrightarrow> quiet (discard_queued_request k w)"
  by (rule quiet_le [OF _ lane_frame_le [OF discard_frame]])



text \<open>
  A request that dies just before its batch is executed is not counted off. The second
  filter, in \<^verbatim>\<open>execute_batch\<close>, drops dead requests without taking them off the queue depth:
  if the whole batch has died, the depth still contains it.
\<close>

lemma dropped_not_counted:
  assumes q: "quiet w" and dead: "\<forall>p \<in> set ps. dead_now w p"
  shows "\<exists>w'. execute_batch load unload infer ps (wk, w) = (status_success, wk, w') \<and>
    w_queued_count w' = w_queued_count w"
proof -
  have "\<exists>w'. filter_live_batch ps v = ([], w') \<and> w_queued_count w' = w_queued_count v"
    if "quiet v" "\<forall>p \<in> set ps. dead_now v p" for v
    using that
  proof (induction ps arbitrary: v)
    case (Cons p ps)
    then have "quiet (reap p v)" "\<forall>q \<in> set ps. dead_now (reap p v) q" by (simp_all add: dead_now_reap)
    from Cons.IH [OF this] Cons.prems show ?case by (auto simp: is_dead_request_quiet)
  qed simp
  from this [OF q dead] show ?thesis by (auto simp: execute_batch_def)
qed

lemma dropped_not_counted_witness:
  "let w = demo_world\<lparr>w_reqs := (w_reqs demo_world)(2 := (w_reqs demo_world 2)\<lparr>rq_state := Cancelled\<rparr>),
         w_queued_count := \<lambda>_. 1\<rparr>
   in \<exists>w'. execute_batch syn_load syn_unload syn_infer_batch_virtual [Some 2] (fst demo_worker, w) =
          (status_success, fst demo_worker, w') \<and> w_queued_count w' 7 = 1"
proof -
  let ?w = "demo_world\<lparr>w_reqs := (w_reqs demo_world)(2 := (w_reqs demo_world 2)\<lparr>rq_state := Cancelled\<rparr>),
         w_queued_count := \<lambda>_. 1\<rparr>"
  have q: "quiet ?w" by (simp add: quiet_def demo_world_def fresh_world_def)
  have dead: "\<forall>p \<in> set [Some 2]. dead_now ?w p" by (simp add: dead_now_def is_terminal_def)
  from dropped_not_counted [OF q dead, of syn_load syn_unload syn_infer_batch_virtual "fst demo_worker"]
  show ?thesis by (auto simp: Let_def)
qed

text \<open>
  Cancelling one request can fail another. If request 2 is cancelled between the
  check that it is alive and its transition to \<^verbatim>\<open>Running\<close>, the refused transition makes the
  worker fail the whole batch: request 1, which nobody cancelled, ends as failed.
\<close>

lemma cancel_fails_neighbour:
  "let w = demo_world\<lparr>w_env := replicate 19 [] @ [[EnvReq 2 OpCancel]]\<rparr>;
       run = execute_batch syn_load syn_unload syn_infer_batch_virtual [Some 1, Some 2] (fst demo_worker, w)
   in (st_code (fst run), map (\<lambda>a. rq_state (w_reqs (snd (snd run)) a)) [1, 2]) =
      (EC_InvalidStateTransition, [Failed, Cancelled])"
  by code_simp

section \<open>Giving requests to a worker\<close>

lemma enqueue_checks_spec:
  assumes "enqueue_checks k p w = (r, w')"
  shows "lane_frame w w' \<and>
    (case r of
       Inl st \<Rightarrow>
         if status_ok st then \<exists>a. p = Some a \<and> is_terminal (w_reqs w' a)
         else st_code st = EC_InternalError \<and> p = None \<or> st_code st = EC_QueueClosed \<and> \<not> w_accepting w' k
     | Inr a \<Rightarrow> p = Some a)"
proof (cases p)
  case None
  then show ?thesis using assms by (auto simp: enqueue_checks_def)
next
  case (Some a)
  let ?w1 = "interfere w"
  obtain dead w2 where d: "is_dead_request p ?w1 = (dead, w2)" by fastforce
  have "lane_frame w w2"
    using lane_frame_trans [OF interfere_frame is_dead_request_frame [of ?w1 p]] d by simp
  moreover have "dead \<Longrightarrow> is_terminal (w_reqs w2 a)" using is_dead_request_True [of a ?w1 w2] d Some by simp
  ultimately show ?thesis
    using assms Some d interfere_frame [of w] by (auto simp: enqueue_checks_def Let_def split: if_splits)
qed

lemma push_back_waiting: "waiting k (set_lane k (push_back (Some a) (w_lane w k)) w) a"
  by (simp add: waiting_def set_lane_def push_back_def)

lemma push_back_le:
  "length (bq_queue (w_lane w k)) < bq_capacity (w_lane w k) \<Longrightarrow>
   world_le w (set_lane k (push_back p (w_lane w k)) w)"
  by (rule set_lane_le) (auto simp: push_back_def bq_inv_def)

lemma try_timeout_terminal: "is_terminal (w_reqs (snd (try_timeout a w)) a)"
proof (cases "is_terminal (w_reqs (interfere w) a)")
  case True
  then have "op_locked OpTimeout (w_reqs (interfere w) a) = None"
    by (simp add: timeout_locked_def settle_locked_None_iff terminal_no_transition is_terminal_def)
  then show ?thesis using True by (simp add: try_timeout_def perform_def Let_def)
next
  case False
  obtain r n where "op_locked OpTimeout (w_reqs (interfere w) a) = Some (r, n)" "is_terminal r"
    using False timeout_locked_Some [OF False] by (simp add: is_terminal_def Let_def)
  then show ?thesis
    using perform_terminal [of OpTimeout a w] by (metis prod.collapse try_timeout_def)
qed

lemma try_enqueue_answer:
  assumes "try_enqueue k p w = (st, w')"
  shows "if status_ok st then \<exists>a. p = Some a \<and> waiting k w' a
    else lane_frame w w' \<and>
      (st_code st = EC_InternalError \<and> p = None \<or>
       st_code st = EC_QueueClosed \<and> (\<not> w_accepting w' k \<or> bq_closed (w_lane w' k)) \<or>
       st_code st = EC_QueueFull \<and> bq_capacity (w_lane w' k) \<le> length (bq_queue (w_lane w' k)))"
proof -
  obtain r w1 where c: "enqueue_checks k p w = (r, w1)" by fastforce
  note spec = enqueue_checks_spec [OF c]
  show ?thesis
  proof (cases r)
    case (Inl st1)
    then show ?thesis
      using assms c spec by (auto simp: try_enqueue_def waiting_def split: if_splits)
  next
    case (Inr a)
    let ?w2 = "interfere w1"
    have f2: "lane_frame w ?w2" using spec lane_frame_trans [OF _ interfere_frame] by blast
    obtain q where t: "try_push p (w_lane ?w2 k) = (st, q)"
      "w' = (if status_ok st then queued_add k 1 (set_lane k q ?w2) else set_lane k q ?w2)"
      using assms c Inr by (auto simp: try_enqueue_def lane_try_push_def Let_def split: prod.splits)
    show ?thesis
    proof (cases "status_ok st")
      case True
      then have "q = push_back p (w_lane ?w2 k)" using t(1) by (auto simp: try_push_def split: if_splits)
      then have "waiting k w' a"
        using t(2) True Inr spec lane_frame_waiting [OF queued_add_frame push_back_waiting] by simp
      then show ?thesis using True Inr spec by simp
    next
      case False
      then have "q = w_lane ?w2 k" using t(1) by (auto simp: try_push_def split: if_splits)
      then have "w' = ?w2" using t(2) False by (simp add: set_lane_def)
      then show ?thesis using f2 t(1) False by (auto simp: try_push_def split: if_splits)
    qed
  qed
qed

lemma try_enqueue_waiting: "try_enqueue k (Some a) w = (st, w') \<Longrightarrow> status_ok st \<Longrightarrow> waiting k w' a"
  by (drule try_enqueue_answer) simp

text \<open>
  C34: The contract of \<^verbatim>\<open>try_enqueue\<close>. Whatever other threads do meanwhile, success means
  that the request is in the lane or settled; an error means that nothing was pushed, and says
  why: the request is null, the worker does not accept work or its lane is closed, or the lane
  is full.
\<close>

theorem try_enqueue_contract:
  assumes "try_enqueue k p w = (st, w')"
  shows "if status_ok st
    then \<exists>a. p = Some a \<and> (Some a \<in> set (bq_queue (w_lane w' k)) \<or> is_terminal (w_reqs w' a))
    else (w_env w' = w_env w \<longrightarrow> w_lane w' = w_lane w) \<and>
      (st_code st = EC_InternalError \<and> p = None \<or>
       st_code st = EC_QueueClosed \<and> (\<not> w_accepting w' k \<or> bq_closed (w_lane w' k)) \<or>
       st_code st = EC_QueueFull \<and> bq_capacity (w_lane w' k) \<le> length (bq_queue (w_lane w' k)))"
  using try_enqueue_answer [OF assms] by (auto simp: waiting_def lane_frame_def)

theorem try_enqueue_contract_witness:
  "Some 1 \<in> set (bq_queue (w_lane (snd (try_enqueue 7 (Some 1) (snd demo_worker))) 7))"
proof -
  let ?r = "try_enqueue 7 (Some 1) (snd demo_worker)"
  have run: "?r = (fst ?r, snd ?r)" by simp
  have ok: "status_ok (fst ?r)" by code_simp
  have live: "\<not> is_terminal (w_reqs (snd ?r) 1)" by code_simp
  from try_enqueue_contract [OF run] ok live show ?thesis by simp
qed

text \<open>
  The contract of \<^verbatim>\<open>enqueue_until\<close>. The call always returns. Success means that the request
  is in the lane or settled; a time-out means that the request has been settled, as timed
  out unless another thread was faster; any other error says that the request is null or that
  the worker takes no more work.
\<close>

lemma enqueue_until_contract:
  "\<exists>st w'. enqueue_until k p d w = Some (st, w') \<and>
     (if status_ok st
      then \<exists>a. p = Some a \<and> (Some a \<in> set (bq_queue (w_lane w' k)) \<or> is_terminal (w_reqs w' a))
      else st_code st = EC_TimedOut \<and> (\<exists>a. p = Some a \<and> is_terminal (w_reqs w' a)) \<or>
           st_code st = EC_InternalError \<and> p = None \<or>
           st_code st = EC_QueueClosed \<and> \<not> (w_accepting w' k \<and> \<not> bq_closed (w_lane w' k)))"
proof -
  obtain r w1 where c: "enqueue_checks k p w = (r, w1)" by fastforce
  note spec = enqueue_checks_spec [OF c]
  show ?thesis
  proof (cases r)
    case (Inl st1)
    then show ?thesis using c spec by (auto simp: enqueue_until_def split: if_splits)
  next
    case (Inr a)
    let ?w2 = "interfere w1"
    obtain t s rest where wait: "cv_wait_until
        (\<lambda>s. \<not> (bq_capacity (w_lane s k) \<le> length (bq_queue (w_lane s k)) \<and> \<not> bq_closed (w_lane s k)))
        (timed_wakes d ?w2) ?w2 = Some (t, s, rest)"
      using timed_wait_answers by fastforce
    show ?thesis
      using c Inr wait spec try_timeout_terminal [of a s] lane_frame_waiting [OF queued_add_frame push_back_waiting]
      by (auto simp: enqueue_until_def wait_push_until_def waiting_def Let_def)
  qed
qed

end
