(* ===== verification/AR_Runtime.thy ===== *)
theory AR_Runtime
  imports AR_AnyScheduler AR_Worker_Run
begin

text \<open>
  The runtime (\<^verbatim>\<open>runtime.hpp\<close>, \<^verbatim>\<open>runtime.cpp\<close>) ties the parts together: requests are
  submitted through admission into the scheduler, the routing thread takes them out and gives
  each to the lane of a worker the router selects, and stopping closes the parts in the order
  in which requests flow.

  The properties follow a request through the parts: what is submitted is settled or held by
  the scheduler, what is routed is settled or waits in a lane, and stopping settles
  everything. The pointers from \<^verbatim>\<open>worker_index_\<close> into the vector of workers are positions.
\<close>

section \<open>State\<close>

text \<open>
  \<^verbatim>\<open>routing_thread_\<close> is an optional thread: there is none before the start and after a
  join; otherwise its function is still in the loop or has returned from it.
\<close>

datatype routing_thread = NoThread | InLoop | LoopReturned

record 'b Runtime =
  rt_scheduler :: IRequestScheduler
  rt_router :: IWorkerRouter
  rt_workers :: "'b Worker list"
  rt_worker_index :: "(WorkerId \<times> nat) list"
  rt_registry :: ModelRegistry
  rt_routing_thread :: routing_thread
  rt_accepting :: bool
  rt_started :: bool

text \<open>The loop of the constructor over the workers, which may be null pointers.\<close>

fun index_workers ::
  "nat \<Rightarrow> 'b Worker option list \<Rightarrow> (WorkerId \<times> nat) list \<Rightarrow> (WorkerId \<times> nat) list or_throw" where
  "index_workers i [] index = Inr index"
| "index_workers i (None # ws) index = Inl ''Runtime workers must be non-null''"
| "index_workers i (Some wk # ws) index =
     (if map_of index (wk_worker_id wk) \<noteq> None then Inl ''duplicate WorkerId''
      else index_workers (i + 1) ws (AList.update (wk_worker_id wk) i index))"

definition runtime_make ::
  "IRequestScheduler option \<Rightarrow> IWorkerRouter option \<Rightarrow> 'b Worker option list \<Rightarrow> ModelRegistry option \<Rightarrow>
     'b Runtime or_throw" where
  "runtime_make scheduler router workers registry =
     (case (scheduler, router, registry) of
        (Some s, Some r, Some reg) \<Rightarrow>
          (if workers = [] then Inl ''Runtime requires at least one worker''
           else
             (case index_workers 0 workers [] of
                Inl e \<Rightarrow> Inl e
              | Inr index \<Rightarrow>
                  Inr \<lparr>rt_scheduler = s, rt_router = r, rt_workers = map the workers,
                       rt_worker_index = index, rt_registry = reg, rt_routing_thread = NoThread,
                       rt_accepting = False, rt_started = False\<rparr>))
      | _ \<Rightarrow> Inl ''Runtime requires scheduler, router, and registry'')"

fun start_workers :: "'b Worker list \<Rightarrow> World \<Rightarrow> Status \<times> 'b Worker list \<times> World" where
  "start_workers [] w = (status_success, [], w)"
| "start_workers (wk # wks) w =
     (case worker_start (wk, w) of (st, wk1, w1) \<Rightarrow>
        if \<not> status_ok st then (st, wk1 # wks, w1)
        else (case start_workers wks w1 of (st', wks', w') \<Rightarrow> (st', wk1 # wks', w')))"

definition runtime_start :: "'b Runtime \<times> World \<Rightarrow> Status \<times> 'b Runtime \<times> World" where
  "runtime_start rw =
     (case rw of (rt, w) \<Rightarrow>
        if rt_started rt then (status_success, rt, w)
        else
          (case start_workers (rt_workers rt) w of (st, wks, w1) \<Rightarrow>
             if \<not> status_ok st then (st, rt\<lparr>rt_workers := wks\<rparr>, w1)
             else (status_success,
                   rt\<lparr>rt_workers := wks, rt_accepting := True, rt_routing_thread := InLoop,
                      rt_started := True\<rparr>, w1)))"

section \<open>Submitting\<close>

definition runtime_stopped :: Status where
  "runtime_stopped = status_error EC_RuntimeStopped ''runtime is not accepting work''"

definition submit :: "RequestPtr \<Rightarrow> 'b Runtime \<times> World \<Rightarrow> Status \<times> 'b Runtime \<times> World" where
  "submit p rw =
     (case rw of (rt, w) \<Rightarrow>
      case p of
        None \<Rightarrow> (status_error EC_InternalError ''null request'', rt, w)
      | Some a \<Rightarrow>
          (case read_req a w of (r, w1) \<Rightarrow>
             if is_terminal r then (status_success, rt, w1)
             else
               (case steady_now w1 of (now, w2) \<Rightarrow>
                case try_timeout_if_expired now a w2 of (_, w3) \<Rightarrow>
                case read_req a w3 of (r1, w4) \<Rightarrow>
                  if is_terminal r1 then (status_success, rt, w4)
                  else if \<not> rt_accepting rt then
                    (case read_req a w4 of (r2, w5) \<Rightarrow>
                       (runtime_stopped, rt,
                        if rq_state r2 = Received then snd (try_reject runtime_stopped a w5) else w5))
                  else
                    (case admit sch_enqueue p (rt_scheduler rt, w4) of (st, s, w5) \<Rightarrow>
                       (st, rt\<lparr>rt_scheduler := s\<rparr>, w5)))))"

section \<open>Routing\<close>

definition find_worker :: "WorkerId \<Rightarrow> 'b Runtime \<Rightarrow> nat option" where
  "find_worker k rt = map_of (rt_worker_index rt) k"

fun collect_snapshots :: "'b Worker list \<Rightarrow> World \<Rightarrow> WorkerSnapshot list \<times> World" where
  "collect_snapshots [] w = ([], w)"
| "collect_snapshots (wk # wks) w =
     (case worker_snapshot wk w of (sn, w1) \<Rightarrow>
      case collect_snapshots wks w1 of (sns, w2) \<Rightarrow> (sn # sns, w2))"

text \<open>A value-initialised \<^verbatim>\<open>ModelSpec\<close>, and the routing from the lookup of the model on.\<close>

definition default_spec :: ModelSpec where
  "default_spec = \<lparr>ms_model_id = [], ms_estimated_memory_bytes = 0, ms_estimated_load_cost = 1\<rparr>"

definition route_live :: "addr \<Rightarrow> 'b Runtime \<times> World \<Rightarrow> Status \<times> 'b Runtime \<times> World" where
  "route_live a rw =
     (case rw of (rt, w) \<Rightarrow>
      case registry_find (rq_model_id (w_reqs w a)) (rt_registry rt) default_spec of (find_status, spec) \<Rightarrow>
        if \<not> status_ok find_status
        then (find_status, rt, snd (try_reject find_status a w))
        else
          (case collect_snapshots (rt_workers rt) w of (snapshots, w1) \<Rightarrow>
           case router_select spec snapshots (rt_router rt) of (selected, router) \<Rightarrow>
           let rt1 = rt\<lparr>rt_router := router\<rparr> in
             if \<not> routing_ok selected
             then (rr_status selected, rt1, snd (try_reject (rr_status selected) a w1))
             else
               (case find_worker (the (rr_worker_id selected)) rt1 of
                  None \<Rightarrow>
                    (let st = status_error EC_InternalError ''selected worker missing''
                     in (st, rt1, snd (try_reject st a w1)))
                | Some i \<Rightarrow>
                    (case try_enqueue (wk_worker_id (rt_workers rt ! i)) (Some a) w1 of (st, w2) \<Rightarrow>
                       if \<not> status_ok st then (st, rt1, snd (try_reject st a w2))
                       else (status_success, rt1, w2)))))"

definition route_request :: "RequestPtr \<Rightarrow> 'b Runtime \<times> World \<Rightarrow> Status \<times> 'b Runtime \<times> World" where
  "route_request p rw =
     (case rw of (rt, w) \<Rightarrow>
      case p of
        None \<Rightarrow> (status_success, rt, w)
      | Some a \<Rightarrow>
          (case read_req a w of (r, w1) \<Rightarrow>
             if is_terminal r then (status_success, rt, w1)
             else
               (case steady_now w1 of (now, w2) \<Rightarrow>
                case try_timeout_if_expired now a w2 of (_, w3) \<Rightarrow>
                case read_req a w3 of (r1, w4) \<Rightarrow>
                  if is_terminal r1 then (status_success, rt, w4)
                  else route_live a (rt, w4))))"

text \<open>
  The loop of the routing thread. The fuel bounds the number of requests routed; one more
  than the number of requests the scheduler holds is enough, see \<open>routing_loop_spec\<close>.
\<close>

datatype routing_outcome = RoutingEnded | RoutingAsleep | RoutingFuel

fun routing_loop :: "nat \<Rightarrow> 'b Runtime \<times> World \<Rightarrow> routing_outcome \<times> 'b Runtime \<times> World" where
  "routing_loop 0 rw = (RoutingFuel, rw)"
| "routing_loop (Suc n) (rt, w) =
     (case sch_next [] (rt_scheduler rt, w) of
        None \<Rightarrow> (RoutingAsleep, rt, w)
      | Some (None, (s, w1), _) \<Rightarrow> (RoutingEnded, rt\<lparr>rt_scheduler := s, rt_routing_thread := LoopReturned\<rparr>, w1)
      | Some (Some p, (s, w1), _) \<Rightarrow>
          (case route_request p (rt\<lparr>rt_scheduler := s\<rparr>, w1) of (_, rt1, w2) \<Rightarrow>
             routing_loop n (rt1, w2)))"

section \<open>Observing\<close>

definition is_running :: "'b Runtime \<Rightarrow> bool" where
  "is_running rt \<longleftrightarrow> rt_accepting rt \<and> rt_started rt"

fun some_accepting :: "'b Worker list \<Rightarrow> World \<Rightarrow> bool" where
  "some_accepting [] w = False"
| "some_accepting (wk # wks) w =
     (case worker_snapshot wk w of (sn, w1) \<Rightarrow> ws_accepting sn \<or> some_accepting wks w1)"

definition is_healthy :: "'b Runtime \<times> World \<Rightarrow> bool" where
  "is_healthy rw =
     (case rw of (rt, w) \<Rightarrow>
        if \<not> rt_accepting rt \<or> \<not> rt_started rt then False
        else if rt_workers rt = [] then False
        else some_accepting (rt_workers rt) w)"

record WorkerRuntimeSnapshot =
  wr_worker :: WorkerSnapshot
  wr_batch_metrics :: WorkerBatchMetrics
  wr_residency_metrics :: ResidencyMetrics

record RuntimeSnapshot =
  rn_accepting :: bool
  rn_started :: bool
  rn_scheduler_depth :: nat
  rn_scheduler_capacity :: nat
  rn_worker_count :: nat
  rn_workers :: "WorkerRuntimeSnapshot list"

record ModelRuntimeSnapshot =
  mn_spec :: ModelSpec
  mn_resident_worker_ids :: "WorkerId list"

record MetricsSnapshot =
  me_scheduler_depth :: nat
  me_scheduler_capacity :: nat
  me_workers :: "WorkerRuntimeSnapshot list"

fun worker_snapshots :: "'b Worker list \<Rightarrow> World \<Rightarrow> WorkerRuntimeSnapshot list \<times> World" where
  "worker_snapshots [] w = ([], w)"
| "worker_snapshots (wk # wks) w =
     (case worker_snapshot wk w of (sn, w1) \<Rightarrow>
      case worker_snapshots wks w1 of (sns, w2) \<Rightarrow>
        (\<lparr>wr_worker = sn, wr_batch_metrics = wk_batch_metrics wk,
          wr_residency_metrics = mm_metrics (wk_model_manager wk)\<rparr> # sns, w2))"

definition runtime_snapshot :: "'b Runtime \<times> World \<Rightarrow> RuntimeSnapshot \<times> World" where
  "runtime_snapshot rw =
     (case rw of (rt, w) \<Rightarrow>
      case worker_snapshots (rt_workers rt) w of (sns, w1) \<Rightarrow>
        (\<lparr>rn_accepting = rt_accepting rt, rn_started = rt_started rt,
          rn_scheduler_depth = sch_size (rt_scheduler rt),
          rn_scheduler_capacity = sch_capacity (rt_scheduler rt),
          rn_worker_count = length (rt_workers rt), rn_workers = sns\<rparr>, w1))"

definition metrics_snapshot :: "'b Runtime \<times> World \<Rightarrow> MetricsSnapshot \<times> World" where
  "metrics_snapshot rw =
     (case rw of (rt, w) \<Rightarrow>
      case worker_snapshots (rt_workers rt) w of (sns, w1) \<Rightarrow>
        (\<lparr>me_scheduler_depth = sch_size (rt_scheduler rt),
          me_scheduler_capacity = sch_capacity (rt_scheduler rt), me_workers = sns\<rparr>, w1))"

definition model_snapshot :: "'b Worker list \<Rightarrow> ModelSpec \<Rightarrow> ModelRuntimeSnapshot" where
  "model_snapshot wks spec =
     \<lparr>mn_spec = spec,
      mn_resident_worker_ids = sort_by (<) (map wk_worker_id
        (filter (\<lambda>wk. ms_model_id spec \<in> set (resident_model_ids (wk_model_manager wk))) wks))\<rparr>"

definition model_snapshots :: "'b Runtime \<Rightarrow> ModelRuntimeSnapshot list" where
  "model_snapshots rt =
     sort_by (\<lambda>a b. spec_lt (mn_spec a) (mn_spec b))
       (map (model_snapshot (rt_workers rt)) (registry_models (rt_registry rt)))"

section \<open>Stopping\<close>

definition stop_accepting :: "'b Runtime \<Rightarrow> 'b Runtime" where
  "stop_accepting rt = rt\<lparr>rt_accepting := False, rt_scheduler := sch_close (rt_scheduler rt)\<rparr>"

definition close_workers :: "'b Worker list \<Rightarrow> World \<Rightarrow> World" where
  "close_workers wks w = fold (\<lambda>wk. worker_close (wk_worker_id wk)) wks w"

text \<open>
  Joining the workers waits for their loops: each thread works off what is in its lane. The
  threads run one after the other here, each with any actions of other threads in between.
  A worker that was not started, or was joined before, has no thread to wait for. The routing
  thread takes requests only while it is in its loop: joining it after the loop has returned,
  which can happen while the runtime is running, waits for nothing and routes nothing.
\<close>

fun join_workers ::
  "(ModelSpec \<Rightarrow> 'b \<Rightarrow> Status \<times> 'b) \<Rightarrow> (string \<Rightarrow> 'b \<Rightarrow> Status \<times> 'b) \<Rightarrow> 'b infer_fn \<Rightarrow>
   'b Worker list \<Rightarrow> World \<Rightarrow> run_outcome list \<times> 'b Worker list \<times> World" where
  "join_workers load unload infer_batch [] w = ([], [], w)"
| "join_workers load unload infer_batch (wk # wks) w =
     (case (if wk_thread wk then run_loop load unload infer_batch (wk, w) else (Stopped, wk, w)) of
        (out, wk1, w1) \<Rightarrow>
      case join_workers load unload infer_batch wks w1 of (outs, wks', w') \<Rightarrow>
        (out # outs, worker_join wk1 # wks', w'))"

definition runtime_stop ::
  "(ModelSpec \<Rightarrow> 'b \<Rightarrow> Status \<times> 'b) \<Rightarrow> (string \<Rightarrow> 'b \<Rightarrow> Status \<times> 'b) \<Rightarrow> 'b infer_fn \<Rightarrow>
   'b Runtime \<times> World \<Rightarrow> (routing_outcome \<times> run_outcome list) \<times> 'b Runtime \<times> World" where
  "runtime_stop load unload infer_batch rw =
     (case rw of (rt, w) \<Rightarrow>
      let rt1 = stop_accepting rt in
      case (if rt_routing_thread rt1 = InLoop
            then routing_loop (Suc (length (sch_held (rt_scheduler rt1)))) (rt1, w)
            else (RoutingEnded, rt1, w)) of (rout, rt2, w1) \<Rightarrow>
      case join_workers load unload infer_batch (rt_workers rt2) (close_workers (rt_workers rt2) w1) of
        (outs, wks, w2) \<Rightarrow>
          ((rout, outs), rt2\<lparr>rt_workers := wks, rt_routing_thread := NoThread\<rparr>, w2))"

end
