(* ===== verification/AR_Text.thy ===== *)
theory AR_Text
  imports AR_Prelude
begin

text \<open>
  The conversions between numbers and text the program takes from the C++ standard library:
  \<^verbatim>\<open>std::to_string\<close> and \<^verbatim>\<open>std::hex\<close> on the way out, \<^verbatim>\<open>std::stoull\<close> and
  \<^verbatim>\<open>std::stoi\<close> on the way in. The readers skip leading white space, take an optional sign
  and as many digits as there are, ignore what follows, and throw when there is no digit or the
  value does not fit; \<^verbatim>\<open>std::stoull\<close> negates modulo \<open>2 ^ 64\<close> after a minus sign.
\<close>

section \<open>Writing numbers\<close>

definition digit_char :: "nat \<Rightarrow> char" where
  "digit_char d = char_of (if d < 10 then 48 + d else 87 + d)"

fun to_base :: "nat \<Rightarrow> nat \<Rightarrow> string" where
  "to_base b n = (if n < b \<or> b < 2 then [digit_char n] else to_base b (n div b) @ [digit_char (n mod b)])"

declare to_base.simps [simp del]

section \<open>Reading numbers\<close>

definition digit_value :: "char \<Rightarrow> nat" where
  "digit_value c = (let v = of_char c :: nat in if v < 58 then v - 48 else v - 87)"

definition is_digit :: "nat \<Rightarrow> char \<Rightarrow> bool" where
  "is_digit b c \<longleftrightarrow> (let v = of_char c :: nat in (48 \<le> v \<and> v < 58 \<or> 97 \<le> v \<and> v < 103) \<and> digit_value c < b)"

fun base_value :: "nat \<Rightarrow> nat \<Rightarrow> string \<Rightarrow> nat" where
  "base_value b acc [] = acc"
| "base_value b acc (c # cs) = base_value b (acc * b + digit_value c) cs"

definition is_space :: "char \<Rightarrow> bool" where
  "is_space c \<longleftrightarrow> (let v = of_char c :: nat in v = 32 \<or> 9 \<le> v \<and> v \<le> 13)"

text \<open>The sign, and the decimal digits after white space and sign.\<close>

definition scan_number :: "string \<Rightarrow> bool \<times> string" where
  "scan_number s =
     (case dropWhile is_space s of
        [] \<Rightarrow> (False, [])
      | c # cs \<Rightarrow>
          if c = CHR ''-'' then (True, takeWhile (is_digit 10) cs)
          else if c = CHR ''+'' then (False, takeWhile (is_digit 10) cs)
          else (False, takeWhile (is_digit 10) (c # cs)))"

definition stoull :: "string \<Rightarrow> u64 or_throw" where
  "stoull s =
     (case scan_number s of (neg, ds) \<Rightarrow>
        if ds = [] then Inl ''stoull: no conversion''
        else
          (let n = base_value 10 0 ds in
           if 2 ^ 64 \<le> n then Inl ''stoull: out of range''
           else Inr (if neg then - of_nat n else of_nat n)))"

definition stoi :: "string \<Rightarrow> int or_throw" where
  "stoi s =
     (case scan_number s of (neg, ds) \<Rightarrow>
        if ds = [] then Inl ''stoi: no conversion''
        else
          (let n = int (base_value 10 0 ds); v = if neg then - n else n in
           if v < - (2 ^ 31) \<or> 2 ^ 31 \<le> v then Inl ''stoi: out of range'' else Inr v))"

section \<open>Reading back what was written\<close>

lemma digit_of_char:
  "d < 16 \<Longrightarrow> of_char (digit_char d) = (if d < 10 then 48 + d else 87 + d)"
  by (simp add: digit_char_def)

lemma digit_value_char [simp]: "d < 16 \<Longrightarrow> digit_value (digit_char d) = d"
  by (simp add: digit_value_def digit_of_char Let_def)

lemma is_digit_char: "d < b \<Longrightarrow> b \<le> 16 \<Longrightarrow> is_digit b (digit_char d)"
  by (simp add: is_digit_def digit_of_char Let_def)

lemma to_base_digits: "1 < b \<Longrightarrow> b \<le> 16 \<Longrightarrow> list_all (is_digit b) (to_base b n)"
proof (induction b n rule: to_base.induct)
  case (1 b n)
  then show ?case by (subst to_base.simps) (auto simp: is_digit_char)
qed

lemma to_base_nonempty [simp]: "to_base b n \<noteq> []"
  by (subst to_base.simps) simp

lemma base_value_snoc: "base_value b acc (cs @ [c]) = base_value b acc cs * b + digit_value c"
  by (induction b acc cs rule: base_value.induct) simp_all

lemma base_value_to_base: "1 < b \<Longrightarrow> b \<le> 16 \<Longrightarrow> base_value b 0 (to_base b n) = n"
proof (induction b n rule: to_base.induct)
  case (1 b n)
  show ?case
  proof (cases "n < b")
    case True
    then show ?thesis using 1(3) by (subst to_base.simps) simp
  next
    case False
    then have "base_value b 0 (to_base b (n div b)) = n div b" using 1 by simp
    moreover have "digit_value (digit_char (n mod b)) = n mod b"
      using 1(2,3) mod_less_divisor [of b n] by (intro digit_value_char) linarith
    ultimately show ?thesis using False 1(2) by (subst to_base.simps) (simp add: base_value_snoc)
  qed
qed

lemma to_base_inject: "1 < b \<Longrightarrow> b \<le> 16 \<Longrightarrow> to_base b m = to_base b n \<longleftrightarrow> m = n"
  by (metis base_value_to_base)

lemma takeWhile_digits:
  "list_all P xs \<Longrightarrow> \<not> P c \<Longrightarrow> takeWhile P (xs @ c # ys) = xs \<and> dropWhile P (xs @ c # ys) = c # ys"
  by (induction xs) auto

lemma digit_not_space: "is_digit b c \<Longrightarrow> \<not> is_space c"
  by (auto simp: is_digit_def is_space_def Let_def)

lemma scan_number_to_base: "scan_number (to_base 10 n) = (False, to_base 10 n)"
proof -
  have digits: "list_all (is_digit 10) (to_base 10 n)" by (simp add: to_base_digits)
  obtain c cs where c: "to_base 10 n = c # cs" by (cases "to_base 10 n") auto
  then have "is_digit 10 c" using digits by simp
  moreover from this have "c \<noteq> CHR ''-''" "c \<noteq> CHR ''+''" by (auto simp: is_digit_def Let_def)
  ultimately show ?thesis
    using c digits digit_not_space [of 10 c] by (auto simp: scan_number_def list_all_iff takeWhile_eq_all_conv)
qed

lemma stoull_to_base: "n < 2 ^ 64 \<Longrightarrow> stoull (to_base 10 n) = Inr (of_nat n)"
  by (simp add: stoull_def scan_number_to_base base_value_to_base)

lemma stoi_to_base: "n < 2 ^ 31 \<Longrightarrow> stoi (to_base 10 n) = Inr (int n)"
  by (simp add: stoi_def scan_number_to_base base_value_to_base Let_def)

lemma stoi_range: "stoi s = Inr v \<Longrightarrow> - (2 ^ 31) \<le> v \<and> v < 2 ^ 31"
  by (auto simp: stoi_def Let_def split: prod.splits if_splits)

end
