(* ===== verification/AR_Handler.thy ===== *)
theory AR_Handler
  imports AR_Runtime AR_Text
begin

text \<open>
  The request handler of the HTTP interface (\<^verbatim>\<open>serving/request_handler.hpp\<close>,
  \<^verbatim>\<open>serving/request_handler.cpp\<close>): it reads the body of an inference request, gives out the
  identifiers of requests, and writes the answers. The JSON library is a parameter: a parser and
  a printer, each of which may throw. JSON values are those of the library, with objects kept
  as \<^verbatim>\<open>std::map\<close>, that is in the order of the keys.
\<close>

section \<open>JSON values\<close>

text \<open>Integers keep the 64 bits the library stores; a floating point number keeps its bit pattern.\<close>

datatype Json =
    JNull | JBool bool | JInteger "64 word" | JUnsigned u64 | JFloat "64 word" | JString string
  | JArray "Json list" | JObject "(string \<times> Json) list"

record JsonLib =
  jl_parse :: "string \<Rightarrow> Json or_throw"
  jl_dump :: "Json \<Rightarrow> string or_throw"

text \<open>\<^verbatim>\<open>body["k"] = v\<close> on the members of an object.\<close>

fun json_put :: "string \<Rightarrow> Json \<Rightarrow> (string \<times> Json) list \<Rightarrow> (string \<times> Json) list" where
  "json_put k v [] = [(k, v)]"
| "json_put k v ((k', v') # ms) =
     (if k = k' then (k, v) # ms
      else if k < k' then (k, v) # (k', v') # ms
      else (k', v') # json_put k v ms)"

definition json_object :: "(string \<times> Json) list \<Rightarrow> Json" where
  "json_object kvs = JObject (fold (\<lambda>(k, v). json_put k v) kvs [])"

definition json_size :: "nat \<Rightarrow> Json" where
  "json_size n = JUnsigned (of_nat n)"

lemma map_of_json_put [simp]: "map_of (json_put k v ms) = (map_of ms)(k \<mapsto> v)"
  by (induction k v ms rule: json_put.induct) (auto simp: fun_eq_iff)

section \<open>State\<close>

record InferRequestSpec =
  is_model_id :: string
  is_prompt :: string
  is_max_output_tokens :: u64
  is_timeout :: "64 word"

record HandlerResponse =
  hr_status_code :: nat
  hr_content_type :: string
  hr_body :: string

text \<open>The runtime a handler refers to is an argument of its operations.\<close>

record RequestHandler =
  rh_next_id :: u64

definition handler_make :: RequestHandler where
  "handler_make = \<lparr>rh_next_id = 1\<rparr>"

definition next_request_id :: "RequestHandler \<Rightarrow> string \<times> RequestHandler" where
  "next_request_id h =
     (''req-'' @ to_base 10 (unat (rh_next_id h)), h\<lparr>rh_next_id := rh_next_id h + 1\<rparr>)"

fun state_to_string :: "RequestState \<Rightarrow> string" where
  "state_to_string Received = ''Received''"
| "state_to_string Queued = ''Queued''"
| "state_to_string Running = ''Running''"
| "state_to_string Completed = ''Completed''"
| "state_to_string Rejected = ''Rejected''"
| "state_to_string Failed = ''Failed''"
| "state_to_string Cancelled = ''Cancelled''"
| "state_to_string TimedOut = ''TimedOut''"

fun error_code_to_string :: "ErrorCode \<Rightarrow> string" where
  "error_code_to_string EC_None = ''None''"
| "error_code_to_string EC_InvalidStateTransition = ''InvalidStateTransition''"
| "error_code_to_string EC_QueueFull = ''QueueFull''"
| "error_code_to_string EC_QueueClosed = ''QueueClosed''"
| "error_code_to_string EC_ModelNotFound = ''ModelNotFound''"
| "error_code_to_string EC_ModelLoadFailed = ''ModelLoadFailed''"
| "error_code_to_string EC_InferenceFailed = ''InferenceFailed''"
| "error_code_to_string EC_RuntimeStopped = ''RuntimeStopped''"
| "error_code_to_string EC_InternalError = ''InternalError''"
| "error_code_to_string EC_InsufficientMemory = ''InsufficientMemory''"
| "error_code_to_string EC_NoFeasibleWorker = ''NoFeasibleWorker''"
| "error_code_to_string EC_Cancelled = ''Cancelled''"
| "error_code_to_string EC_TimedOut = ''TimedOut''"
| "error_code_to_string EC_ContextLengthExceeded = ''ContextLengthExceeded''"

section \<open>Queries\<close>

definition json_response :: "JsonLib \<Rightarrow> nat \<Rightarrow> Json \<Rightarrow> HandlerResponse or_throw" where
  "json_response lib code body =
     (case jl_dump lib body of
        Inl e \<Rightarrow> Inl e
      | Inr s \<Rightarrow> Inr \<lparr>hr_status_code = code, hr_content_type = ''application/json'', hr_body = s\<rparr>)"

definition handle_health :: "JsonLib \<Rightarrow> 'b Runtime \<times> World \<Rightarrow> HandlerResponse or_throw" where
  "handle_health lib rw =
     (if is_healthy rw then json_response lib 200 (json_object [(''status'', JString ''healthy'')])
      else if \<not> rt_accepting (fst rw)
      then json_response lib 503 (json_object [(''status'', JString ''shutting_down'')])
      else json_response lib 503 (json_object [(''status'', JString ''unhealthy'')]))"

definition model_json :: "ModelRuntimeSnapshot \<Rightarrow> Json" where
  "model_json m =
     json_object
       [(''model_id'', JString (ms_model_id (mn_spec m))),
        (''estimated_memory_bytes'', JUnsigned (ms_estimated_memory_bytes (mn_spec m))),
        (''estimated_load_cost'', JUnsigned (ms_estimated_load_cost (mn_spec m))),
        (''resident_worker_ids'', JArray (map json_size (mn_resident_worker_ids m)))]"

definition batch_metrics_json :: "WorkerBatchMetrics \<Rightarrow> Json" where
  "batch_metrics_json b =
     json_object
       [(''batches_executed'', JUnsigned (wb_batches_executed b)),
        (''requests_executed_via_batches'', JUnsigned (wb_requests_executed_via_batches b)),
        (''multi_request_batches'', JUnsigned (wb_multi_request_batches b)),
        (''max_batch_size_observed'', JUnsigned (wb_max_batch_size_observed b))]"

definition residency_metrics_json :: "ResidencyMetrics \<Rightarrow> Json" where
  "residency_metrics_json m =
     json_object
       [(''loads'', JUnsigned (rs_loads m)), (''reloads'', JUnsigned (rs_reloads m)),
        (''evictions'', JUnsigned (rs_evictions m)),
        (''residency_hits'', JUnsigned (rs_residency_hits m)),
        (''residency_misses'', JUnsigned (rs_residency_misses m))]"

definition runtime_worker_json :: "WorkerRuntimeSnapshot \<Rightarrow> Json" where
  "runtime_worker_json s =
     (let w = wr_worker s in
      json_object
        [(''worker_id'', json_size (ws_worker_id w)), (''queue_depth'', JUnsigned (ws_queue_depth w)),
         (''queue_capacity'', json_size (ws_queue_capacity w)),
         (''active_count'', JUnsigned (ws_active_count w)), (''accepting'', JBool (ws_accepting w)),
         (''memory_budget_bytes'', JUnsigned (ws_memory_budget_bytes w)),
         (''memory_used_bytes'', JUnsigned (ws_memory_used_bytes w)),
         (''resident_model_ids'', JArray (map JString (ws_resident_model_ids w))),
         (''batch_metrics'', batch_metrics_json (wr_batch_metrics s)),
         (''residency_metrics'', residency_metrics_json (wr_residency_metrics s))])"

definition metrics_worker_json :: "WorkerRuntimeSnapshot \<Rightarrow> Json" where
  "metrics_worker_json s =
     (let w = wr_worker s in
      json_object
        [(''worker_id'', json_size (ws_worker_id w)), (''queue_depth'', JUnsigned (ws_queue_depth w)),
         (''active_count'', JUnsigned (ws_active_count w)),
         (''memory_budget_bytes'', JUnsigned (ws_memory_budget_bytes w)),
         (''memory_used_bytes'', JUnsigned (ws_memory_used_bytes w)),
         (''batch_metrics'', batch_metrics_json (wr_batch_metrics s)),
         (''residency_metrics'', residency_metrics_json (wr_residency_metrics s))])"

definition runtime_json :: "RuntimeSnapshot \<Rightarrow> Json" where
  "runtime_json s =
     json_object
       [(''accepting'', JBool (rn_accepting s)), (''started'', JBool (rn_started s)),
        (''scheduler_depth'', json_size (rn_scheduler_depth s)),
        (''scheduler_capacity'', json_size (rn_scheduler_capacity s)),
        (''worker_count'', json_size (rn_worker_count s)),
        (''workers'', JArray (map runtime_worker_json (rn_workers s)))]"

definition metrics_json :: "MetricsSnapshot \<Rightarrow> Json" where
  "metrics_json s =
     json_object
       [(''scheduler_depth'', json_size (me_scheduler_depth s)),
        (''scheduler_capacity'', json_size (me_scheduler_capacity s)),
        (''workers'', JArray (map metrics_worker_json (me_workers s)))]"

definition not_found_body :: string where
  "not_found_body = ''{\"error\":\"not found\"}''"

definition handle_get ::
  "JsonLib \<Rightarrow> string \<Rightarrow> 'b Runtime \<times> World \<Rightarrow> HandlerResponse or_throw \<times> World" where
  "handle_get lib target rw =
     (if target = ''/health'' then (handle_health lib rw, snd rw)
      else if target = ''/v1/models''
      then (json_response lib 200 (json_object [(''models'', JArray (map model_json (model_snapshots (fst rw))))]),
            snd rw)
      else if target = ''/v1/runtime''
      then (case runtime_snapshot rw of (s, w) \<Rightarrow> (json_response lib 200 (runtime_json s), w))
      else if target = ''/metrics''
      then (case metrics_snapshot rw of (s, w) \<Rightarrow> (json_response lib 200 (metrics_json s), w))
      else (Inr \<lparr>hr_status_code = 404, hr_content_type = ''application/json'', hr_body = not_found_body\<rparr>,
            snd rw))"

section \<open>Reading an inference request\<close>

text \<open>
  \<^verbatim>\<open>is_number_integer\<close> followed by \<^verbatim>\<open>get<std::int64_t>\<close>: a signed integer is taken as it
  is, an unsigned one is cast.
\<close>

fun get_int64 :: "Json \<Rightarrow> 64 word option" where
  "get_int64 (JInteger v) = Some v"
| "get_int64 (JUnsigned v) = Some v"
| "get_int64 _ = None"

definition bounded_field ::
  "string \<Rightarrow> 64 word \<Rightarrow> int \<Rightarrow> int \<Rightarrow> (string \<times> Json) list \<Rightarrow> 64 word or_throw" where
  "bounded_field key dflt lo hi members =
     (case map_of members key of
        None \<Rightarrow> Inr dflt
      | Some j \<Rightarrow>
          (case get_int64 j of
             None \<Rightarrow> Inl (key @ '' must be an integer'')
           | Some v \<Rightarrow> if sint v < lo \<or> hi < sint v then Inl (key @ '' out of range'') else Inr v))"

definition known_field :: "string \<Rightarrow> bool" where
  "known_field key \<longleftrightarrow> key = ''model_id'' \<or> key = ''prompt'' \<or> key = ''max_output_tokens'' \<or> key = ''timeout_ms''"

definition string_field :: "string \<Rightarrow> (string \<times> Json) list \<Rightarrow> string or_throw" where
  "string_field key members =
     (case map_of members key of Some (JString s) \<Rightarrow> Inr s | _ \<Rightarrow> Inl (key @ '' is required''))"

definition read_spec :: "(string \<times> Json) list \<Rightarrow> InferRequestSpec or_throw" where
  "read_spec members =
     (case string_field ''model_id'' members of
        Inl e \<Rightarrow> Inl e
      | Inr mid \<Rightarrow>
     (case string_field ''prompt'' members of
        Inl e \<Rightarrow> Inl e
      | Inr prompt \<Rightarrow>
          if mid = [] then Inl ''model_id must be non-empty''
          else if prompt = [] then Inl ''prompt must be non-empty''
          else
     (case bounded_field ''max_output_tokens'' 16 1 4096 members of
        Inl e \<Rightarrow> Inl e
      | Inr n \<Rightarrow>
     (case bounded_field ''timeout_ms'' 30000 1 300000 members of
        Inl e \<Rightarrow> Inl e
      | Inr t \<Rightarrow>
          Inr \<lparr>is_model_id = mid, is_prompt = prompt, is_max_output_tokens = n, is_timeout = t\<rparr>))))"

definition parse_infer_request :: "JsonLib \<Rightarrow> string \<Rightarrow> InferRequestSpec or_throw" where
  "parse_infer_request lib body =
     (case jl_parse lib body of
        Inl e \<Rightarrow> Inl e
      | Inr (JObject members) \<Rightarrow>
          (case find (\<lambda>(k, _). \<not> known_field k) members of
             Some (k, _) \<Rightarrow> Inl (''unknown field: '' @ k)
           | None \<Rightarrow> read_spec members)
      | Inr _ \<Rightarrow> Inl ''request body must be a JSON object'')"

section \<open>Answering\<close>

definition http_status_for_snapshot :: "RequestSnapshot \<Rightarrow> nat" where
  "http_status_for_snapshot snap =
     (if sn_state snap = Completed then 200
      else if sn_state snap = Cancelled then 409
      else if sn_state snap = TimedOut then 504
      else
        (case sn_result snap of
           None \<Rightarrow> 500
         | Some res \<Rightarrow>
             (case st_code (res_status res) of
                EC_ModelNotFound \<Rightarrow> 404
              | EC_ContextLengthExceeded \<Rightarrow> 400
              | EC_QueueFull \<Rightarrow> 503
              | EC_RuntimeStopped \<Rightarrow> 503
              | EC_NoFeasibleWorker \<Rightarrow> 503
              | EC_InsufficientMemory \<Rightarrow> 503
              | EC_ModelLoadFailed \<Rightarrow> 500
              | EC_InferenceFailed \<Rightarrow> 500
              | EC_InternalError \<Rightarrow> 500
              | _ \<Rightarrow> 500)))"

definition output_json :: "InferenceOutput \<Rightarrow> Json" where
  "output_json out =
     json_object [(''text'', JString (out_text out)), (''output_tokens'', JUnsigned (out_output_tokens out))]"

definition error_json :: "Status \<Rightarrow> Json" where
  "error_json st =
     json_object [(''code'', JString (error_code_to_string (st_code st))), (''message'', JString (st_message st))]"

text \<open>The two functions that describe a result spell the same cases out separately.\<close>

definition infer_response_json :: "RequestSnapshot \<Rightarrow> Json" where
  "infer_response_json snap =
     (let body =
        json_put ''state'' (JString (state_to_string (sn_state snap)))
         (json_put ''model_id'' (JString (sn_model_id snap))
          (json_put ''request_id'' (JString (sn_request_id snap)) []))
      in JObject
        (if sn_state snap = Completed \<and> sn_result snap \<noteq> None \<and> res_output (the (sn_result snap)) \<noteq> None
         then json_put ''error'' JNull
                (json_put ''output'' (output_json (the (res_output (the (sn_result snap))))) body)
         else
           (let body1 = json_put ''output'' JNull body in
            if sn_result snap \<noteq> None \<and> \<not> status_ok (res_status (the (sn_result snap)))
            then json_put ''error'' (error_json (res_status (the (sn_result snap)))) body1
            else json_put ''error'' JNull body1)))"

definition serialize_infer_response :: "JsonLib \<Rightarrow> RequestSnapshot \<Rightarrow> HandlerResponse or_throw" where
  "serialize_infer_response lib snap =
     json_response lib (http_status_for_snapshot snap) (infer_response_json snap)"

definition newline :: string where
  "newline = [char_of (10 :: nat)]"

text \<open>\<^verbatim>\<open>event.dump() + "\n"\<close>\<close>

definition event_line :: "JsonLib \<Rightarrow> Json \<Rightarrow> string or_throw" where
  "event_line lib event = (case jl_dump lib event of Inl e \<Rightarrow> Inl e | Inr s \<Rightarrow> Inr (s @ newline))"

definition serialize_state_event :: "JsonLib \<Rightarrow> RequestSnapshot \<Rightarrow> string or_throw" where
  "serialize_state_event lib snap =
     event_line lib (json_object
       [(''event'', JString ''state''), (''request_id'', JString (sn_request_id snap)),
        (''state'', JString (state_to_string (sn_state snap)))])"

definition terminal_event_json :: "RequestSnapshot \<Rightarrow> Json" where
  "terminal_event_json snap =
     (let event =
        json_put ''state'' (JString (state_to_string (sn_state snap)))
         (json_put ''model_id'' (JString (sn_model_id snap))
          (json_put ''request_id'' (JString (sn_request_id snap))
           (json_put ''event'' (JString ''terminal'') [])))
      in JObject
        (if sn_state snap = Completed \<and> sn_result snap \<noteq> None \<and> res_output (the (sn_result snap)) \<noteq> None
         then json_put ''error'' JNull
                (json_put ''output'' (output_json (the (res_output (the (sn_result snap))))) event)
         else
           (let event1 = json_put ''output'' JNull event in
            if sn_result snap \<noteq> None \<and> \<not> status_ok (res_status (the (sn_result snap)))
            then json_put ''error'' (error_json (res_status (the (sn_result snap)))) event1
            else json_put ''error'' JNull event1)))"

definition serialize_terminal_event :: "JsonLib \<Rightarrow> RequestSnapshot \<Rightarrow> string or_throw" where
  "serialize_terminal_event lib snap = event_line lib (terminal_event_json snap)"

end
