(* ===== verification/AR_Session.thy ===== *)
theory AR_Session
  imports AR_Handler
begin

text \<open>
  The HTTP interface (\<^verbatim>\<open>serving/http_session.hpp\<close>, \<^verbatim>\<open>serving/http_session.cpp\<close>,
  \<^verbatim>\<open>serving/http_server.cpp\<close>). A session serves one connection: it reads one request, submits
  an inference, and answers with one JSON response or with a chunked stream of events. All
  handlers run on the one thread of the I/O context; each is a function on the session, the
  server, the runtime and the shared store.

  Asynchronous operations that have been started and have not completed are listed in the
  session, as are the updates observers have posted. A completion carries any error code;
  \<^verbatim>\<open>cancel\<close> on a timer or a socket only has an influence on the code, so it leaves no trace
  in the model. Every pending operation except the timer holds a reference to the session: the
  object is destroyed when none is left. What has been handed to the open socket is kept in
  \<open>hs_wire\<close>.
\<close>

section \<open>State\<close>

datatype NetError =
    NoError | Eof | ConnectionReset | ConnectionAborted | BrokenPipe | BadDescriptor | NetworkReset
  | OperationAborted | WouldBlock | TryAgain | BodyLimit | OtherError nat

definition is_peer_gone :: "NetError \<Rightarrow> bool" where
  "is_peer_gone ec \<longleftrightarrow>
     ec = Eof \<or> ec = ConnectionReset \<or> ec = ConnectionAborted \<or> ec = BrokenPipe \<or>
     ec = BadDescriptor \<or> ec = NetworkReset"

datatype Verb = VGet | VPost | VOther string

record HttpRequest =
  ht_method :: Verb
  ht_target :: string
  ht_body :: string

datatype pending_op =
    PRead | PWait | PWrite | PLastWrite | PJsonWrite | PTimer addr | PUpdate RequestSnapshot

datatype wire_item = WResponse nat string | WBytes string

record HttpSession =
  hs_this :: nat
  hs_active_request :: RequestPtr
  hs_stream_mode :: bool
  hs_response_started :: bool
  hs_json_response_started :: bool
  hs_closed :: bool
  hs_disconnect_watch_armed :: bool
  hs_disconnect_watch_active :: bool
  hs_write_queue :: "string list"
  hs_write_in_progress :: bool
  hs_pending :: "pending_op list"
  hs_wire :: "wire_item list"

text \<open>The server keeps weak pointers to its sessions.\<close>

record HttpServer =
  sv_acceptor_open :: bool
  sv_accept_pending :: bool
  sv_work_guard :: bool
  sv_ioc_stopped :: bool
  sv_stopping :: bool
  sv_ready :: bool
  sv_sessions :: "nat list"

text \<open>
  What a handler works on besides its session. \<open>en_live\<close> lists the session objects that exist,
  \<open>en_next_request\<close> and \<open>en_next_session\<close> are the addresses of the next objects allocated.
\<close>

record 'b Env =
  en_runtime :: "'b Runtime"
  en_world :: World
  en_handler :: RequestHandler
  en_server :: HttpServer
  en_live :: "nat list"
  en_next_request :: addr
  en_next_session :: nat

definition session_make :: "nat \<Rightarrow> HttpSession" where
  "session_make this =
     \<lparr>hs_this = this, hs_active_request = None, hs_stream_mode = False, hs_response_started = False,
      hs_json_response_started = False, hs_closed = False, hs_disconnect_watch_armed = False,
      hs_disconnect_watch_active = False, hs_write_queue = [], hs_write_in_progress = False,
      hs_pending = [], hs_wire = []\<rparr>"

definition start_op :: "pending_op \<Rightarrow> HttpSession \<Rightarrow> HttpSession" where
  "start_op p hs = hs\<lparr>hs_pending := hs_pending hs @ [p]\<rparr>"

definition emit :: "wire_item \<Rightarrow> HttpSession \<Rightarrow> HttpSession" where
  "emit x hs = (if hs_closed hs then hs else hs\<lparr>hs_wire := hs_wire hs @ [x]\<rparr>)"

section \<open>Closing\<close>

definition unregister_session :: "nat list \<Rightarrow> nat \<Rightarrow> HttpServer \<Rightarrow> HttpServer" where
  "unregister_session live this sv =
     sv\<lparr>sv_sessions := filter (\<lambda>k. k \<in> set live \<and> k \<noteq> this) (sv_sessions sv)\<rparr>"

definition stop_disconnect_watch :: "HttpSession \<Rightarrow> HttpSession" where
  "stop_disconnect_watch hs = hs\<lparr>hs_disconnect_watch_active := False\<rparr>"

definition close_session :: "HttpSession \<times> 'b Env \<Rightarrow> HttpSession \<times> 'b Env" where
  "close_session se =
     (case se of (hs, env) \<Rightarrow>
        if hs_closed hs then (hs, env)
        else (stop_disconnect_watch (hs\<lparr>hs_closed := True\<rparr>),
              env\<lparr>en_server := unregister_session (en_live env) (hs_this hs) (en_server env)\<rparr>))"

text \<open>\<^verbatim>\<open>if (active_request_ && !active_request_->is_terminal()) active_request_->try_cancel();\<close>\<close>

definition cancel_active :: "RequestPtr \<Rightarrow> World \<Rightarrow> World" where
  "cancel_active p w =
     (case p of
        None \<Rightarrow> w
      | Some a \<Rightarrow>
          (case read_req a w of (r, w1) \<Rightarrow> if \<not> is_terminal r then snd (try_cancel a w1) else w1))"

definition on_disconnect :: "HttpSession \<times> 'b Env \<Rightarrow> HttpSession \<times> 'b Env" where
  "on_disconnect se =
     (case se of (hs, env) \<Rightarrow>
      let hs1 = stop_disconnect_watch hs;
          env1 = env\<lparr>en_world := cancel_active (hs_active_request hs) (en_world env)\<rparr>
      in if hs_closed hs1 then (hs1, env1) else close_session (hs1, env1))"

definition session_shutdown :: "HttpSession \<times> 'b Env \<Rightarrow> HttpSession \<times> 'b Env" where
  "session_shutdown se =
     (case se of (hs, env) \<Rightarrow>
        close_session (hs, env\<lparr>en_world := cancel_active (hs_active_request hs) (en_world env)\<rparr>))"

section \<open>Writing\<close>

definition crlf :: string where
  "crlf = map char_of [13 :: nat, 10]"

definition frame :: "string \<Rightarrow> string" where
  "frame chunk = to_base 16 (length chunk) @ crlf @ chunk @ crlf"

definition last_chunk :: string where
  "last_chunk = ''0'' @ crlf @ crlf"

definition kHeaders :: string where
  "kHeaders =
     ''HTTP/1.1 200 OK'' @ crlf @ ''Content-Type: application/x-ndjson'' @ crlf @
     ''Transfer-Encoding: chunked'' @ crlf @ ''Connection: close'' @ crlf @ crlf"

definition do_write :: "HttpSession \<Rightarrow> HttpSession" where
  "do_write hs =
     (case hs_write_queue hs of
        [] \<Rightarrow> hs\<lparr>hs_write_in_progress := False\<rparr>
      | chunk # rest \<Rightarrow>
          (let hs1 = hs\<lparr>hs_write_in_progress := True, hs_write_queue := rest\<rparr> in
           if chunk = [] then start_op PLastWrite (emit (WBytes last_chunk) hs1)
           else
             (let framed = if hs_response_started hs \<and> prefix ''HTTP/1.1'' chunk then chunk else frame chunk
              in start_op PWrite (emit (WBytes framed) hs1))))"

definition queue_write :: "string \<Rightarrow> bool \<Rightarrow> HttpSession \<Rightarrow> HttpSession" where
  "queue_write data terminal hs =
     (let hs1 = (if data \<noteq> [] then hs\<lparr>hs_write_queue := hs_write_queue hs @ [data]\<rparr> else hs);
          hs2 = (if terminal then hs1\<lparr>hs_write_queue := hs_write_queue hs1 @ [[]]\<rparr> else hs1)
      in if \<not> hs_write_in_progress hs2 then do_write hs2 else hs2)"

definition send_json_response :: "nat \<Rightarrow> string \<Rightarrow> HttpSession \<Rightarrow> HttpSession" where
  "send_json_response status body hs =
     (if hs_closed hs \<or> hs_json_response_started hs then hs
      else start_op PJsonWrite (emit (WResponse status body)
        (stop_disconnect_watch (hs\<lparr>hs_json_response_started := True\<rparr>))))"

text \<open>The completions of the three kinds of writes.\<close>

definition on_write :: "NetError \<Rightarrow> HttpSession \<times> 'b Env \<Rightarrow> HttpSession \<times> 'b Env" where
  "on_write ec se =
     (if ec \<noteq> NoError then on_disconnect se else (case se of (hs, env) \<Rightarrow> (do_write hs, env)))"

definition on_last_write :: "NetError \<Rightarrow> HttpSession \<times> 'b Env \<Rightarrow> HttpSession \<times> 'b Env" where
  "on_last_write ec se = (if ec \<noteq> NoError then on_disconnect se else close_session se)"

definition on_json_write :: "NetError \<Rightarrow> HttpSession \<times> 'b Env \<Rightarrow> HttpSession \<times> 'b Env" where
  "on_json_write ec se =
     (if ec \<noteq> NoError then session_shutdown se else close_session se)"

section \<open>Updates of the request\<close>

definition start_stream :: "HttpSession \<Rightarrow> HttpSession" where
  "start_stream hs =
     (if \<not> hs_response_started hs
      then queue_write kHeaders False (stop_disconnect_watch (hs\<lparr>hs_response_started := True\<rparr>))
      else hs)"

text \<open>A throwing serialisation ends the handler, and with it the thread of the I/O context.\<close>

definition on_state_update :: "JsonLib \<Rightarrow> RequestSnapshot \<Rightarrow> HttpSession \<Rightarrow> HttpSession or_throw" where
  "on_state_update lib snap hs =
     (if hs_closed hs then Inr hs
      else if hs_stream_mode hs then
        (let hs1 = start_stream hs in
         if is_terminal_state (sn_state snap) then
           (case serialize_terminal_event lib snap of
              Inl e \<Rightarrow> Inl e
            | Inr event \<Rightarrow> Inr (queue_write event True (stop_disconnect_watch hs1)))
         else if sn_state snap = Queued \<or> sn_state snap = Running then
           (case serialize_state_event lib snap of
              Inl e \<Rightarrow> Inl e
            | Inr event \<Rightarrow> Inr (queue_write event False hs1))
         else Inr hs1)
      else if \<not> is_terminal_state (sn_state snap) then Inr hs
      else
        (case serialize_infer_response lib snap of
           Inl e \<Rightarrow> Inl e
         | Inr response \<Rightarrow>
             Inr (send_json_response (hr_status_code response) (hr_body response) (stop_disconnect_watch hs))))"

section \<open>Watching the peer\<close>

definition arm_disconnect_watch :: "HttpSession \<Rightarrow> HttpSession" where
  "arm_disconnect_watch hs =
     (if hs_closed hs \<or> hs_disconnect_watch_armed hs then hs
      else start_op PWait (hs\<lparr>hs_disconnect_watch_active := True, hs_disconnect_watch_armed := True\<rparr>))"

text \<open>The result of the probing read is an argument: its error code and the number of bytes.\<close>

definition on_peer_wait ::
  "NetError \<Rightarrow> NetError \<Rightarrow> nat \<Rightarrow> HttpSession \<times> 'b Env \<Rightarrow> HttpSession \<times> 'b Env" where
  "on_peer_wait wait_ec read_ec n se =
     (case se of (hs0, env) \<Rightarrow>
      let hs = hs0\<lparr>hs_disconnect_watch_armed := False\<rparr> in
        if hs_closed hs \<or> \<not> hs_disconnect_watch_active hs then (hs, env)
        else if wait_ec = OperationAborted then (hs, env)
        else if is_peer_gone read_ec \<or> read_ec = NoError \<and> n = 0 \<or> is_peer_gone wait_ec
        then on_disconnect (hs, env)
        else if read_ec = WouldBlock \<or> read_ec = TryAgain then (arm_disconnect_watch hs, env)
        else if read_ec = NoError \<and> 0 < n then on_disconnect (hs, env)
        else if read_ec \<noteq> NoError then on_disconnect (hs, env)
        else (arm_disconnect_watch hs, env))"

section \<open>Serving a request\<close>

text \<open>\<^verbatim>\<open>std::make_shared<InferenceRequest>\<close>: a new object at an address not in use.\<close>

definition allocate_request :: "InferenceRequest \<Rightarrow> 'b Env \<Rightarrow> addr \<times> 'b Env" where
  "allocate_request r env =
     (let a = en_next_request env; w = en_world env
      in (a, env\<lparr>en_next_request := a + 1, en_world := w\<lparr>w_reqs := (w_reqs w)(a := r)\<rparr>\<rparr>))"

text \<open>The timeout is in milliseconds, the clock in nanoseconds.\<close>

definition deadline_after :: "64 word \<Rightarrow> time_point \<Rightarrow> time_point" where
  "deadline_after timeout now = now + nat (sint timeout) * 1000000"

text \<open>From the submission to the end of \<^verbatim>\<open>start_infer\<close>.\<close>

definition submit_active :: "addr \<Rightarrow> HttpSession \<times> 'b Env \<Rightarrow> HttpSession \<times> 'b Env" where
  "submit_active a se =
     (case se of (hs, env) \<Rightarrow>
      case submit (Some a) (en_runtime env, en_world env) of (st, rt, w1) \<Rightarrow>
      case (if \<not> status_ok st
            then (case read_req a w1 of (r, w2) \<Rightarrow> if \<not> is_terminal r then snd (try_reject st a w2) else w2)
            else w1) of w3 \<Rightarrow>
      case read_req a w3 of (r, w4) \<Rightarrow>
      let env' = env\<lparr>en_runtime := rt, en_world := w4\<rparr>
      in (if is_terminal r then hs else arm_disconnect_watch hs, env'))"

definition start_infer :: "bool \<Rightarrow> InferRequestSpec \<Rightarrow> HttpSession \<times> 'b Env \<Rightarrow> HttpSession \<times> 'b Env" where
  "start_infer stream spec se =
     (case se of (hs, env) \<Rightarrow>
      case next_request_id (en_handler env) of (rid, handler) \<Rightarrow>
      case allocate_request
             (new_request rid (is_model_id spec) (is_prompt spec) (is_max_output_tokens spec))
             (env\<lparr>en_handler := handler\<rparr>) of (a, env1) \<Rightarrow>
      case steady_now (en_world env1) of (now, w1) \<Rightarrow>
      let deadline = deadline_after (is_timeout spec) now;
          w2 = snd (perform (OpSetDeadline (Some deadline)) a w1);
          w3 = add_observer (hs_this hs) a w2;
          hs1 = start_op (PTimer a) (hs\<lparr>hs_stream_mode := stream, hs_active_request := Some a\<rparr>)
      in submit_active a (hs1, env1\<lparr>en_world := w3\<rparr>))"

definition error_body :: "string \<Rightarrow> string" where
  "error_body msg = ''{\"error\":\"'' @ msg @ ''\"}''"

definition handle_request ::
  "JsonLib \<Rightarrow> HttpRequest \<Rightarrow> HttpSession \<times> 'b Env \<Rightarrow> (HttpSession \<times> 'b Env) or_throw" where
  "handle_request lib req se =
     (case se of (hs, env) \<Rightarrow>
        if ht_method req = VGet then
          (case handle_get lib (ht_target req) (en_runtime env, en_world env) of
             (Inl e, _) \<Rightarrow> Inl e
           | (Inr response, w) \<Rightarrow>
               Inr (send_json_response (hr_status_code response) (hr_body response) hs, env\<lparr>en_world := w\<rparr>))
        else if ht_method req \<noteq> VPost
        then Inr (send_json_response 405 (error_body ''method not allowed'') hs, env)
        else
          (let stream = ht_target req = ''/v1/infer/stream''; hs1 = hs\<lparr>hs_stream_mode := stream\<rparr> in
           if ht_target req \<noteq> ''/v1/infer'' \<and> \<not> stream
           then Inr (send_json_response 404 (error_body ''not found'') hs1, env)
           else
             (case parse_infer_request lib (ht_body req) of
                Inl e \<Rightarrow> Inr (send_json_response 400 (error_body e) hs1, env)
              | Inr spec \<Rightarrow> Inr (start_infer stream spec (hs1, env)))))"

definition do_read :: "HttpSession \<Rightarrow> HttpSession" where
  "do_read hs = start_op PRead hs"

definition session_start :: "HttpSession \<Rightarrow> HttpSession" where
  "session_start hs = do_read hs"

text \<open>The request is what the parser has read, if it has succeeded.\<close>

definition on_read ::
  "JsonLib \<Rightarrow> NetError \<Rightarrow> HttpRequest \<Rightarrow> HttpSession \<times> 'b Env \<Rightarrow> (HttpSession \<times> 'b Env) or_throw" where
  "on_read lib ec req se =
     (if ec = BodyLimit
      then Inr (case se of (hs, env) \<Rightarrow> (send_json_response 413 (error_body ''request body too large'') hs, env))
      else if ec \<noteq> NoError then Inr (close_session se)
      else handle_request lib req se)"

text \<open>The deadline timer holds a weak pointer to the session; it does nothing once that is gone.\<close>

definition on_deadline :: "NetError \<Rightarrow> addr \<Rightarrow> 'b Env \<Rightarrow> 'b Env" where
  "on_deadline ec a env =
     (if ec \<noteq> NoError then env
      else
        (case read_req a (en_world env) of (r, w1) \<Rightarrow>
           env\<lparr>en_world := if \<not> is_terminal r then snd (try_timeout a w1) else w1\<rparr>))"

section \<open>Completions\<close>

text \<open>What a completed operation brings with it.\<close>

record completion =
  co_ec :: NetError
  co_request :: HttpRequest
  co_probe_ec :: NetError
  co_probe_bytes :: nat

fun run_handler ::
  "JsonLib \<Rightarrow> pending_op \<Rightarrow> completion \<Rightarrow> HttpSession \<times> 'b Env \<Rightarrow> (HttpSession \<times> 'b Env) or_throw" where
  "run_handler lib PRead c se = on_read lib (co_ec c) (co_request c) se"
| "run_handler lib PWait c se = Inr (on_peer_wait (co_ec c) (co_probe_ec c) (co_probe_bytes c) se)"
| "run_handler lib PWrite c se = Inr (on_write (co_ec c) se)"
| "run_handler lib PLastWrite c se = Inr (on_last_write (co_ec c) se)"
| "run_handler lib PJsonWrite c se = Inr (on_json_write (co_ec c) se)"
| "run_handler lib (PTimer a) c (hs, env) = Inr (hs, on_deadline (co_ec c) a env)"
| "run_handler lib (PUpdate snap) c (hs, env) =
     (case on_state_update lib snap hs of Inl e \<Rightarrow> Inl e | Inr hs' \<Rightarrow> Inr (hs', env))"

definition keeps_alive :: "pending_op \<Rightarrow> bool" where
  "keeps_alive p \<longleftrightarrow> (case p of PTimer _ \<Rightarrow> False | _ \<Rightarrow> True)"

text \<open>
  All sessions and their environment. An observer is the session it was registered by: called
  with a snapshot, it posts an update if the session still exists. The calls a handler or another
  thread has made are those beyond the first \<open>n\<close>.
\<close>

type_synonym 'b Site = "(nat \<Rightarrow> HttpSession) \<times> 'b Env"

definition updates_for :: "nat \<Rightarrow> (observer \<times> RequestSnapshot) list \<Rightarrow> pending_op list" where
  "updates_for k calls = map (\<lambda>(_, sn). PUpdate sn) (filter (\<lambda>(ob, _). ob = k) calls)"

definition post_updates :: "nat \<Rightarrow> 'b Site \<Rightarrow> 'b Site" where
  "post_updates n site =
     (case site of (objs, env) \<Rightarrow>
        (\<lambda>k. if k \<in> set (en_live env)
             then (objs k)\<lparr>hs_pending := hs_pending (objs k) @ updates_for k (drop n (w_calls (en_world env)))\<rparr>
             else objs k, env))"

definition destroy_unused :: "'b Site \<Rightarrow> 'b Site" where
  "destroy_unused site =
     (case site of (objs, env) \<Rightarrow>
        (objs, env\<lparr>en_live := filter (\<lambda>k. list_ex keeps_alive (hs_pending (objs k))) (en_live env)\<rparr>))"

text \<open>One turn of the I/O context: the operation \<open>p\<close> of session \<open>k\<close> completes.\<close>

definition complete_op :: "JsonLib \<Rightarrow> nat \<Rightarrow> pending_op \<Rightarrow> completion \<Rightarrow> 'b Site \<Rightarrow> 'b Site or_throw" where
  "complete_op lib k p c site =
     (case site of (objs, env) \<Rightarrow>
      let hs = (objs k)\<lparr>hs_pending := remove1 p (hs_pending (objs k))\<rparr>;
          n = length (w_calls (en_world env))
      in (case run_handler lib p c (hs, env) of
            Inl e \<Rightarrow> Inl e
          | Inr (hs', env') \<Rightarrow> Inr (destroy_unused (post_updates n (objs(k := hs'), env')))))"

section \<open>The server\<close>

text \<open>Opening the acceptor succeeds or fails with one of the three errors.\<close>

definition server_make :: "NetError \<Rightarrow> NetError \<Rightarrow> NetError \<Rightarrow> HttpServer or_throw" where
  "server_make open_ec bind_ec listen_ec =
     (if open_ec \<noteq> NoError then Inl ''failed to open acceptor''
      else if bind_ec \<noteq> NoError then Inl ''failed to bind acceptor''
      else if listen_ec \<noteq> NoError then Inl ''failed to listen on acceptor''
      else Inr \<lparr>sv_acceptor_open = True, sv_accept_pending = False, sv_work_guard = False,
                sv_ioc_stopped = False, sv_stopping = False, sv_ready = False, sv_sessions = []\<rparr>)"

definition do_accept :: "HttpServer \<Rightarrow> HttpServer" where
  "do_accept sv =
     (if sv_stopping sv then sv else sv\<lparr>sv_ready := True, sv_accept_pending := True\<rparr>)"

text \<open>\<^verbatim>\<open>run\<close> up to the point at which it enters the loop of the I/O context.\<close>

definition server_run :: "HttpServer \<Rightarrow> HttpServer" where
  "server_run sv = do_accept (sv\<lparr>sv_work_guard := True\<rparr>)"

definition on_accept :: "NetError \<Rightarrow> 'b Site \<Rightarrow> 'b Site" where
  "on_accept ec site =
     (case site of (objs, env) \<Rightarrow>
      let sv0 = (en_server env)\<lparr>sv_accept_pending := False\<rparr>;
          sv = (if \<not> sv_stopping sv0 then do_accept sv0 else sv0)
      in if ec \<noteq> NoError \<or> sv_stopping sv then (objs, env\<lparr>en_server := sv\<rparr>)
         else
           (let k = en_next_session env in
            (objs(k := session_start (session_make k)),
             env\<lparr>en_server := sv\<lparr>sv_sessions := sv_sessions sv @ [k]\<rparr>,
                 en_live := en_live env @ [k], en_next_session := k + 1\<rparr>)))"

fun shutdown_sessions :: "nat list \<Rightarrow> 'b Site \<Rightarrow> 'b Site" where
  "shutdown_sessions [] site = site"
| "shutdown_sessions (k # ks) (objs, env) =
     (case session_shutdown (objs k, env) of (hs, env') \<Rightarrow> shutdown_sessions ks (objs(k := hs), env'))"

definition server_stop :: "'b Site \<Rightarrow> 'b Site" where
  "server_stop site =
     (case site of (objs, env) \<Rightarrow>
      let sv = (en_server env)\<lparr>sv_stopping := True, sv_acceptor_open := False\<rparr>;
          active = filter (\<lambda>k. k \<in> set (en_live env)) (sv_sessions sv)
      in (case shutdown_sessions active (objs, env\<lparr>en_server := sv\<lparr>sv_sessions := []\<rparr>\<rparr>) of
            (objs', env') \<Rightarrow>
              (objs', env'\<lparr>en_server := (en_server env')\<lparr>sv_work_guard := False, sv_ioc_stopped := True\<rparr>\<rparr>)))"

end
