(* ===== verification/AR_Session_Props.thy ===== *)
theory AR_Session_Props
  imports AR_Session
begin

text \<open>
  What goes out on a connection. Whatever the order in which the operations of a session complete
  and whatever error codes they carry, the socket gets nothing, one JSON response, or a well-formed
  chunked stream of events, and never two writes at a time.
\<close>

section \<open>The handlers seen from the session\<close>

lemma fst_close_session [simp]:
  "fst (close_session (hs, env)) =
     hs\<lparr>hs_closed := True, hs_disconnect_watch_active := hs_closed hs \<and> hs_disconnect_watch_active hs\<rparr>"
  by (simp add: close_session_def stop_disconnect_watch_def)

lemma fst_on_disconnect [simp]:
  "fst (on_disconnect (hs, env)) = hs\<lparr>hs_closed := True, hs_disconnect_watch_active := False\<rparr>"
  by (simp add: on_disconnect_def stop_disconnect_watch_def Let_def)

lemma fst_session_shutdown [simp]:
  "fst (session_shutdown (hs, env)) = fst (close_session (hs, env))"
  by (simp add: session_shutdown_def)

lemma fst_on_write:
  "fst (on_write ec (hs, env)) =
     (if ec \<noteq> NoError then hs\<lparr>hs_closed := True, hs_disconnect_watch_active := False\<rparr> else do_write hs)"
  by (simp add: on_write_def)

lemma fst_on_last_write: "\<exists>b. fst (on_last_write ec (hs, env)) = hs\<lparr>hs_closed := True, hs_disconnect_watch_active := b\<rparr>"
  by (auto simp: on_last_write_def)

lemma fst_on_json_write: "\<exists>b. fst (on_json_write ec (hs, env)) = hs\<lparr>hs_closed := True, hs_disconnect_watch_active := b\<rparr>"
  by (auto simp: on_json_write_def)

lemma fst_submit_active:
  "fst (submit_active a (hs, env)) = hs \<or> fst (submit_active a (hs, env)) = arm_disconnect_watch hs"
  by (auto simp: submit_active_def Let_def split: prod.splits)

text \<open>What \<^verbatim>\<open>on_peer_wait\<close> may do to the session.\<close>

lemma fst_on_peer_wait:
  "fst (on_peer_wait wait_ec read_ec n (hs, env)) \<in>
     {hs\<lparr>hs_disconnect_watch_armed := False\<rparr>,
      hs\<lparr>hs_disconnect_watch_armed := False, hs_closed := True, hs_disconnect_watch_active := False\<rparr>,
      arm_disconnect_watch (hs\<lparr>hs_disconnect_watch_armed := False\<rparr>)}"
  by (simp add: on_peer_wait_def Let_def)

section \<open>The phases of a session\<close>

abbreviation pending_count :: "pending_op \<Rightarrow> HttpSession \<Rightarrow> nat" where
  "pending_count p hs \<equiv> count_list (hs_pending hs) p"

definition no_updates :: "HttpSession \<Rightarrow> bool" where
  "no_updates hs \<longleftrightarrow> (\<forall>sn. pending_count (PUpdate sn) hs = 0)"

text \<open>Nothing has been written or is to be written.\<close>

definition silent :: "HttpSession \<Rightarrow> bool" where
  "silent hs \<longleftrightarrow>
     \<not> hs_response_started hs \<and> \<not> hs_json_response_started hs \<and> hs_write_queue hs = [] \<and>
     \<not> hs_write_in_progress hs \<and> hs_wire hs = [] \<and> pending_count PWrite hs = 0 \<and>
     pending_count PLastWrite hs = 0 \<and> pending_count PJsonWrite hs = 0"

definition reading :: "HttpSession \<Rightarrow> bool" where
  "reading hs \<longleftrightarrow> silent hs \<and> hs_active_request hs = None \<and> pending_count PRead hs \<le> 1 \<and> no_updates hs"

definition waiting_answer :: "HttpSession \<Rightarrow> bool" where
  "waiting_answer hs \<longleftrightarrow> silent hs \<and> hs_active_request hs \<noteq> None \<and> pending_count PRead hs = 0"

definition answered_json :: "HttpSession \<Rightarrow> bool" where
  "answered_json hs \<longleftrightarrow>
     \<not> hs_response_started hs \<and> hs_json_response_started hs \<and> hs_write_queue hs = [] \<and>
     \<not> hs_write_in_progress hs \<and> (\<exists>c b. hs_wire hs = [WResponse c b]) \<and>
     (hs_active_request hs = None \<longrightarrow> no_updates hs) \<and> (hs_stream_mode hs \<longrightarrow> hs_active_request hs = None) \<and>
     pending_count PRead hs = 0 \<and> pending_count PWrite hs = 0 \<and> pending_count PLastWrite hs = 0 \<and>
     pending_count PJsonWrite hs \<le> 1"

text \<open>
  A stream consists of the headers and groups of strings: one for each change of state, and the
  terminal event followed by the empty string that stands for the last chunk.
\<close>

definition event_group :: "JsonLib \<Rightarrow> string list \<Rightarrow> bool" where
  "event_group lib g \<longleftrightarrow>
     (\<exists>sn e. serialize_state_event lib sn = Inr e \<and> g = [e]) \<or>
     (\<exists>sn e. is_terminal_state (sn_state sn) \<and> serialize_terminal_event lib sn = Inr e \<and> g = [e, []])"

definition render :: "string \<Rightarrow> string" where
  "render chunk =
     (if chunk = [] then last_chunk else if prefix ''HTTP/1.1'' chunk then chunk else frame chunk)"

text \<open>The state of the writer, given the strings it has taken from the queue so far.\<close>

definition writer :: "string list \<Rightarrow> HttpSession \<Rightarrow> bool" where
  "writer items hs \<longleftrightarrow>
     [] \<notin> set (butlast items) \<and>
     (if last items = [] then
        hs_write_in_progress hs \<and> pending_count PWrite hs = 0 \<and> pending_count PLastWrite hs \<le> 1
      else if hs_write_in_progress hs then
        pending_count PWrite hs \<le> 1 \<and> pending_count PLastWrite hs = 0 \<and>
        (hs_closed hs \<or> pending_count PWrite hs = 1)
      else hs_write_queue hs = [] \<and> pending_count PWrite hs = 0 \<and> pending_count PLastWrite hs = 0)"

definition handed_out :: "string list \<Rightarrow> HttpSession \<Rightarrow> bool" where
  "handed_out items hs \<longleftrightarrow>
     (\<exists>n. hs_wire hs = map (WBytes \<circ> render) (take n items)) \<and>
     (\<not> hs_closed hs \<longrightarrow> hs_wire hs = map (WBytes \<circ> render) items)"

definition scripted :: "JsonLib \<Rightarrow> string list \<Rightarrow> HttpSession \<Rightarrow> bool" where
  "scripted lib items hs \<longleftrightarrow>
     items \<noteq> [] \<and> handed_out items hs \<and>
     (\<exists>groups. items @ hs_write_queue hs = kHeaders # concat groups \<and> list_all (event_group lib) groups)"

definition in_stream :: "HttpSession \<Rightarrow> bool" where
  "in_stream hs \<longleftrightarrow>
     hs_stream_mode hs \<and> hs_response_started hs \<and> \<not> hs_json_response_started hs \<and>
     hs_active_request hs \<noteq> None \<and> pending_count PRead hs = 0 \<and> pending_count PJsonWrite hs = 0"

definition streaming :: "JsonLib \<Rightarrow> HttpSession \<Rightarrow> bool" where
  "streaming lib hs \<longleftrightarrow> in_stream hs \<and> (\<exists>items. scripted lib items hs \<and> writer items hs)"

definition session_inv :: "JsonLib \<Rightarrow> HttpSession \<Rightarrow> bool" where
  "session_inv lib hs \<longleftrightarrow> reading hs \<or> waiting_answer hs \<or> answered_json hs \<or> streaming lib hs"

lemmas phase_defs = silent_def reading_def waiting_answer_def answered_json_def in_stream_def no_updates_def

section \<open>Steps without output\<close>

text \<open>A step that leaves the output alone: it may close the session and watch the peer again.\<close>

definition minor :: "HttpSession \<Rightarrow> HttpSession \<Rightarrow> bool" where
  "minor hs hs' \<longleftrightarrow>
     hs_stream_mode hs' = hs_stream_mode hs \<and> hs_active_request hs' = hs_active_request hs \<and>
     hs_response_started hs' = hs_response_started hs \<and>
     hs_json_response_started hs' = hs_json_response_started hs \<and>
     hs_write_queue hs' = hs_write_queue hs \<and> hs_write_in_progress hs' = hs_write_in_progress hs \<and>
     hs_wire hs' = hs_wire hs \<and> (hs_closed hs \<longrightarrow> hs_closed hs') \<and>
     (\<forall>p. p \<noteq> PWait \<longrightarrow> pending_count p hs' \<le> pending_count p hs) \<and>
     (hs_closed hs' \<or> pending_count PWrite hs' = pending_count PWrite hs)"

lemma minor_refl [simp, intro]: "minor hs hs"
  by (simp add: minor_def)

lemma minor_trans [trans]: "minor a b \<Longrightarrow> minor b c \<Longrightarrow> minor a c"
  unfolding minor_def by (metis order_trans)

lemma minor_session_inv:
  assumes m: "minor hs hs'" and inv: "session_inv lib hs"
  shows "session_inv lib hs'"
proof -
  have le: "pending_count p hs' \<le> pending_count p hs" if "p \<noteq> PWait" for p
    using m that by (simp add: minor_def)
  have zero: "pending_count p hs = 0 \<Longrightarrow> p \<noteq> PWait \<Longrightarrow> pending_count p hs' = 0" for p
    using le [of p] by simp
  have same: "hs_stream_mode hs' = hs_stream_mode hs" "hs_active_request hs' = hs_active_request hs"
    "hs_response_started hs' = hs_response_started hs" "hs_json_response_started hs' = hs_json_response_started hs"
    "hs_write_queue hs' = hs_write_queue hs" "hs_write_in_progress hs' = hs_write_in_progress hs"
    "hs_wire hs' = hs_wire hs" and closed: "hs_closed hs \<Longrightarrow> hs_closed hs'"
    and busy: "hs_closed hs' \<or> pending_count PWrite hs' = pending_count PWrite hs"
    using m by (simp_all add: minor_def)
  have sil: "silent hs \<Longrightarrow> silent hs'" by (simp add: silent_def same zero)
  have noup: "no_updates hs \<Longrightarrow> no_updates hs'" by (simp add: no_updates_def zero)
  have "scripted lib items hs \<Longrightarrow> scripted lib items hs'" for items
    using closed by (auto simp: scripted_def handed_out_def same)
  moreover have "writer items hs \<Longrightarrow> writer items hs'" for items
    using le [of PWrite] le [of PLastWrite] closed busy by (auto simp: writer_def same split: if_splits)
  moreover have "in_stream hs \<Longrightarrow> in_stream hs'" by (simp add: in_stream_def same zero)
  ultimately have "streaming lib hs \<Longrightarrow> streaming lib hs'" unfolding streaming_def by blast
  moreover have "answered_json hs \<Longrightarrow> answered_json hs'" using noup le [of PJsonWrite] by (simp add: answered_json_def same zero)
  moreover have "waiting_answer hs \<Longrightarrow> waiting_answer hs'" using sil by (simp add: waiting_answer_def same zero)
  moreover have "reading hs \<Longrightarrow> reading hs'" using le [of PRead] sil noup by (simp add: reading_def same)
  ultimately show ?thesis using inv unfolding session_inv_def by blast
qed

lemma count_list_remove1: "count_list (remove1 x xs) y = (if x = y then count_list xs y - 1 else count_list xs y)"
  by (induction xs) (auto simp: count_list_0_iff)

lemma minor_remove: "p \<noteq> PWrite \<Longrightarrow> minor hs (hs\<lparr>hs_pending := remove1 p (hs_pending hs)\<rparr>)"
  by (simp add: minor_def count_list_remove1)

lemma minor_remove_close:
  "minor hs (hs\<lparr>hs_pending := remove1 p (hs_pending hs), hs_closed := True, hs_disconnect_watch_active := b\<rparr>)"
  by (simp add: minor_def count_list_remove1)

lemma minor_close: "minor hs (hs\<lparr>hs_closed := True, hs_disconnect_watch_active := b\<rparr>)"
  by (simp add: minor_def)

lemma minor_arm: "minor hs (arm_disconnect_watch hs)"
  by (simp add: minor_def arm_disconnect_watch_def start_op_def)

lemma minor_peer_wait: "minor hs (fst (on_peer_wait wait_ec read_ec n (hs, env)))"
proof -
  have "minor hs (hs\<lparr>hs_disconnect_watch_armed := False\<rparr>)" by (simp add: minor_def)
  moreover have "minor hs (hs\<lparr>hs_disconnect_watch_armed := False, hs_closed := True, hs_disconnect_watch_active := False\<rparr>)"
    by (simp add: minor_def)
  ultimately show ?thesis
    using fst_on_peer_wait [of wait_ec read_ec n hs env] minor_trans [OF _ minor_arm] by auto
qed

section \<open>Writing\<close>

text \<open>What the framing relies on: the text of a JSON object starts with a brace.\<close>

definition braces :: "JsonLib \<Rightarrow> bool" where
  "braces lib \<longleftrightarrow> (\<forall>ms s. jl_dump lib (JObject ms) = Inr s \<longrightarrow> s \<noteq> [] \<and> hd s = CHR ''{'')"

lemma event_line_start:
  assumes "braces lib" "event_line lib (JObject ms) = Inr e"
  shows "e \<noteq> [] \<and> \<not> prefix ''HTTP/1.1'' e"
proof -
  obtain s where s: "jl_dump lib (JObject ms) = Inr s" "e = s @ newline"
    using assms(2) by (auto simp: event_line_def split: sum.splits)
  have "s \<noteq> [] \<and> hd s = CHR ''{''" using assms(1) s(1) unfolding braces_def by blast
  then obtain t where "s = CHR ''{'' # t" by (cases s) auto
  then show ?thesis using s(2) by simp
qed

lemma state_event_start:
  "braces lib \<Longrightarrow> serialize_state_event lib sn = Inr e \<Longrightarrow> e \<noteq> [] \<and> \<not> prefix ''HTTP/1.1'' e"
  unfolding serialize_state_event_def json_object_def by (rule event_line_start)

lemma terminal_event_start:
  "braces lib \<Longrightarrow> serialize_terminal_event lib sn = Inr e \<Longrightarrow> e \<noteq> [] \<and> \<not> prefix ''HTTP/1.1'' e"
  unfolding serialize_terminal_event_def terminal_event_json_def Let_def by (rule event_line_start)

lemma handed_out_emit:
  assumes "handed_out items hs"
  shows "handed_out (items @ [c]) (emit (WBytes (render c)) hs)"
proof -
  obtain n where n: "hs_wire hs = map (WBytes \<circ> render) (take n items)" using assms by (auto simp: handed_out_def)
  have "take (min n (length items)) (items @ [c]) = take n items" by (simp add: min_def)
  then have w: "hs_wire hs = map (WBytes \<circ> render) (take (min n (length items)) (items @ [c]))" using n by metis
  show ?thesis
  proof (cases "hs_closed hs")
    case True
    then show ?thesis unfolding handed_out_def emit_def 
      by (simp del: take_append map_append) (rule exI, rule w)
  next
    case False
    then show ?thesis
      using assms by (auto simp: handed_out_def emit_def intro: exI [of _ "Suc (length items)"])
  qed
qed

text \<open>The writer takes the next string when no write is outstanding.\<close>

lemma do_write_streaming:
  assumes st: "in_stream hs" and sc: "scripted lib items hs" and items: "[] \<notin> set items"
    and free: "pending_count PWrite hs = 0" "pending_count PLastWrite hs = 0"
  shows "streaming lib (do_write hs)"
proof (cases "hs_write_queue hs")
  case Nil
  have ne: "items \<noteq> []" using sc by (simp add: scripted_def)
  then have l: "last items \<noteq> []" using items last_in_set by metis
  have b: "[] \<notin> set (butlast items)" using items in_set_butlastD by metis
  have "scripted lib items (do_write hs) \<and> writer items (do_write hs)"
    using Nil sc free l b by (simp add: do_write_def scripted_def handed_out_def writer_def)
  moreover have "in_stream (do_write hs)" using Nil st by (simp add: do_write_def in_stream_def)
  ultimately show ?thesis by (auto simp: streaming_def)
next
  case (Cons c rest)
  let ?hs1 = "hs\<lparr>hs_write_in_progress := True, hs_write_queue := rest\<rparr>"
  let ?hs2 = "start_op (if c = [] then PLastWrite else PWrite) (emit (WBytes (render c)) ?hs1)"
  have rs: "hs_response_started hs" using st by (simp add: in_stream_def)
  have dw: "do_write hs = ?hs2" using Cons rs by (simp add: do_write_def render_def Let_def)
  have rest: "hs_write_queue ?hs2 = rest" by (simp add: start_op_def emit_def)
  have "handed_out items ?hs1" using sc by (simp add: scripted_def handed_out_def)
  then have "handed_out (items @ [c]) (emit (WBytes (render c)) ?hs1)" by (rule handed_out_emit)
  then have "handed_out (items @ [c]) ?hs2" by (simp add: handed_out_def start_op_def)
  then have "scripted lib (items @ [c]) ?hs2" using sc Cons rest by (simp add: scripted_def)
  moreover have "writer (items @ [c]) ?hs2" using items free
    by (cases "c = []") (simp_all add: writer_def start_op_def emit_def)
  moreover have "in_stream ?hs2" using st by (simp add: in_stream_def start_op_def emit_def)
  ultimately show ?thesis using dw by (auto simp: streaming_def)
qed

lemma streaming_watch [simp]: "streaming lib (stop_disconnect_watch hs) = streaming lib hs"
  by (simp add: streaming_def in_stream_def scripted_def handed_out_def writer_def stop_disconnect_watch_def)

lemma push_streaming:
  assumes inv: "streaming lib hs" and g: "event_group lib g"
  defines "hs2 \<equiv> hs\<lparr>hs_write_queue := hs_write_queue hs @ g\<rparr>"
  shows "streaming lib (if \<not> hs_write_in_progress hs then do_write hs2 else hs2)"
proof -
  obtain items groups where it: "in_stream hs" "items \<noteq> []" "handed_out items hs" "writer items hs"
    "items @ hs_write_queue hs = kHeaders # concat groups" "list_all (event_group lib) groups"
    using inv by (auto simp: streaming_def scripted_def)
  have q: "items @ hs_write_queue hs2 = kHeaders # concat (groups @ [g])"
    unfolding hs2_def using it(5) by (simp flip: append_assoc)
  have gs: "list_all (event_group lib) (groups @ [g])" using it(6) g by simp
  have "handed_out items hs2" using it(3) by (simp add: handed_out_def hs2_def)
  then have sc: "scripted lib items hs2" unfolding scripted_def using it(2) q gs by blast
  have st: "in_stream hs2" using it(1) by (simp add: in_stream_def hs2_def)
  show ?thesis
  proof (cases "hs_write_in_progress hs")
    case True
    then have "writer items hs2" using it(4) by (auto simp: writer_def hs2_def split: if_splits)
    then show ?thesis using True sc st by (auto simp: streaming_def)
  next
    case False
    then have "[] \<notin> set (butlast items)" "last items \<noteq> []" using it(4) by (auto simp: writer_def split: if_splits)
    then have "[] \<notin> set items" using it(2) by (metis append_butlast_last_id rotate1.simps(2) set_ConsD set_rotate1)
    moreover have "pending_count PWrite hs2 = 0" "pending_count PLastWrite hs2 = 0"
      using False it(4) by (auto simp: writer_def hs2_def split: if_splits)
    ultimately show ?thesis using do_write_streaming [OF st sc] False by simp
  qed
qed

lemma queue_write_state:
  assumes "braces lib" "streaming lib hs" "serialize_state_event lib sn = Inr e"
  shows "streaming lib (queue_write e False hs)"
proof -
  have "event_group lib [e]" using assms(3) by (auto simp: event_group_def)
  then show ?thesis
    using push_streaming [OF assms(2), of "[e]"] state_event_start [OF assms(1,3)]
    by (simp add: queue_write_def Let_def)
qed

lemma queue_write_terminal:
  assumes "braces lib" "streaming lib hs" "serialize_terminal_event lib sn = Inr e" "is_terminal_state (sn_state sn)"
  shows "streaming lib (queue_write e True hs)"
proof -
  have "event_group lib [e, []]" using assms(3,4) by (auto simp: event_group_def)
  then show ?thesis
    using push_streaming [OF assms(2), of "[e, []]"] terminal_event_start [OF assms(1,3)]
    by (simp add: queue_write_def Let_def split: if_splits)
qed

lemma start_stream_streaming:
  assumes "waiting_answer hs \<and> hs_stream_mode hs \<or> streaming lib hs"
  shows "streaming lib (start_stream hs)"
proof (cases "hs_response_started hs")
  case True
  then have "streaming lib hs" using assms by (auto simp: waiting_answer_def silent_def)
  then show ?thesis using True by (simp add: start_stream_def)
next
  case False
  then have w: "waiting_answer hs" "hs_stream_mode hs" using assms by (auto simp: streaming_def in_stream_def)
  have k: "kHeaders \<noteq> []" "prefix ''HTTP/1.1'' kHeaders" by (simp_all add: kHeaders_def)
  then have r: "render kHeaders = kHeaders" by (simp add: render_def)
  let ?hs = "start_stream hs"
  have "in_stream ?hs \<and> hs_write_queue ?hs = [] \<and> hs_write_in_progress ?hs \<and>
      pending_count PWrite ?hs = 1 \<and> pending_count PLastWrite ?hs = 0 \<and>
      hs_wire ?hs = (if hs_closed hs then [] else [WBytes kHeaders]) \<and> hs_closed ?hs = hs_closed hs"
    using w False k by (simp add: start_stream_def queue_write_def do_write_def start_op_def emit_def
        stop_disconnect_watch_def in_stream_def waiting_answer_def silent_def Let_def)
  moreover from this have "handed_out [kHeaders] ?hs"
    using r by (auto simp: handed_out_def intro: exI [of _ 0] exI [of _ 1])
  ultimately have "in_stream ?hs \<and> scripted lib [kHeaders] ?hs \<and> writer [kHeaders] ?hs"
    using k by (simp add: scripted_def writer_def exI [of _ "[]"])
  then show ?thesis by (auto simp: streaming_def)
qed

section \<open>Handlers keep the invariant\<close>

lemma send_json_inv:
  assumes "silent hs" "pending_count PRead hs = 0" "hs_active_request hs = None \<longrightarrow> no_updates hs"
    "hs_stream_mode hs \<longrightarrow> hs_active_request hs = None" "\<not> hs_closed hs"
  shows "answered_json (send_json_response c b hs)"
  using assms by (simp add: send_json_response_def start_op_def emit_def stop_disconnect_watch_def phase_defs)

lemma send_json_reading:
  assumes "reading hs" "pending_count PRead hs = 0"
  shows "session_inv lib (send_json_response c b hs)"
proof (cases "hs_closed hs")
  case True
  then show ?thesis using assms by (simp add: send_json_response_def session_inv_def)
next
  case False
  then show ?thesis using send_json_inv [of hs c b] assms by (simp add: reading_def session_inv_def)
qed

lemma on_state_update_inv:
  assumes b: "braces lib" and inv: "session_inv lib hs" and active: "hs_active_request hs \<noteq> None"
    and run: "on_state_update lib sn hs = Inr hs'"
  shows "session_inv lib hs'"
proof -
  have phases: "waiting_answer hs \<or> answered_json hs \<and> \<not> hs_stream_mode hs \<or> streaming lib hs"
    using inv active by (auto simp: session_inv_def reading_def answered_json_def)
  consider (closed) "hs_closed hs" | (stream) "\<not> hs_closed hs" "hs_stream_mode hs"
    | (update) "\<not> hs_closed hs" "\<not> hs_stream_mode hs" "\<not> is_terminal_state (sn_state sn)"
    | (answer) "\<not> hs_closed hs" "\<not> hs_stream_mode hs" "is_terminal_state (sn_state sn)" by blast
  then show ?thesis
  proof cases
    case stream
    then have "streaming lib (start_stream hs)" using phases by (intro start_stream_streaming) auto
    then have "streaming lib hs'"
      using run stream queue_write_terminal [OF b] queue_write_state [OF b]
      by (auto simp: on_state_update_def Let_def split: if_splits sum.splits)
    then show ?thesis by (simp add: session_inv_def)
  next
    case answer
    obtain c body where hs': "hs' = send_json_response c body (stop_disconnect_watch hs)"
      using run answer by (auto simp: on_state_update_def split: sum.splits)
    have m: "minor hs (stop_disconnect_watch hs)" by (simp add: minor_def stop_disconnect_watch_def)
    show ?thesis
    proof (cases "hs_json_response_started hs")
      case True
      then have "hs' = stop_disconnect_watch hs" using hs' by (simp add: send_json_response_def stop_disconnect_watch_def)
      then show ?thesis using minor_session_inv [OF m inv] by simp
    next
      case False
      then have "waiting_answer hs" using phases answer by (auto simp: answered_json_def streaming_def in_stream_def)
      then have "answered_json hs'"
        unfolding hs' using answer by (intro send_json_inv) (auto simp: phase_defs stop_disconnect_watch_def)
      then show ?thesis by (simp add: session_inv_def)
    qed
  qed (use run inv in \<open>simp_all add: on_state_update_def\<close>)
qed

lemma submit_active_waiting: "waiting_answer hs \<Longrightarrow> waiting_answer (fst (submit_active a (hs, env)))"
proof -
  assume hs: "waiting_answer hs"
  then have "waiting_answer (arm_disconnect_watch hs)" by (simp add: phase_defs arm_disconnect_watch_def start_op_def)
  then show ?thesis using hs fst_submit_active [of a hs env] by auto
qed

lemma start_infer_waiting:
  assumes "silent hs" "pending_count PRead hs = 0"
  shows "waiting_answer (fst (start_infer stream spec (hs, env)))"
  unfolding start_infer_def Let_def case_prod_beta prod.sel
  using assms by (intro submit_active_waiting) (simp add: phase_defs start_op_def)

lemma handle_request_inv:
  assumes hs: "reading hs" "pending_count PRead hs = 0" and run: "handle_request lib req (hs, env) = Inr (hs', env')"
  shows "session_inv lib hs'"
proof -
  let ?hs1 = "\<lambda>stream. hs\<lparr>hs_stream_mode := stream\<rparr>"
  have "session_inv lib (fst (start_infer stream spec (?hs1 stream, env)))" for stream spec
  proof -
    have "silent (?hs1 stream)" "pending_count PRead (?hs1 stream) = 0" using hs by (simp_all add: phase_defs)
    then show ?thesis unfolding session_inv_def using start_infer_waiting by blast
  qed
  moreover have "session_inv lib (send_json_response c b (?hs1 stream))" for c b stream
    using hs by (intro send_json_reading) (auto simp: phase_defs)
  moreover have "session_inv lib (send_json_response c b hs)" for c b
    using hs by (rule send_json_reading)
  ultimately show ?thesis
    using run by (auto simp: handle_request_def Let_def split: if_splits prod.splits sum.splits) (metis fst_conv)+
qed

lemma on_read_inv:
  assumes "reading hs" "pending_count PRead hs = 0" "on_read lib ec req (hs, env) = Inr (hs', env')"
  shows "session_inv lib hs'"
proof -
  consider (limit) "ec = BodyLimit" | (error) "ec \<noteq> BodyLimit" "ec \<noteq> NoError" | (request) "ec = NoError" by blast
  then show ?thesis
  proof cases
    case limit
    then show ?thesis using assms(3) send_json_reading [OF assms(1,2)] by (auto simp: on_read_def)
  next
    case error
    then have "hs' = fst (close_session (hs, env))" using assms(3) by (auto simp: on_read_def)
    moreover have "session_inv lib hs" using assms(1) by (simp add: session_inv_def)
    ultimately show ?thesis using minor_session_inv [OF minor_close] by simp
  next
    case request
    then show ?thesis using assms(3) handle_request_inv [OF assms(1,2)] by (simp add: on_read_def)
  qed
qed

lemma on_write_inv:
  assumes "session_inv lib hs" "PWrite \<in> set (hs_pending hs)"
  shows "session_inv lib (fst (on_write ec (hs\<lparr>hs_pending := remove1 PWrite (hs_pending hs)\<rparr>, env)))"
    (is "session_inv lib (fst (on_write ec (?hs, env)))")
proof (cases "ec = NoError")
  case False
  then show ?thesis using minor_session_inv [OF minor_remove_close assms(1)] by (simp add: fst_on_write)
next
  case True
  have "pending_count PWrite hs \<noteq> 0" using assms(2) by (simp add: count_list_0_iff)
  then obtain items where it: "in_stream hs" "scripted lib items hs" "writer items hs"
    using assms(1) by (auto simp: session_inv_def phase_defs streaming_def)
  then have w: "[] \<notin> set (butlast items)" "last items \<noteq> []" "pending_count PWrite hs \<le> 1" "pending_count PLastWrite hs = 0"
    using \<open>pending_count PWrite hs \<noteq> 0\<close> by (auto simp: writer_def split: if_splits)
  have ne: "items \<noteq> []" using it(2) by (simp add: scripted_def)
  have "[] \<notin> set items"
    using w(1,2) ne by (metis append_butlast_last_id rotate1.simps(2) set_ConsD set_rotate1)
  moreover have "in_stream ?hs" "scripted lib items ?hs"
    using it by (simp_all add: in_stream_def scripted_def handed_out_def count_list_remove1)
  moreover have "pending_count PWrite ?hs = 0" "pending_count PLastWrite ?hs = 0"
    using w(3,4) by (simp_all add: count_list_remove1)
  ultimately have "streaming lib (do_write ?hs)" by (intro do_write_streaming) auto
  then show ?thesis using True by (simp add: fst_on_write session_inv_def)
qed

lemma run_handler_inv:
  assumes b: "braces lib" and inv: "session_inv lib hs" and p: "p \<in> set (hs_pending hs)"
    and run: "run_handler lib p c (hs\<lparr>hs_pending := remove1 p (hs_pending hs)\<rparr>, env) = Inr (hs', env')"
  shows "session_inv lib hs'"
proof -
  let ?hs = "hs\<lparr>hs_pending := remove1 p (hs_pending hs)\<rparr>"
  have inv1: "session_inv lib ?hs" if "p \<noteq> PWrite" using minor_session_inv [OF minor_remove inv] that by simp
  have count: "pending_count p hs \<noteq> 0" using p by (simp add: count_list_0_iff)
  show ?thesis
  proof (cases p)
    case PRead
    then have "reading hs" using inv count by (auto simp: session_inv_def phase_defs streaming_def)
    then have r: "reading ?hs" and z: "pending_count PRead ?hs = 0"
      using PRead by (auto simp: phase_defs count_list_remove1)
    have "on_read lib (co_ec c) (co_request c) (?hs, env) = Inr (hs', env')" using run PRead by simp
    then show ?thesis by (rule on_read_inv [OF r z])
  next
    case PWait
    then show ?thesis
      using run minor_session_inv [OF minor_peer_wait inv1, of "co_ec c" "co_probe_ec c" "co_probe_bytes c" env] by simp
  next
    case PWrite
    then show ?thesis using run on_write_inv [OF inv, of "co_ec c" env] p by simp
  next
    case PLastWrite
    then show ?thesis
      using run fst_on_last_write [of "co_ec c" ?hs env] minor_session_inv [OF minor_close inv1] by auto
  next
    case PJsonWrite
    then show ?thesis
      using run fst_on_json_write [of "co_ec c" ?hs env] minor_session_inv [OF minor_close inv1] by auto
  next
    case (PTimer a)
    then show ?thesis using run inv1 by simp
  next
    case (PUpdate sn)
    then have "hs_active_request hs \<noteq> None"
      using inv count by (auto simp: session_inv_def phase_defs streaming_def)
    then show ?thesis
      using run PUpdate on_state_update_inv [OF b inv1] by (auto split: sum.splits)
  qed
qed

section \<open>Runs of a session\<close>

text \<open>
  Everything that can happen to a session: an operation completes with any result, an observer
  posts an update once it has been registered, which is when the request has been created, the
  server shuts the session down, or the rest of the program moves on in any way.
\<close>

inductive session_step :: "JsonLib \<Rightarrow> HttpSession \<times> 'b Env \<Rightarrow> HttpSession \<times> 'b Env \<Rightarrow> bool" for lib where
  completes: "p \<in> set (hs_pending hs) \<Longrightarrow>
    run_handler lib p c (hs\<lparr>hs_pending := remove1 p (hs_pending hs)\<rparr>, env) = Inr se \<Longrightarrow>
    session_step lib (hs, env) se"
| posted: "hs_active_request hs \<noteq> None \<Longrightarrow>
    session_step lib (hs, env) (hs\<lparr>hs_pending := hs_pending hs @ [PUpdate sn]\<rparr>, env)"
| shut_down: "session_step lib (hs, env) (session_shutdown (hs, env))"
| others: "session_step lib (hs, env) (hs, env')"

lemma posted_inv:
  assumes "session_inv lib hs" "hs_active_request hs \<noteq> None"
  shows "session_inv lib (hs\<lparr>hs_pending := hs_pending hs @ [PUpdate sn]\<rparr>)" (is "session_inv lib ?hs")
proof -
  have "waiting_answer hs \<Longrightarrow> waiting_answer ?hs" by (simp add: waiting_answer_def silent_def)
  moreover have "answered_json hs \<Longrightarrow> answered_json ?hs" using assms(2) by (auto simp: answered_json_def)
  moreover have "in_stream ?hs = in_stream hs" "scripted lib items ?hs = scripted lib items hs"
    "writer items ?hs = writer items hs" for items
    by (simp_all add: in_stream_def scripted_def handed_out_def writer_def)
  then have "streaming lib hs \<Longrightarrow> streaming lib ?hs" by (simp add: streaming_def)
  ultimately show ?thesis using assms by (auto simp: session_inv_def reading_def)
qed

lemma session_step_inv:
  assumes "session_step lib se se'" "braces lib" "session_inv lib (fst se)"
  shows "session_inv lib (fst se')"
  using assms(1)
proof cases
  case (completes p hs c env)
  then show ?thesis using run_handler_inv [OF assms(2)] assms(3) by (cases se') auto
next
  case (posted hs env sn)
  then show ?thesis using posted_inv assms(3) by simp
next
  case (shut_down hs env)
  then show ?thesis using minor_session_inv [OF minor_close] assms(3) by simp
next
  case (others hs env env')
  then show ?thesis using assms(3) by simp
qed

lemma session_start_inv: "session_inv lib (session_start (session_make k))"
  by (simp add: session_inv_def reading_def silent_def no_updates_def session_start_def do_read_def start_op_def session_make_def)

lemma session_run_inv:
  assumes "(session_step lib)\<^sup>*\<^sup>* (session_start (session_make k), env) se" "braces lib"
  shows "session_inv lib (fst se)"
  using assms(1) by induction (auto intro: session_start_inv session_step_inv [OF _ assms(2)])

end
