(* ===== verification/AR_Session_Wire.thy ===== *)
theory AR_Session_Wire
  imports AR_Session_Props
begin

text \<open>
  The output of a session as a client reads it: a decoder for chunked streams, the proof that it
  gives back the events of the session, and the proof that a settled request is answered.
\<close>

section \<open>Decoding a stream\<close>

text \<open>The chunks of a text, and whether the last chunk has been reached.\<close>

function dechunk :: "string \<Rightarrow> (string list \<times> bool) option" where
  "dechunk s =
     (if s = [] then Some ([], False)
      else
        (let ds = takeWhile (is_digit 16) s; rest = dropWhile (is_digit 16) s;
             n = base_value 16 0 ds; body = drop 2 rest
         in if ds = [] \<or> take 2 rest \<noteq> crlf then None
            else if n = 0 then (if body = crlf then Some ([], True) else None)
            else if take 2 (drop n body) \<noteq> crlf then None
            else map_option (\<lambda>(cs, fin). (take n body # cs, fin)) (dechunk (drop (n + 2) body))))"
  by pat_completeness auto
termination
proof (relation "measure length")
  fix s rest body :: string and ds n
  assume "s \<noteq> []" "rest = dropWhile (is_digit 16) s" "body = drop 2 rest"
  then have "length body \<le> length s" using length_dropWhile_le [of "is_digit 16" s] by simp
  then show "(drop (n + 2) body, s) \<in> measure length" using \<open>s \<noteq> []\<close> by (simp, cases s; auto)
qed simp

declare dechunk.simps [simp del]

definition read_stream :: "string \<Rightarrow> (string list \<times> bool) option" where
  "read_stream s = (if prefix kHeaders s then dechunk (drop (length kHeaders) s) else None)"

lemma crlf_start: "\<not> is_digit 16 (hd crlf)" "crlf = hd crlf # tl crlf" "length crlf = 2"
  by (simp_all add: crlf_def is_digit_def Let_def)

lemma size_line:
  "takeWhile (is_digit 16) (to_base 16 n @ crlf @ s) = to_base 16 n"
  "dropWhile (is_digit 16) (to_base 16 n @ crlf @ s) = crlf @ s"
proof -
  have "list_all (is_digit 16) (to_base 16 n)" by (simp add: to_base_digits)
  then have "takeWhile (is_digit 16) (to_base 16 n @ hd crlf # tl crlf @ s) = to_base 16 n \<and>
      dropWhile (is_digit 16) (to_base 16 n @ hd crlf # tl crlf @ s) = hd crlf # tl crlf @ s"
    by (rule takeWhile_digits) (rule crlf_start)
  moreover have "crlf @ s = hd crlf # tl crlf @ s" by (metis append_Cons crlf_start(2))
  ultimately show "takeWhile (is_digit 16) (to_base 16 n @ crlf @ s) = to_base 16 n"
    "dropWhile (is_digit 16) (to_base 16 n @ crlf @ s) = crlf @ s" by metis+
qed

lemma dechunk_frame:
  assumes "c \<noteq> []"
  shows "dechunk (frame c @ s) = map_option (\<lambda>(cs, fin). (c # cs, fin)) (dechunk s)"
proof -
  have f: "frame c @ s = to_base 16 (length c) @ crlf @ (c @ crlf @ s)" by (simp add: frame_def)
  show ?thesis
    using assms unfolding f by (subst dechunk.simps) (simp add: size_line base_value_to_base crlf_start(3) Let_def)
qed

lemma dechunk_last: "dechunk last_chunk = Some ([], True)"
proof -
  have "to_base 16 0 = ''0''" by code_simp
  then have l: "last_chunk = to_base 16 0 @ crlf @ crlf" by (simp add: last_chunk_def)
  show ?thesis
    unfolding l by (subst dechunk.simps) (simp add: size_line base_value_to_base crlf_start(3) Let_def)
qed

lemma dechunk_frames:
  "[] \<notin> set chunks \<Longrightarrow> dechunk (concat (map frame chunks) @ (if fin then last_chunk else [])) = Some (chunks, fin)"
proof (induction chunks)
  case Nil
  have "dechunk [] = Some ([], False)" by (subst dechunk.simps) simp
  then show ?case by (simp add: dechunk_last)
next
  case (Cons c chunks)
  then show ?case
    using dechunk_frame [of c "concat (map frame chunks) @ (if fin then last_chunk else [])"] by (simp split: if_splits)
qed

section \<open>What a client receives\<close>

definition wire_text :: "wire_item list \<Rightarrow> string" where
  "wire_text ws = concat (map (\<lambda>x. case x of WBytes b \<Rightarrow> b | WResponse _ _ \<Rightarrow> []) ws)"

definition state_line :: "JsonLib \<Rightarrow> string \<Rightarrow> bool" where
  "state_line lib e \<longleftrightarrow> (\<exists>sn. serialize_state_event lib sn = Inr e)"

definition terminal_line :: "JsonLib \<Rightarrow> string \<Rightarrow> bool" where
  "terminal_line lib e \<longleftrightarrow> (\<exists>sn. is_terminal_state (sn_state sn) \<and> serialize_terminal_event lib sn = Inr e)"

definition event_text :: "JsonLib \<Rightarrow> string \<Rightarrow> bool" where
  "event_text lib e \<longleftrightarrow> e \<noteq> [] \<and> \<not> prefix ''HTTP/1.1'' e \<and> (state_line lib e \<or> terminal_line lib e)"

lemma event_group_cases:
  assumes "event_group lib g" "braces lib"
  obtains (state) e where "g = [e]" "event_text lib e"
  | (final) e where "g = [e, []]" "terminal_line lib e" "event_text lib e"
proof -
  from assms(1) show ?thesis
    unfolding event_group_def
  proof (elim disjE exE conjE)
    fix sn e
    assume "serialize_state_event lib sn = Inr e" "g = [e]"
    then show ?thesis
      using state_event_start [OF assms(2)] by (intro state) (auto simp: event_text_def state_line_def)
  next
    fix sn e
    assume "is_terminal_state (sn_state sn)" "serialize_terminal_event lib sn = Inr e" "g = [e, []]"
    then show ?thesis
      using terminal_event_start [OF assms(2)] by (intro final) (auto simp: event_text_def terminal_line_def)
  qed
qed

text \<open>A prefix of the groups that has the empty string at most at its end.\<close>

lemma groups_prefix:
  assumes "prefix sofar (concat groups)" "list_all (event_group lib) groups" "[] \<notin> set (butlast sofar)" "braces lib"
  shows "\<exists>chunks fin. sofar = chunks @ (if fin then [[]] else []) \<and>
    list_all (event_text lib) chunks \<and> (fin \<longrightarrow> chunks \<noteq> [] \<and> terminal_line lib (last chunks))"
  using assms(1-3)
proof (induction groups arbitrary: sofar)
  case Nil
  then show ?case by (auto intro: exI [of _ False])
next
  case (Cons g groups)
  show ?case
  proof (cases sofar)
    case Nil
    then show ?thesis by (auto intro: exI [of _ False])
  next
    case sofar: (Cons t ts)
    from Cons.prems(2) have "event_group lib g" by simp
    then show ?thesis
      using assms(4)
    proof (cases rule: event_group_cases)
      case (state e)
      then have "t = e" "prefix ts (concat groups)" using Cons.prems(1) sofar by simp_all
      moreover have "[] \<notin> set (butlast ts)" using Cons.prems(3) sofar by (auto split: if_splits)
      ultimately obtain chunks fin where "ts = chunks @ (if fin then [[]] else [])" "list_all (event_text lib) chunks"
        "fin \<longrightarrow> chunks \<noteq> [] \<and> terminal_line lib (last chunks)"
        using Cons.IH [of ts] Cons.prems(2) by auto
      then show ?thesis using sofar state \<open>t = e\<close> by (intro exI [of _ "e # chunks"] exI [of _ fin]) auto
    next
      case (final e)
      then have te: "t = e" "prefix ts ([] # concat groups)" using Cons.prems(1) sofar by simp_all
      show ?thesis
      proof (cases ts)
        case Nil
        then show ?thesis using sofar te final by (intro exI [of _ "[e]"] exI [of _ False]) auto
      next
        case (Cons u us)
        then have "u = []" using te(2) by simp
        moreover have "us = []" using Cons.prems(3) sofar Cons \<open>u = []\<close> by (auto split: if_splits)
        ultimately show ?thesis using sofar te final Cons by (intro exI [of _ "[e]"] exI [of _ True]) auto
      qed
    qed
  qed
qed

lemma set_butlast_take: "set (butlast (take n xs)) \<subseteq> set (butlast xs)"
proof (cases "n < length xs")
  case True
  then have "take n xs = take n (butlast xs)" by (simp add: take_butlast)
  then show ?thesis by (metis in_set_butlastD in_set_takeD subsetI)
qed simp

lemma render_chunks:
  assumes "list_all (event_text lib) chunks"
  shows "wire_text (map (WBytes \<circ> render) (kHeaders # chunks @ (if fin then [[]] else []))) =
    kHeaders @ concat (map frame chunks) @ (if fin then last_chunk else [])"
proof -
  have bytes: "wire_text (map (WBytes \<circ> render) xs) = concat (map render xs)" for xs
    by (simp add: wire_text_def comp_def)
  have "map render chunks = map frame chunks" using assms by (auto simp: render_def list_all_iff event_text_def)
  moreover have "render kHeaders = kHeaders" "render [] = last_chunk" by (simp_all add: render_def kHeaders_def)
  ultimately show ?thesis unfolding bytes by (simp cong: map_cong)
qed

lemma streaming_wire:
  assumes "braces lib" "streaming lib hs" "hs_wire hs \<noteq> []"
  shows "\<exists>chunks fin. read_stream (wire_text (hs_wire hs)) = Some (chunks, fin) \<and>
    list_all (\<lambda>e. state_line lib e \<or> terminal_line lib e) chunks \<and>
    (fin \<longrightarrow> chunks \<noteq> [] \<and> terminal_line lib (last chunks))"
proof -
  obtain items groups n where it: "hs_wire hs = map (WBytes \<circ> render) (take n items)" "writer items hs"
    "items @ hs_write_queue hs = kHeaders # concat groups" "list_all (event_group lib) groups" "items \<noteq> []"
    using assms(2) by (auto simp: streaming_def scripted_def handed_out_def)
  have "take n items \<noteq> []" using it(1) assms(3) by auto
  then obtain sofar where sofar: "take n items = kHeaders # sofar"
    using it(3,5) by (metis append_Cons list.sel(1) neq_Nil_conv take_Cons' hd_append2)
  have "prefix (take n items) (items @ hs_write_queue hs)" by (metis append_assoc append_take_drop_id prefixI)
  then have "prefix sofar (concat groups)" using it(3) sofar by simp
  moreover have "[] \<notin> set (butlast sofar)"
    using it(2) set_butlast_take [of n items] sofar by (auto simp: writer_def split: if_splits)
  ultimately obtain chunks fin where c: "sofar = chunks @ (if fin then [[]] else [])"
    "list_all (event_text lib) chunks"
    "fin \<longrightarrow> chunks \<noteq> [] \<and> terminal_line lib (last chunks)"
    using groups_prefix [OF _ it(4) _ assms(1)] by blast
  have "wire_text (hs_wire hs) = kHeaders @ concat (map frame chunks) @ (if fin then last_chunk else [])"
    using render_chunks [OF c(2)] it(1) sofar c(1) by simp
  moreover have "[] \<notin> set chunks" using c(2) by (auto simp: list_all_iff event_text_def)
  ultimately have "read_stream (wire_text (hs_wire hs)) = Some (chunks, fin)"
    using dechunk_frames by (simp add: read_stream_def)
  then show ?thesis using c(2,3) by (auto simp: list_all_iff event_text_def)
qed

lemma streaming_bytes: "streaming lib hs \<Longrightarrow> set (hs_wire hs) \<subseteq> range WBytes"
  by (auto simp: streaming_def scripted_def handed_out_def dest: in_set_takeD)

lemma one_write:
  "session_inv lib hs \<Longrightarrow> pending_count PWrite hs + pending_count PLastWrite hs + pending_count PJsonWrite hs \<le> 1"
  by (auto simp: session_inv_def phase_defs streaming_def writer_def split: if_splits)

text \<open>
  C9: Whatever a session sends is well formed. In whatever order its operations complete and
  whatever errors they report, a session has handed to the socket nothing, or one JSON response,
  or the headers of a stream followed by chunks that a client decodes to the events of the request,
  each a line the handler has written; if the end of the stream has been sent, the last event is a
  terminal one and nothing follows it. At most one write is under way at any time.
\<close>

theorem response_framing:
  assumes lib: "braces lib" and run: "(session_step lib)\<^sup>*\<^sup>* (session_start (session_make k), env) (hs, env')"
  shows "(hs_wire hs = [] \<or> (\<exists>c b. hs_wire hs = [WResponse c b]) \<or>
      (\<exists>chunks fin. set (hs_wire hs) \<subseteq> range WBytes \<and>
         read_stream (wire_text (hs_wire hs)) = Some (chunks, fin) \<and>
         list_all (\<lambda>e. state_line lib e \<or> terminal_line lib e) chunks \<and>
         (fin \<longrightarrow> chunks \<noteq> [] \<and> terminal_line lib (last chunks)))) \<and>
    pending_count PWrite hs + pending_count PLastWrite hs + pending_count PJsonWrite hs \<le> 1"
proof -
  have inv: "session_inv lib hs" using session_run_inv [OF run lib] by simp
  then consider "hs_wire hs = []" | "\<exists>c b. hs_wire hs = [WResponse c b]" | "streaming lib hs" "hs_wire hs \<noteq> []"
    by (auto simp: session_inv_def phase_defs)
  then show ?thesis
    using one_write [OF inv] streaming_wire [OF lib] streaming_bytes by cases blast+
qed

section \<open>Answering a settled request\<close>

text \<open>The outstanding writes complete one after the other, without errors.\<close>

definition is_write :: "pending_op \<Rightarrow> bool" where
  "is_write p \<longleftrightarrow> p = PWrite \<or> p = PLastWrite \<or> p = PJsonWrite"

fun finish_writes :: "JsonLib \<Rightarrow> completion \<Rightarrow> nat \<Rightarrow> HttpSession \<times> 'b Env \<Rightarrow> HttpSession \<times> 'b Env" where
  "finish_writes lib c 0 se = se"
| "finish_writes lib c (Suc n) (hs, env) =
     (case find is_write (hs_pending hs) of
        None \<Rightarrow> (hs, env)
      | Some p \<Rightarrow>
          (case run_handler lib p c (hs\<lparr>hs_pending := remove1 p (hs_pending hs)\<rparr>, env) of
             Inl _ \<Rightarrow> (hs, env)
           | Inr se \<Rightarrow> finish_writes lib c n se))"

lemma find_write:
  assumes "is_write p" "count_list xs p \<noteq> 0" "\<And>q. is_write q \<Longrightarrow> q \<noteq> p \<Longrightarrow> count_list xs q = 0"
  shows "find is_write xs = Some p"
  using assms
proof (induction xs)
  case (Cons x xs)
  show ?case
  proof (cases "is_write x")
    case True
    then have "x = p" using Cons.prems(3) [of x] by force
    then show ?thesis using True by simp
  next
    case False
    then have "x \<noteq> p" using Cons.prems(1) by blast
    moreover have "count_list xs q = 0" if "is_write q" "q \<noteq> p" for q using Cons.prems(3) [OF that] by (simp split: if_splits)
    ultimately show ?thesis using Cons False by simp
  qed
qed simp

text \<open>An open session that is writing one string and has the rest of its stream queued.\<close>

definition writing :: "string list \<Rightarrow> HttpSession \<Rightarrow> bool" where
  "writing items hs \<longleftrightarrow>
     \<not> hs_closed hs \<and> hs_response_started hs \<and> hs_wire hs = map (WBytes \<circ> render) items \<and>
     hs_write_in_progress hs \<and> pending_count PWrite hs = 1 \<and> pending_count PLastWrite hs = 0 \<and>
     pending_count PJsonWrite hs = 0"

lemma finish_stream:
  assumes "writing items hs" "hs_write_queue hs = xs @ [[]]" "[] \<notin> set xs" "co_ec c = NoError"
  shows "hs_closed (fst (finish_writes lib c (length xs + 2) (hs, env))) \<and>
    hs_wire (fst (finish_writes lib c (length xs + 2) (hs, env))) = map (WBytes \<circ> render) (items @ xs @ [[]])"
  using assms(1-3)
proof (induction xs arbitrary: hs items)
  case Nil
  let ?hs0 = "hs\<lparr>hs_pending := remove1 PWrite (hs_pending hs)\<rparr>"
  let ?hs1 = "do_write ?hs0"
  have "find is_write (hs_pending hs) = Some PWrite"
    using Nil.prems by (intro find_write) (auto simp: is_write_def writing_def)
  moreover have "find is_write (hs_pending ?hs1) = Some PLastWrite"
    using Nil.prems by (intro find_write)
      (auto simp: is_write_def writing_def do_write_def start_op_def emit_def count_list_remove1)
  ultimately have "finish_writes lib c (length ([] :: string list) + 2) (hs, env) =
      close_session (?hs1\<lparr>hs_pending := remove1 PLastWrite (hs_pending ?hs1)\<rparr>, env)"
    using assms(4) by (simp add: numeral_2_eq_2 on_write_def on_last_write_def)
  moreover have "hs_wire ?hs1 = map (WBytes \<circ> render) (items @ [[]])"
    using Nil.prems by (simp add: writing_def do_write_def start_op_def emit_def render_def)
  ultimately show ?case by (simp del: finish_writes.simps)
next
  case (Cons x xs)
  let ?hs0 = "hs\<lparr>hs_pending := remove1 PWrite (hs_pending hs)\<rparr>"
  let ?hs1 = "do_write ?hs0"
  have f: "find is_write (hs_pending hs) = Some PWrite"
    using Cons.prems by (intro find_write) (auto simp: is_write_def writing_def)
  have w: "writing (items @ [x]) ?hs1" "hs_write_queue ?hs1 = xs @ [[]]" "[] \<notin> set xs"
    using Cons.prems by (auto simp: writing_def do_write_def start_op_def emit_def render_def count_list_remove1 Let_def)
  have "finish_writes lib c (length (x # xs) + 2) (hs, env) = finish_writes lib c (length xs + 2) (?hs1, env)"
    using f assms(4) by (simp add: on_write_def)
  then show ?case using Cons.IH [OF w] by simp
qed

lemma start_stream_open:
  assumes "waiting_answer hs \<and> hs_stream_mode hs \<or> streaming lib hs" "\<not> hs_closed hs"
    "WBytes last_chunk \<notin> set (hs_wire hs)" "[] \<notin> set (hs_write_queue hs)"
  shows "\<not> hs_closed (start_stream hs) \<and> WBytes last_chunk \<notin> set (hs_wire (start_stream hs)) \<and>
    [] \<notin> set (hs_write_queue (start_stream hs))"
proof (cases "hs_response_started hs")
  case True
  then show ?thesis using assms by (simp add: start_stream_def)
next
  case False
  then have "waiting_answer hs" using assms(1) by (auto simp: streaming_def in_stream_def)
  moreover have "kHeaders \<noteq> last_chunk" "kHeaders \<noteq> []" "prefix ''HTTP/1.1'' kHeaders"
    by (simp_all add: kHeaders_def last_chunk_def)
  ultimately show ?thesis
    using False assms(2) by (simp add: start_stream_def queue_write_def do_write_def start_op_def emit_def
        stop_disconnect_watch_def waiting_answer_def silent_def Let_def)
qed

text \<open>The terminal event is queued behind the events of the stream.\<close>

lemma queue_terminal_writing:
  assumes inv: "streaming lib hs" and st: "\<not> hs_closed hs" "WBytes last_chunk \<notin> set (hs_wire hs)" "[] \<notin> set (hs_write_queue hs)"
    and e: "e \<noteq> []" "\<not> prefix ''HTTP/1.1'' e"
  obtains items xs groups where "writing items (queue_write e True hs)" "hs_write_queue (queue_write e True hs) = xs @ [[]]"
    "[] \<notin> set xs" "[] \<notin> set items" "items @ xs = kHeaders # concat groups @ [e]" "list_all (event_group lib) groups"
proof -
  obtain items groups where it: "in_stream hs" "hs_wire hs = map (WBytes \<circ> render) items" "writer items hs"
    "items @ hs_write_queue hs = kHeaders # concat groups" "list_all (event_group lib) groups" "items \<noteq> []"
    using inv st(1) by (auto simp: streaming_def scripted_def handed_out_def)
  have "render [] = last_chunk" by (simp add: render_def)
  then have items: "[] \<notin> set items" using st(2) it(2) by force
  then have last: "last items \<noteq> []" using it(6) last_in_set by metis
  have all: "items @ hs_write_queue hs @ [e] = kHeaders # concat groups @ [e]"
    using it(4) by (metis append_Cons append_assoc)
  show thesis
  proof (cases "hs_write_in_progress hs")
    case True
    then have "writing items (queue_write e True hs)" "hs_write_queue (queue_write e True hs) = (hs_write_queue hs @ [e]) @ [[]]"
      using it(1-3) st(1) e last by (simp_all add: writing_def queue_write_def writer_def in_stream_def Let_def)
    then show thesis using that [of items "hs_write_queue hs @ [e]" groups] items st(3) e(1) all it(5) by simp
  next
    case False
    then have q: "hs_write_queue hs = []" using it(3) last by (simp add: writer_def)
    then have "writing (items @ [e]) (queue_write e True hs)" "hs_write_queue (queue_write e True hs) = [] @ [[]]"
      using False it(1-3) st(1) e last
      by (simp_all add: writing_def queue_write_def do_write_def start_op_def emit_def render_def writer_def in_stream_def Let_def)
    then show thesis using that [of "items @ [e]" "[]" groups] items q e(1) all it(5) by simp
  qed
qed

lemma complete_stream:
  assumes "braces lib" "list_all (event_group lib) groups" "[] \<notin> set (concat groups)"
    and e: "terminal_line lib e" "event_text lib e"
    and wire: "ws = map (WBytes \<circ> render) (kHeaders # concat groups @ [e, []])"
  shows "read_stream (wire_text ws) = Some (concat groups @ [e], True)"
proof -
  have "event_group lib [e, []]" using e(1) by (auto simp: event_group_def terminal_line_def)
  then have "list_all (event_group lib) (groups @ [[e, []]])" using assms(2) by simp
  moreover have "prefix (concat groups @ [e, []]) (concat (groups @ [[e, []]]))" by simp
  moreover have "[] \<notin> set (butlast (concat groups @ [e, []]))"
    using assms(3) e(2) by (auto simp: butlast_append event_text_def)
  ultimately obtain chunks fin where c: "concat groups @ [e, []] = chunks @ (if fin then [[]] else [])"
    "list_all (event_text lib) chunks"
    using groups_prefix [of "concat groups @ [e, []]" "groups @ [[e, []]]" lib] assms(1) by blast
  have fin: "fin"
  proof (rule ccontr)
    assume "\<not> fin"
    then have "chunks = concat groups @ [e, []]" using c(1) by simp
    then have "[] \<in> set chunks" by simp
    then show False using c(2) by (auto simp: list_all_iff event_text_def)
  qed
  then have ch: "chunks = concat groups @ [e]" using c(1) by simp
  have "wire_text ws = kHeaders @ concat (map frame chunks) @ last_chunk"
    unfolding wire using render_chunks [OF c(2), of fin] fin ch by simp
  moreover have "[] \<notin> set chunks" using c(2) by (auto simp: list_all_iff event_text_def)
  ultimately show ?thesis using dechunk_frames [of chunks True] ch by (simp add: read_stream_def)
qed

lemma answer_stream:
  assumes lib: "braces lib" and inv: "waiting_answer hs \<or> streaming lib hs" "hs_stream_mode hs" "\<not> hs_closed hs"
    and first: "[] \<notin> set (hs_write_queue hs)" "WBytes last_chunk \<notin> set (hs_wire hs)"
    and snap: "is_terminal_state (sn_state snap)" "on_state_update lib snap hs = Inr hs1" and c: "co_ec c = NoError"
    and hs2_def: "hs2 = fst (finish_writes lib c (length (hs_write_queue hs1) + 1) (hs1, env))"
  shows "hs_closed hs2 \<and> (\<exists>e chunks. serialize_terminal_event lib snap = Inr e \<and>
    read_stream (wire_text (hs_wire hs2)) = Some (chunks @ [e], True))"
proof -
  let ?hs0 = "stop_disconnect_watch (start_stream hs)"
  obtain e where e: "serialize_terminal_event lib snap = Inr e" "hs1 = queue_write e True ?hs0"
    using snap inv by (auto simp: on_state_update_def Let_def split: sum.splits)
  have et: "terminal_line lib e" "event_text lib e"
    using e(1) snap(1) terminal_event_start [OF lib e(1)] by (auto simp: event_text_def terminal_line_def)
  have "streaming lib ?hs0" using start_stream_streaming [of hs lib] inv by auto
  moreover have "\<not> hs_closed ?hs0 \<and> WBytes last_chunk \<notin> set (hs_wire ?hs0) \<and> [] \<notin> set (hs_write_queue ?hs0)"
    using start_stream_open [of hs lib] inv first by (auto simp: stop_disconnect_watch_def)
  ultimately obtain items xs groups where w: "writing items hs1" "hs_write_queue hs1 = xs @ [[]]" "[] \<notin> set xs"
    "[] \<notin> set items" "items @ xs = kHeaders # concat groups @ [e]" "list_all (event_group lib) groups"
    unfolding e(2) using queue_terminal_writing [of lib ?hs0 e] et(2) unfolding event_text_def by metis
  have "hs2 = fst (finish_writes lib c (length xs + 2) (hs1, env))" by (simp add: hs2_def w(2))
  then have f: "hs_closed hs2" "hs_wire hs2 = map (WBytes \<circ> render) ((items @ xs) @ [[]])"
    using finish_stream [OF w(1-3) c, of lib env] by (simp_all del: finish_writes.simps)
  have "[] \<notin> set (items @ xs)" using w(3,4) by simp
  then have "[] \<notin> set (concat groups)" unfolding w(5) by simp
  moreover have "hs_wire hs2 = map (WBytes \<circ> render) (kHeaders # concat groups @ [e, []])" using f(2) w(5) by simp
  ultimately have "read_stream (wire_text (hs_wire hs2)) = Some (concat groups @ [e], True)"
    using complete_stream [OF lib w(6) _ et] by blast
  then show ?thesis using f(1) e(1) by blast
qed

lemma answer_json:
  assumes inv: "waiting_answer hs" "\<not> hs_stream_mode hs" "\<not> hs_closed hs"
    and snap: "is_terminal_state (sn_state snap)" "on_state_update lib snap hs = Inr hs1" and c: "co_ec c = NoError"
    and hs2_def: "hs2 = fst (finish_writes lib c (length (hs_write_queue hs1) + 1) (hs1, env))"
  shows "hs_closed hs2 \<and> (\<exists>r. serialize_infer_response lib snap = Inr r \<and>
    hs_wire hs2 = [WResponse (hr_status_code r) (hr_body r)])"
proof -
  obtain r where r: "serialize_infer_response lib snap = Inr r"
    "hs1 = send_json_response (hr_status_code r) (hr_body r) (stop_disconnect_watch hs)"
    using snap inv by (auto simp: on_state_update_def split: sum.splits)
  then have h: "hs_write_queue hs1 = []" "hs_wire hs1 = [WResponse (hr_status_code r) (hr_body r)]"
    "hs_pending hs1 = hs_pending hs @ [PJsonWrite]"
    using inv by (simp_all add: send_json_response_def start_op_def emit_def stop_disconnect_watch_def phase_defs)
  have "find is_write (hs_pending hs1) = Some PJsonWrite"
    unfolding h(3) using inv(1) by (intro find_write) (auto simp: is_write_def phase_defs)
  then show ?thesis using r(1) h c by (simp add: hs2_def on_json_write_def)
qed

text \<open>
  C8: A settled request is answered. When an open session that has not answered yet is told that
  its request is settled, and its writes succeed from then on, the session ends closed. A plain
  request has then got exactly the JSON response for the result; a stream has been ended, and its
  last event, which the client decodes, is the one for the result. As many completed writes as
  there are strings in the queue, and one more, are enough.
\<close>

theorem settled_request_answered:
  assumes lib: "braces lib" and run: "(session_step lib)\<^sup>*\<^sup>* (session_start (session_make k), env0) (hs, env)"
    and st: "\<not> hs_closed hs" "hs_active_request hs \<noteq> None" "\<not> hs_json_response_started hs"
    and first: "[] \<notin> set (hs_write_queue hs)" "WBytes last_chunk \<notin> set (hs_wire hs)"
    and snap: "is_terminal_state (sn_state snap)" "on_state_update lib snap hs = Inr hs1" and c: "co_ec c = NoError"
  shows "let hs2 = fst (finish_writes lib c (length (hs_write_queue hs1) + 1) (hs1, env)) in
    hs_closed hs2 \<and>
    (if hs_stream_mode hs
     then \<exists>e chunks. serialize_terminal_event lib snap = Inr e \<and>
       read_stream (wire_text (hs_wire hs2)) = Some (chunks @ [e], True)
     else \<exists>r. serialize_infer_response lib snap = Inr r \<and>
       hs_wire hs2 = [WResponse (hr_status_code r) (hr_body r)])"
proof -
  have "session_inv lib hs" using session_run_inv [OF run lib] by simp
  then have inv: "waiting_answer hs \<or> streaming lib hs"
    using st(2,3) by (auto simp: session_inv_def reading_def answered_json_def)
  show ?thesis
  proof (cases "hs_stream_mode hs")
    case True
    then show ?thesis using answer_stream [OF lib inv _ st(1) first snap c refl] by (simp add: Let_def del: finish_writes.simps)
  next
    case False
    then have "waiting_answer hs" using inv by (auto simp: streaming_def in_stream_def)
    then show ?thesis using answer_json [OF _ False st(1) snap c refl] False by (simp add: Let_def del: finish_writes.simps)
  qed
qed

end
