(* ===== verification/AR_Handler_Props.thy ===== *)
theory AR_Handler_Props
  imports AR_Handler
begin

text \<open>
  What the request handler promises: it accepts exactly the well-formed bodies, and the answer
  it writes can be read back, whichever of the two forms it is written in.
\<close>

section \<open>Accepted requests\<close>

text \<open>The number a field stands for, unbounded, with the value it has when it is left out.\<close>

definition field_number :: "string \<Rightarrow> int \<Rightarrow> (string \<times> Json) list \<Rightarrow> int option" where
  "field_number key dflt members =
     (case map_of members key of
        None \<Rightarrow> Some dflt
      | Some (JInteger v) \<Rightarrow> Some (sint v)
      | Some (JUnsigned v) \<Rightarrow> Some (uint v)
      | Some _ \<Rightarrow> None)"

lemma sint_cases: "if 0 \<le> sint v then uint v = sint v else 2 ^ 63 \<le> uint v" for v :: "64 word"
proof -
  have u: "uint v = sint v mod 2 ^ 64" by (simp add: uint_sint take_bit_eq_mod)
  have low: "- (2 ^ 63) \<le> sint v" using sint_ge [of v] by simp
  have high: "sint v < 2 ^ 63" using sint_lt [of v] by simp
  show ?thesis
  proof (cases "0 \<le> sint v")
    case True
    then show ?thesis using u high by simp
  next
    case False
    then have "(sint v + 2 ^ 64) mod 2 ^ 64 = sint v + 2 ^ 64" using low by (intro mod_pos_pos_trivial) auto
    then have "uint v = sint v + 2 ^ 64" using u by simp
    then show ?thesis using False low by simp
  qed
qed

lemma bounded_field_iff:
  assumes "0 \<le> lo" "hi < 2 ^ 63" "lo \<le> sint dflt" "sint dflt \<le> hi"
  shows "bounded_field key dflt lo hi members = Inr v \<longleftrightarrow>
    (\<exists>n. field_number key (sint dflt) members = Some n \<and> lo \<le> n \<and> n \<le> hi \<and> v = word_of_int n)"
proof -
  have sint: "(\<exists>n. uint x = n \<and> lo \<le> n \<and> n \<le> hi \<and> v = word_of_int n) \<longleftrightarrow>
      lo \<le> sint x \<and> sint x \<le> hi \<and> v = x" for x :: "64 word"
    using sint_cases [of x] assms(1,2) by (auto split: if_splits)
  show ?thesis
  proof (cases "map_of members key")
    case None
    then show ?thesis using assms by (auto simp: bounded_field_def field_number_def)
  next
    case (Some j)
    then show ?thesis using assms sint
      by (cases j) (auto simp: bounded_field_def field_number_def not_less not_le)
  qed
qed

lemma read_spec_iff:
  "read_spec members = Inr spec \<longleftrightarrow>
     (\<exists>mid prompt n t.
        map_of members ''model_id'' = Some (JString mid) \<and> mid \<noteq> [] \<and>
        map_of members ''prompt'' = Some (JString prompt) \<and> prompt \<noteq> [] \<and>
        bounded_field ''max_output_tokens'' 16 1 4096 members = Inr n \<and>
        bounded_field ''timeout_ms'' 30000 1 300000 members = Inr t \<and>
        spec = \<lparr>is_model_id = mid, is_prompt = prompt, is_max_output_tokens = n, is_timeout = t\<rparr>)"
  by (auto simp: read_spec_def string_field_def split: sum.splits option.splits Json.splits if_splits)

text \<open>
  C20: Exactly the well-formed inference requests are accepted. \<^verbatim>\<open>parse_infer_request\<close> returns a
  request if and only if the body is a JSON object without unknown fields, with a non-empty model
  identifier and a non-empty prompt, and with the number of tokens and the timeout, where they are
  given, integers from 1 to 4096 and from 1 to 300000. The values are those of the body, or 16
  tokens and 30 seconds. Unsigned integers too large for a signed 64 bit integer, which the cast
  makes negative, are refused as well.
\<close>

theorem parse_infer_accepts:
  "parse_infer_request lib body = Inr spec \<longleftrightarrow>
     (\<exists>members mid prompt n t.
        jl_parse lib body = Inr (JObject members) \<and>
        fst ` set members \<subseteq> {''model_id'', ''prompt'', ''max_output_tokens'', ''timeout_ms''} \<and>
        map_of members ''model_id'' = Some (JString mid) \<and> mid \<noteq> [] \<and>
        map_of members ''prompt'' = Some (JString prompt) \<and> prompt \<noteq> [] \<and>
        field_number ''max_output_tokens'' 16 members = Some n \<and> 1 \<le> n \<and> n \<le> 4096 \<and>
        field_number ''timeout_ms'' 30000 members = Some t \<and> 1 \<le> t \<and> t \<le> 300000 \<and>
        spec = \<lparr>is_model_id = mid, is_prompt = prompt, is_max_output_tokens = word_of_int n,
                is_timeout = word_of_int t\<rparr>)"
proof -
  have known: "find (\<lambda>(k, _). \<not> known_field k) members = None \<longleftrightarrow>
      fst ` set members \<subseteq> {''model_id'', ''prompt'', ''max_output_tokens'', ''timeout_ms''}" for members
    by (auto simp: find_None_iff known_field_def image_subset_iff)
  show ?thesis
    unfolding parse_infer_request_def known [symmetric]
    by (auto simp: read_spec_iff bounded_field_iff split: sum.splits Json.splits option.splits)
qed

section \<open>Answers\<close>

text \<open>What a client reads out of an answer.\<close>

record Answer =
  an_request_id :: string
  an_model_id :: string
  an_state :: RequestState
  an_output :: "InferenceOutput option"
  an_error :: "Status option"

definition read_state :: "string \<Rightarrow> RequestState option" where
  "read_state s = find (\<lambda>st. state_to_string st = s)
     [Received, Queued, Running, Completed, Rejected, Failed, Cancelled, TimedOut]"

definition read_code :: "string \<Rightarrow> ErrorCode option" where
  "read_code s = find (\<lambda>c. error_code_to_string c = s)
     [EC_None, EC_InvalidStateTransition, EC_QueueFull, EC_QueueClosed, EC_ModelNotFound,
      EC_ModelLoadFailed, EC_InferenceFailed, EC_RuntimeStopped, EC_InternalError,
      EC_InsufficientMemory, EC_NoFeasibleWorker, EC_Cancelled, EC_TimedOut, EC_ContextLengthExceeded]"

definition read_output :: "Json option \<Rightarrow> InferenceOutput option" where
  "read_output j =
     (case j of
        Some (JObject ms) \<Rightarrow>
          (case (map_of ms ''text'', map_of ms ''output_tokens'') of
             (Some (JString t), Some (JUnsigned n)) \<Rightarrow> Some \<lparr>out_text = t, out_output_tokens = n\<rparr>
           | _ \<Rightarrow> None)
      | _ \<Rightarrow> None)"

definition read_error :: "Json option \<Rightarrow> Status option" where
  "read_error j =
     (case j of
        Some (JObject ms) \<Rightarrow>
          (case (map_of ms ''code'', map_of ms ''message'') of
             (Some (JString c), Some (JString m)) \<Rightarrow>
               map_option (\<lambda>code. \<lparr>st_code = code, st_message = m\<rparr>) (read_code c)
           | _ \<Rightarrow> None)
      | _ \<Rightarrow> None)"

fun answer_of_json :: "Json \<Rightarrow> Answer option" where
  "answer_of_json (JObject ms) =
     (case (map_of ms ''request_id'', map_of ms ''model_id'', map_of ms ''state'') of
        (Some (JString rid), Some (JString mid), Some (JString st)) \<Rightarrow>
          map_option
            (\<lambda>state. \<lparr>an_request_id = rid, an_model_id = mid, an_state = state,
                     an_output = read_output (map_of ms ''output''), an_error = read_error (map_of ms ''error'')\<rparr>)
            (read_state st)
      | _ \<Rightarrow> None)"
| "answer_of_json _ = None"

definition read_answer :: "JsonLib \<Rightarrow> string \<Rightarrow> Answer option" where
  "read_answer lib s = (case jl_parse lib s of Inl _ \<Rightarrow> None | Inr j \<Rightarrow> answer_of_json j)"

text \<open>What the answer for a settled request is to say.\<close>

definition answer_of :: "InferenceRequest \<Rightarrow> Answer" where
  "answer_of r =
     \<lparr>an_request_id = rq_request_id r, an_model_id = rq_model_id r, an_state = rq_state r,
      an_output = (if rq_state r = Completed then res_output (the (rq_result r)) else None),
      an_error = (if rq_state r = Completed then None else Some (res_status (the (rq_result r))))\<rparr>"

lemma read_state_inverse [simp]: "read_state (state_to_string st) = Some st"
  by (cases st) (simp_all add: read_state_def)

lemma read_code_inverse [simp]: "read_code (error_code_to_string c) = Some c"
  by (cases c) (simp_all add: read_code_def)

lemma read_output_inverse [simp]: "read_output (Some (output_json out)) = Some out"
  by (simp add: read_output_def output_json_def json_object_def)

lemma read_error_inverse [simp]: "read_error (Some (error_json st)) = Some st"
  by (simp add: read_error_def error_json_def json_object_def)

lemma read_null [simp]: "read_output (Some JNull) = None" "read_error (Some JNull) = None"
  by (simp_all add: read_output_def read_error_def)

lemma infer_response_answer:
  assumes "result_inv r" "is_terminal r"
  shows "answer_of_json (infer_response_json (snapshot r)) = Some (answer_of r)"
proof -
  obtain res where "rq_result r = Some res" using assms by (auto simp: result_inv_def split: option.splits)
  with assms show ?thesis
    by (auto simp: infer_response_json_def answer_of_def result_inv_def result_ok_def status_ok_def is_terminal_def
        read_state_inverse [of Completed, unfolded state_to_string.simps] Let_def
        split: RequestState.splits option.splits)
qed

definition json_members :: "Json \<Rightarrow> (string \<times> Json) list" where
  "json_members j = (case j of JObject ms \<Rightarrow> ms | _ \<Rightarrow> [])"

text \<open>
  C21: The two forms of an answer agree. The JSON object that ends a streamed answer is the one a
  plain answer consists of, with the field that marks it as the terminal event added, for every
  state of a request and every result; the two are written by separate functions.
\<close>

theorem answers_agree:
  "terminal_event_json snap =
     JObject (json_put ''event'' (JString ''terminal'') (json_members (infer_response_json snap)))"
  by (cases "sn_result snap") (auto simp: terminal_event_json_def infer_response_json_def json_members_def Let_def)

lemma terminal_event_answer: "answer_of_json (terminal_event_json snap) = answer_of_json (infer_response_json snap)"
  by (cases "sn_result snap") (auto simp: terminal_event_json_def infer_response_json_def Let_def)


section \<open>An example\<close>

definition example_request :: InferenceRequest where
  "example_request = fst (op_run
     [OpTransition Queued, OpTransition Running, OpComplete (result_success \<lparr>out_text = ''hi'', out_output_tokens = 2\<rparr>)]
     (new_request ''req-1'' ''m'' ''p'' 4))"

definition example_response :: string where
  "example_response =
     ''{\"error\":null,\"model_id\":\"m\",\"output\":{\"output_tokens\":2,\"text\":\"hi\"},\"request_id\":\"req-1\",\"state\":\"Completed\"}''"

definition example_event :: string where
  "example_event =
     ''{\"error\":null,\"event\":\"terminal\",\"model_id\":\"m\",\"output\":{\"output_tokens\":2,\"text\":\"hi\"},\"request_id\":\"req-1\",\"state\":\"Completed\"}''"

text \<open>A library that knows these two texts only.\<close>

definition example_json :: JsonLib where
  "example_json =
     \<lparr>jl_parse = \<lambda>s.
        if s = example_response then Inr (infer_response_json (snapshot example_request))
        else if s = example_event then Inr (terminal_event_json (snapshot example_request))
        else Inl ''parse error'',
      jl_dump = \<lambda>j.
        if j = infer_response_json (snapshot example_request) then Inr example_response
        else if j = terminal_event_json (snapshot example_request) then Inr example_event
        else Inl ''type error''\<rparr>"


section \<open>Identifiers\<close>

fun request_ids :: "nat \<Rightarrow> RequestHandler \<Rightarrow> string list" where
  "request_ids 0 h = []"
| "request_ids (Suc n) h = (case next_request_id h of (rid, h') \<Rightarrow> rid # request_ids n h')"

lemma request_ids_map:
  "request_ids n h = map (\<lambda>i. ''req-'' @ to_base 10 (unat (rh_next_id h + of_nat i))) [0..<n]"
proof (induction n arbitrary: h)
  case 0
  then show ?case by simp
next
  case (Suc n)
  have "[0..<Suc n] = 0 # map Suc [0..<n]" by (simp add: map_Suc_upt upt_conv_Cons del: upt_Suc)
  then show ?case by (simp add: next_request_id_def Suc.IH ac_simps comp_def del: upt_Suc)
qed

lemma distinct_request_ids:
  assumes "n \<le> 2 ^ 64"
  shows "distinct (request_ids n h)"
proof -
  have "inj_on (\<lambda>i. ''req-'' @ to_base 10 (unat (rh_next_id h + of_nat i))) {0..<n}"
  proof (rule inj_onI)
    fix i j :: nat
    assume ij: "i \<in> {0..<n}" "j \<in> {0..<n}"
      and "''req-'' @ to_base 10 (unat (rh_next_id h + of_nat i)) = ''req-'' @ to_base 10 (unat (rh_next_id h + of_nat j))"
    then have "unat (rh_next_id h + of_nat i) = unat (rh_next_id h + of_nat j)" by (simp add: to_base_inject)
    then have "rh_next_id h + of_nat i = rh_next_id h + of_nat j" by (metis word_unat_eq_iff)
    then have "(of_nat i :: u64) = of_nat j" by simp
    then have "i mod 2 ^ LENGTH(64) = j mod 2 ^ LENGTH(64)" by (metis unat_of_nat)
    then show "i = j" using ij assms by simp
  qed
  then show ?thesis by (simp add: request_ids_map distinct_map)
qed

text \<open>
  The identifiers of requests are distinct. However many identifiers a handler gives out, up
  to \<open>2 ^ 64\<close>, no two are the same, also after the counter has wrapped around.
\<close>

lemma request_ids_distinct: "distinct (request_ids (2 ^ 64) h)"
  by (rule distinct_request_ids) (rule order_refl)

end
