(* ===== verification/AR_Runtime_Props.thy ===== *)
theory AR_Runtime_Props
  imports AR_Runtime
begin

text \<open>
  The runtime as a whole: its invariant, what submitting and routing do with a request, and
  that stopping settles every request the runtime holds.
\<close>

section \<open>Invariant\<close>

text \<open>The index gives each identifier the position of its worker.\<close>

definition indexes :: "'b Worker list \<Rightarrow> (WorkerId \<times> nat) list \<Rightarrow> bool" where
  "indexes wks index \<longleftrightarrow>
     distinct (map wk_worker_id wks) \<and>
     (\<forall>k i. map_of index k = Some i \<longleftrightarrow> i < length wks \<and> wk_worker_id (wks ! i) = k)"

definition rt_inv :: "'b Runtime \<Rightarrow> bool" where
  "rt_inv rt \<longleftrightarrow>
     sch_inv (rt_scheduler rt) \<and> rt_workers rt \<noteq> [] \<and> indexes (rt_workers rt) (rt_worker_index rt)"

lemma indexes_snoc:
  assumes "indexes wks index" "map_of index (wk_worker_id wk) = None"
  shows "indexes (wks @ [wk]) (AList.update (wk_worker_id wk) (length wks) index)"
proof -
  have new: "wk_worker_id (wks ! i) \<noteq> wk_worker_id wk" if "i < length wks" for i
    using assms that unfolding indexes_def by (metis option.distinct(1))
  then have "wk_worker_id wk \<notin> wk_worker_id ` set wks" by (metis imageE in_set_conv_nth)
  then have "distinct (map wk_worker_id (wks @ [wk]))"
    using assms(1) by (simp add: indexes_def)
  then show ?thesis
    using assms(1) new by (auto simp: indexes_def update_conv' nth_append less_Suc_eq)
qed

lemma index_workers_spec:
  "index_workers (length seen) ws index = Inr index' \<Longrightarrow> indexes seen index \<Longrightarrow>
   None \<notin> set ws \<and> indexes (seen @ map the ws) index'"
proof (induction ws arbitrary: seen index)
  case (Cons x ws)
  then obtain wk where x: "x = Some wk" by (cases x) auto
  then have new: "map_of index (wk_worker_id wk) = None"
    and rec: "index_workers (length (seen @ [wk])) ws (AList.update (wk_worker_id wk) (length seen) index) = Inr index'"
    using Cons.prems(1) by (auto split: if_splits)
  from Cons.IH [OF rec indexes_snoc [OF Cons.prems(2) new]] show ?case using x by simp
qed simp

lemma runtime_make_parts:
  assumes "runtime_make (Some s) router workers registry = Inr rt"
  shows "indexes (rt_workers rt) (rt_worker_index rt) \<and> rt_workers rt \<noteq> [] \<and> rt_scheduler rt = s \<and>
    rt_workers rt = map the workers \<and> \<not> is_running rt \<and> \<not> rt_started rt"
proof -
  obtain r reg index where m: "router = Some r" "registry = Some reg" "workers \<noteq> []"
    "index_workers 0 workers [] = Inr index"
    "rt = \<lparr>rt_scheduler = s, rt_router = r, rt_workers = map the workers, rt_worker_index = index,
      rt_registry = reg, rt_routing_thread = NoThread, rt_accepting = False, rt_started = False\<rparr>"
    using assms(1) by (auto simp: runtime_make_def split: option.splits if_splits sum.splits)
  have "index_workers (length ([] :: 'a Worker list)) workers [] = Inr index" using m(4) by simp
  from index_workers_spec [OF this] have "indexes (map the workers) index" by (simp add: indexes_def)
  then show ?thesis using m by (simp add: is_running_def)
qed

lemma runtime_make_inv:
  "runtime_make (Some s) router workers registry = Inr rt \<Longrightarrow> sch_inv s \<Longrightarrow> rt_inv rt"
  unfolding rt_inv_def using runtime_make_parts by blast

section \<open>Steps that move requests only forward\<close>

text \<open>A step that changes no request except by settling it, and takes nothing from a lane.\<close>

definition grows :: "World \<Rightarrow> World \<Rightarrow> bool" where
  "grows w w' \<longleftrightarrow> world_le w w' \<and> (\<forall>a. sole_owner a w \<longrightarrow> settles a w w') \<and>
     (\<forall>k. prefix (bq_queue (w_lane w k)) (bq_queue (w_lane w' k)))"

lemma grows_refl [simp, intro]: "grows w w"
  by (simp add: grows_def)

lemma grows_le: "grows w w' \<Longrightarrow> world_le w w'"
  by (simp add: grows_def)

lemma grows_trans [trans]:
  assumes "grows u v" "grows v w"
  shows "grows u w"
proof -
  have "settles a u w" if "sole_owner a u" for a
    using assms that settles_trans [of a u v w] sole_owner_le [OF that, of v] by (simp add: grows_def)
  then show ?thesis
    using assms world_le_trans [of u v w] prefix_order.trans unfolding grows_def by blast
qed

lemma grows_waiting: "grows w w' \<Longrightarrow> waiting k w a \<Longrightarrow> waiting k w' a"
  unfolding grows_def waiting_def using set_mono_prefix world_le_terminal by blast

lemma calm_grows: "calm_le w w' \<Longrightarrow> grows w w'"
  by (simp add: grows_def calm_le_def lane_frame_def)

text \<open>A request nobody else moves on stays queued or gets settled.\<close>

definition queued_or_settled :: "addr \<Rightarrow> World \<Rightarrow> bool" where
  "queued_or_settled a w \<longleftrightarrow>
     sole_owner a w \<and> (rq_state (w_reqs w a) = Queued \<or> is_terminal (w_reqs w a))"

lemma queued_or_settled_grows: "queued_or_settled a w \<Longrightarrow> grows w w' \<Longrightarrow> queued_or_settled a w'"
  using sole_owner_le [of a w w'] world_le_terminal [of w w' a]
  by (auto simp: queued_or_settled_def settles_def grows_def)

lemma interfere_grows: "grows w (interfere w)"
  by (rule calm_grows [OF interfere_calm])

lemma read_req_grows: "grows w (snd (read_req a w))"
  by (simp add: read_req_def Let_def interfere_grows)

lemma steady_now_grows: "grows w (snd (steady_now w))"
  by (simp add: steady_now_def Let_def interfere_grows)

lemma try_reject_grows: "grows w (snd (try_reject e a w))"
  unfolding try_reject_def
  by (rule calm_grows) (simp add: calm_le_def perform_frame perform_settles)

lemma try_timeout_if_expired_grows: "grows w (snd (try_timeout_if_expired now a w))"
  by (rule calm_grows) (simp add: calm_le_def try_timeout_if_expired_frame try_timeout_if_expired_settles)

lemma is_dead_request_grows: "grows w (snd (is_dead_request p w))"
  by (rule calm_grows [OF is_dead_request_calm])

lemma push_grows:
  assumes "try_push p (w_lane w k) = (st, q)"
  shows "grows w (set_lane k q w)"
proof -
  have "world_le w (set_lane k q w)"
    by (rule set_lane_le)
      (use assms in \<open>auto simp: try_push_def push_back_def bq_inv_def split: if_splits\<close>)
  then show ?thesis
    using assms by (auto simp: grows_def settles_def set_lane_def try_push_def push_back_def split: if_splits)
qed

lemma queued_add_grows: "grows w (queued_add k n w)"
proof -
  have "grows v (v\<lparr>w_queued_count := c\<rparr>)" for v c
    using queued_count_frame [of v c] by (simp add: grows_def lane_frame_def settles_def)
  then show ?thesis using grows_trans [OF interfere_grows] by (simp add: queued_add_def Let_def)
qed

lemma worker_snapshot_grows: "grows w (snd (worker_snapshot wk w))"
  using grows_trans [OF interfere_grows interfere_grows] by (simp add: worker_snapshot_def Let_def)

lemma collect_snapshots_spec:
  "collect_snapshots wks w = (sns, w') \<Longrightarrow> grows w w' \<and> map ws_worker_id sns = map wk_worker_id wks"
proof (induction wks arbitrary: w sns)
  case (Cons wk wks)
  obtain sn w1 where 1: "worker_snapshot wk w = (sn, w1)" by fastforce
  obtain sns1 where 2: "collect_snapshots wks w1 = (sns1, w')" "sns = sn # sns1"
    using Cons.prems 1 by (auto split: prod.splits)
  have "grows w w1" using worker_snapshot_grows [of w wk] 1 by simp
  moreover have "ws_worker_id sn = wk_worker_id wk" using 1 by (auto simp: worker_snapshot_def Let_def)
  ultimately show ?case using Cons.IH [OF 2(1)] 2(2) grows_trans by auto
qed simp

lemma enqueue_checks_grows: "grows w (snd (enqueue_checks k p w))"
proof (cases p)
  case (Some a)
  have "grows w (snd (is_dead_request p (interfere w)))"
    by (rule grows_trans [OF interfere_grows is_dead_request_grows])
  then show ?thesis
    using Some interfere_grows [of w] by (auto simp: enqueue_checks_def Let_def split: prod.splits)
qed (simp add: enqueue_checks_def)

lemma try_enqueue_grows:
  assumes "try_enqueue k p w = (st, w')"
  shows "grows w w'"
proof -
  obtain r w1 where c: "enqueue_checks k p w = (r, w1)" by fastforce
  have g1: "grows w w1" using enqueue_checks_grows [of w k p] c by simp
  show ?thesis
  proof (cases r)
    case (Inl st1)
    then show ?thesis using assms c g1 by (simp add: try_enqueue_def)
  next
    case (Inr a)
    obtain st2 q where t: "try_push p (w_lane (interfere w1) k) = (st2, q)" by fastforce
    have g2: "grows w (set_lane k q (interfere w1))"
      using grows_trans [OF g1 grows_trans [OF interfere_grows push_grows [OF t]]] .
    then show ?thesis
      using assms c Inr t grows_trans [OF g2 queued_add_grows, of k 1]
      by (auto simp: try_enqueue_def lane_try_push_def Let_def split: if_splits)
  qed
qed

section \<open>Routing one request\<close>

text \<open>Where a request is after it has been routed.\<close>

definition routed :: "'b Runtime \<Rightarrow> World \<Rightarrow> addr \<Rightarrow> bool" where
  "routed rt w a \<longleftrightarrow> (\<exists>wk \<in> set (rt_workers rt). waiting (wk_worker_id wk) w a)"

lemma routed_grows: "routed rt w a \<Longrightarrow> grows w w' \<Longrightarrow> routed rt w' a"
  unfolding routed_def using grows_waiting by blast

lemma settled_routed: "rt_workers rt \<noteq> [] \<Longrightarrow> is_terminal (w_reqs w a) \<Longrightarrow> routed rt w a"
  unfolding routed_def waiting_def using list.set_intros(1) by (metis list.exhaust)

lemma rejected_routed:
  assumes "queued_or_settled a w" "rt_workers rt \<noteq> []"
  shows "routed rt (snd (try_reject e a w)) a"
proof -
  obtain b w' where r: "try_reject e a w = (b, w')" by fastforce
  have "queued_or_settled a (interfere w)" using assms(1) interfere_grows queued_or_settled_grows by blast
  then have "is_terminal (w_reqs w' a)" using reject_terminal [OF r] by (auto simp: queued_or_settled_def)
  then show ?thesis using try_reject_grows [of w e a] r settled_routed [OF assms(2)] by simp
qed

definition same_parts :: "'b Runtime \<Rightarrow> 'b Runtime \<Rightarrow> bool" where
  "same_parts rt rt' \<longleftrightarrow> rt_workers rt' = rt_workers rt \<and> rt_worker_index rt' = rt_worker_index rt \<and>
     rt_registry rt' = rt_registry rt \<and> rt_scheduler rt' = rt_scheduler rt \<and>
     rt_accepting rt' = rt_accepting rt \<and> rt_started rt' = rt_started rt"

lemma same_parts_inv: "same_parts rt rt' \<Longrightarrow> rt_inv rt \<Longrightarrow> rt_inv rt'"
  by (simp add: same_parts_def rt_inv_def)

lemma same_parts_routed: "same_parts rt rt' \<Longrightarrow> routed rt' w a = routed rt w a"
  by (simp add: same_parts_def routed_def)

lemma same_parts_simps [simp]: "same_parts rt rt" "same_parts rt (rt\<lparr>rt_router := r\<rparr>)"
  by (simp_all add: same_parts_def)

lemma selected_found:
  assumes inv: "rt_inv rt" and c: "collect_snapshots (rt_workers rt) w = (sns, w1)"
    and sel: "router_select spec sns (rt_router rt) = (selected, router)" "routing_ok selected"
  obtains i where "find_worker (the (rr_worker_id selected)) rt = Some i" "i < length (rt_workers rt)"
proof -
  obtain sn where sn: "sn \<in> set sns" "rr_worker_id selected = Some (ws_worker_id sn)"
    using router.select_feasible [OF sel] by blast
  then have "ws_worker_id sn \<in> wk_worker_id ` set (rt_workers rt)"
    using collect_snapshots_spec [OF c] by (metis image_eqI list.set_map)
  then obtain i where "i < length (rt_workers rt)" "wk_worker_id (rt_workers rt ! i) = ws_worker_id sn"
    by (auto simp: in_set_conv_nth)
  then have "find_worker (the (rr_worker_id selected)) rt = Some i"
    using inv sn(2) by (simp add: rt_inv_def indexes_def find_worker_def)
  then show thesis using that \<open>i < length (rt_workers rt)\<close> by blast
qed

lemma route_live_spec:
  assumes inv: "rt_inv rt" and r: "route_live a (rt, w) = (st, rt', w')"
  shows "same_parts rt rt' \<and> grows w w' \<and> (queued_or_settled a w \<longrightarrow> routed rt w' a)"
proof -
  have ne: "rt_workers rt \<noteq> []" using inv by (simp add: rt_inv_def)
  have rej: "grows w (snd (try_reject e a v)) \<and> (queued_or_settled a w \<longrightarrow> routed rt (snd (try_reject e a v)) a)"
    if "grows w v" for v e
    using rejected_routed [OF queued_or_settled_grows [OF _ that] ne] grows_trans [OF that try_reject_grows] by blast
  show ?thesis
  proof (cases "map_of (rt_registry rt) (rq_model_id (w_reqs w a))")
    case None
    then have "rt' = rt" "w' = snd (try_reject st a w)"
      using r by (auto simp: route_live_def registry_find_def)
    then show ?thesis using rej [OF grows_refl] by simp
  next
    case (Some spec)
    then have found: "registry_find (rq_model_id (w_reqs w a)) (rt_registry rt) default_spec = (status_success, spec)"
      by (simp add: registry_find_def)
    obtain sns w1 where c: "collect_snapshots (rt_workers rt) w = (sns, w1)" by fastforce
    obtain selected router where sel: "router_select spec sns (rt_router rt) = (selected, router)" by fastforce
    let ?rt1 = "rt\<lparr>rt_router := router\<rparr>"
    have g1: "grows w w1" using collect_snapshots_spec [OF c] by simp
    show ?thesis
    proof (cases "routing_ok selected")
      case False
      then have "rt' = ?rt1" "w' = snd (try_reject (rr_status selected) a w1)"
        using r found c sel by (auto simp: route_live_def Let_def)
      then show ?thesis using rej [OF g1] by simp
    next
      case True
      obtain i where i: "find_worker (the (rr_worker_id selected)) rt = Some i" "i < length (rt_workers rt)"
        by (rule selected_found [OF inv c sel True])
      let ?k = "wk_worker_id (rt_workers rt ! i)"
      obtain est w2 where e: "try_enqueue ?k (Some a) w1 = (est, w2)" by fastforce
      have g2: "grows w w2" using grows_trans [OF g1 try_enqueue_grows [OF e]] .
      have res: "rt' = ?rt1" "w' = (if status_ok est then w2 else snd (try_reject est a w2))"
        using r found c sel True i e by (auto simp: route_live_def find_worker_def Let_def split: if_splits)
      have "routed rt w2 a" if "status_ok est"
        using try_enqueue_waiting [OF e that] i(2) by (auto simp: routed_def intro!: bexI [OF _ nth_mem])
      then show ?thesis using res g2 rej [OF g2] by simp
    qed
  qed
qed

lemma route_request_spec:
  assumes inv: "rt_inv rt" and r: "route_request (Some a) (rt, w) = (st, rt', w')"
  shows "same_parts rt rt' \<and> grows w w' \<and> (queued_or_settled a w \<longrightarrow> routed rt w' a)"
proof -
  obtain r0 w1 where 1: "read_req a w = (r0, w1)" by fastforce
  obtain now w2 where 2: "steady_now w1 = (now, w2)" by fastforce
  obtain b w3 where 3: "try_timeout_if_expired now a w2 = (b, w3)" by fastforce
  obtain r1 w4 where 4: "read_req a w3 = (r1, w4)" by fastforce
  have eq: "r0 = w_reqs w1 a" "r1 = w_reqs w4 a" using 1 4 by (auto simp: read_req_def Let_def)
  have g1: "grows w w1" using read_req_grows [of w a] 1 by simp
  have "grows w1 w2" using steady_now_grows [of w1] 2 by simp
  moreover have "grows w2 w3" using try_timeout_if_expired_grows [of w2 now a] 3 by simp
  moreover have "grows w3 w4" using read_req_grows [of w3 a] 4 by simp
  ultimately have g4: "grows w w4" using g1 grows_trans by blast
  have ne: "rt_workers rt \<noteq> []" using inv by (simp add: rt_inv_def)
  show ?thesis
  proof (cases "is_terminal r0 \<or> is_terminal r1")
    case True
    then show ?thesis
      using r 1 2 3 4 eq g1 g4 settled_routed [OF ne] by (auto simp: route_request_def split: if_splits)
  next
    case False
    then have "route_live a (rt, w4) = (st, rt', w')" using r 1 2 3 4 by (simp add: route_request_def)
    from route_live_spec [OF inv this] show ?thesis
      using grows_trans [OF g4] queued_or_settled_grows [OF _ g4] by blast
  qed
qed

section \<open>The routing thread\<close>

lemma set_thread_inv [simp]: "rt_inv (rt\<lparr>rt_routing_thread := t\<rparr>) = rt_inv rt"
  by (simp add: rt_inv_def)

lemma set_scheduler_inv: "rt_inv rt \<Longrightarrow> sch_inv s \<Longrightarrow> rt_inv (rt\<lparr>rt_scheduler := s\<rparr>)"
  by (simp add: rt_inv_def)

lemma same_parts_scheduler: "same_parts (rt\<lparr>rt_scheduler := s\<rparr>) rt' \<Longrightarrow> rt_workers rt' = rt_workers rt \<and> rt_scheduler rt' = s"
  by (simp add: same_parts_def)

lemma route_accepting: "route_request p (rt, w) = (st, rt', w') \<Longrightarrow> rt_accepting rt' = rt_accepting rt"
  by (auto simp: route_request_def route_live_def Let_def split: option.splits prod.splits if_splits)

lemma routing_loop_accepting: "routing_loop n (rt, w) = (out, rt', w') \<Longrightarrow> rt_accepting rt' = rt_accepting rt"
proof (induction n arbitrary: rt w)
  case (Suc n)
  then show ?case by (auto dest!: route_accepting split: option.splits prod.splits)
qed simp

text \<open>One turn of the loop, in which the scheduler hands out the request \<open>a\<close>.\<close>

lemma next_shrinks:
  assumes "sch_inv s" "sch_next [] (s, w) = Some (Some p, (s1, w1), rest)"
  shows "length (sch_held s1) < length (sch_held s)"
proof -
  obtain d where "mset (sch_held s) = mset [p] + mset (sch_held s1) + mset d"
    using sch.next_held [OF assms] by auto
  then have "size (mset (sch_held s)) = size (mset [p] + mset (sch_held s1) + mset d)" by simp
  then show ?thesis by simp
qed

lemma routing_turn:
  assumes inv: "rt_inv rt" and n: "sch_next [] (rt_scheduler rt, w) = Some (Some (Some a), (s1, w1), rest)"
    and r: "route_request (Some a) (rt\<lparr>rt_scheduler := s1\<rparr>, w1) = (st, rt1, w2)"
  shows "rt_inv rt1 \<and> rt_workers rt1 = rt_workers rt \<and> rt_scheduler rt1 = s1 \<and> grows w w2 \<and>
    sch_closed s1 = sch_closed (rt_scheduler rt) \<and>
    (\<forall>b. Some b \<in> set (sch_held (rt_scheduler rt)) \<and> queued_or_settled b w \<longrightarrow>
       Some b \<in> set (sch_held s1) \<or> routed rt w2 b)"
proof -
  let ?s = "rt_scheduler rt"
  have sinv: "sch_inv ?s" and ne: "rt_workers rt \<noteq> []" using inv by (simp_all add: rt_inv_def)
  have inv1: "rt_inv (rt\<lparr>rt_scheduler := s1\<rparr>)" using set_scheduler_inv [OF inv sch.next_invar [OF sinv n]] .
  have g1: "grows w w1" using calm_grows [OF sch.next_world [OF sinv n]] .
  note rs = route_request_spec [OF inv1 r]
  have "Some b \<in> set (sch_held s1) \<or> routed rt w2 b"
    if b: "Some b \<in> set (sch_held ?s)" "queued_or_settled b w" for b
  proof (cases "b = a")
    case True
    then have "queued_or_settled a w1" using queued_or_settled_grows [OF b(2) g1] by simp
    then show ?thesis using rs True by (simp add: routed_def)
  next
    case False
    then have "Some b \<in> set (sch_held s1) \<or> is_terminal (w_reqs w1 b)"
      using sch.next_accounts_for [OF sinv n b(1)] by auto
    then show ?thesis using settled_routed [OF ne] rs grows_le world_le_terminal by blast
  qed
  then show ?thesis
    using rs same_parts_scheduler same_parts_inv [OF _ inv1] grows_trans [OF g1] sch.next_closed [OF sinv n] by blast
qed

lemma routing_loop_spec:
  "routing_loop n (rt, w) = (out, rt', w') \<Longrightarrow> rt_inv rt \<Longrightarrow>
   rt_inv rt' \<and> rt_workers rt' = rt_workers rt \<and> grows w w' \<and>
   (length (sch_held (rt_scheduler rt)) < n \<longrightarrow> out \<noteq> RoutingFuel) \<and>
   (sch_closed (rt_scheduler rt) \<longrightarrow> out \<noteq> RoutingAsleep) \<and>
   (out = RoutingEnded \<longrightarrow> sch_held (rt_scheduler rt') = [] \<and>
      (\<forall>a. Some a \<in> set (sch_held (rt_scheduler rt)) \<and> queued_or_settled a w \<longrightarrow> routed rt w' a))"
proof (induction n arbitrary: rt w)
  case (Suc n)
  let ?s = "rt_scheduler rt"
  have inv: "sch_inv ?s" and ne: "rt_workers rt \<noteq> []" using Suc.prems(2) by (simp_all add: rt_inv_def)
  consider (blocked) "sch_next [] (?s, w) = None"
    | (ended) s1 w1 rest where "sch_next [] (?s, w) = Some (None, (s1, w1), rest)"
    | (turn) a s1 w1 rest where "sch_next [] (?s, w) = Some (Some (Some a), (s1, w1), rest)"
    using sch.next_some [OF inv] by (metis not_None_eq prod.exhaust)
  then show ?case
  proof cases
    case blocked
    then show ?thesis using Suc.prems sch.next_answers [OF inv, of w] by auto
  next
    case ended
    have res: "out = RoutingEnded" "rt' = rt\<lparr>rt_scheduler := s1, rt_routing_thread := LoopReturned\<rparr>" "w' = w1"
      using Suc.prems(1) ended by auto
    have empty: "sch_held s1 = []" using sch.next_none [OF inv] ended by blast
    have "routed rt w' a" if "Some a \<in> set (sch_held ?s)" for a
      using sch.next_accounts_for [OF inv ended that] empty settled_routed [OF ne] res(3) by auto
    then show ?thesis
      using res empty set_scheduler_inv [OF Suc.prems(2) sch.next_invar [OF inv ended]]
        calm_grows [OF sch.next_world [OF inv ended]] by simp
  next
    case turn
    obtain st rt1 w2 where rq: "route_request (Some a) (rt\<lparr>rt_scheduler := s1\<rparr>, w1) = (st, rt1, w2)"
      by (metis prod.exhaust)
    have rec: "routing_loop n (rt1, w2) = (out, rt', w')" using Suc.prems(1) turn rq by simp
    note T = routing_turn [OF Suc.prems(2) turn rq]
    then have IH: "rt_inv rt' \<and> rt_workers rt' = rt_workers rt1 \<and> grows w2 w'"
      "length (sch_held s1) < n \<longrightarrow> out \<noteq> RoutingFuel" "sch_closed s1 \<longrightarrow> out \<noteq> RoutingAsleep"
      "out = RoutingEnded \<longrightarrow> sch_held (rt_scheduler rt') = [] \<and>
         (\<forall>b. Some b \<in> set (sch_held s1) \<and> queued_or_settled b w2 \<longrightarrow> routed rt1 w' b)"
      using Suc.IH [OF rec] by simp_all
    have "routed rt w' b" if "out = RoutingEnded" "Some b \<in> set (sch_held ?s)" "queued_or_settled b w" for b
      using T IH that queued_or_settled_grows [of b w w2] routed_grows [of rt w2 b w'] by (auto simp: routed_def)
    then show ?thesis using T IH next_shrinks [OF inv turn] grows_trans [of w w2 w'] by auto
  qed
qed simp

section \<open>Stopping\<close>

lemma worker_close_spec:
  "world_le w (worker_close k w) \<and> bq_closed (w_lane (worker_close k w) k) \<and>
   (\<forall>j. prefix (bq_queue (w_lane w j)) (bq_queue (w_lane (worker_close k w) j)))"
proof -
  let ?w1 = "interfere w"
  let ?w2 = "interfere (?w1\<lparr>w_accepting := (w_accepting ?w1)(k := False)\<rparr>)"
  have "lane_frame ?w1 (?w1\<lparr>w_accepting := (w_accepting ?w1)(k := False)\<rparr>)"
    by (auto simp: lane_frame_def world_le_def)
  then have f: "lane_frame w ?w2" using lane_frame_trans interfere_frame by blast
  moreover have "world_le ?w2 (set_lane k (close_queue (w_lane ?w2 k)) ?w2)"
    by (rule set_lane_le) (auto simp: close_queue_def bq_inv_def)
  ultimately have "world_le w (worker_close k w)"
    using world_le_trans [OF lane_frame_le] by (simp add: worker_close_def Let_def)
  then show ?thesis
    using f by (auto simp: worker_close_def Let_def set_lane_def close_queue_def lane_frame_def)
qed

lemma world_le_closed: "world_le w w' \<Longrightarrow> bq_closed (w_lane w k) \<Longrightarrow> bq_closed (w_lane w' k)"
  by (simp add: world_le_def)

lemma close_workers_spec:
  "world_le w (close_workers wks w) \<and> (\<forall>wk \<in> set wks. bq_closed (w_lane (close_workers wks w) (wk_worker_id wk))) \<and>
   (\<forall>j. prefix (bq_queue (w_lane w j)) (bq_queue (w_lane (close_workers wks w) j)))"
proof (induction wks arbitrary: w)
  case (Cons wk wks)
  let ?w1 = "worker_close (wk_worker_id wk) w"
  note c = worker_close_spec [of w "wk_worker_id wk"]
  note IH = Cons [of ?w1]
  have "bq_closed (w_lane (close_workers wks ?w1) (wk_worker_id wk))"
    using world_le_closed IH c by blast
  moreover have "prefix (bq_queue (w_lane w j)) (bq_queue (w_lane (close_workers wks ?w1) j))" for j
    using IH c prefix_order.trans by blast
  moreover have "world_le w (close_workers wks ?w1)" using IH c world_le_trans by blast
  moreover have "close_workers (wk # wks) w = close_workers wks ?w1" by (simp add: close_workers_def)
  ultimately show ?case using IH by simp
qed (simp add: close_workers_def)

lemma prefix_waiting:
  "world_le w w' \<Longrightarrow> prefix (bq_queue (w_lane w k)) (bq_queue (w_lane w' k)) \<Longrightarrow> waiting k w a \<Longrightarrow> waiting k w' a"
  unfolding waiting_def using set_mono_prefix world_le_terminal by blast

lemma join_workers_spec:
  "join_workers load unload infer wks w = (outs, wks', w') \<Longrightarrow> distinct (map wk_worker_id wks) \<Longrightarrow>
   \<forall>wk \<in> set wks. wk_thread wk \<and> bq_closed (w_lane w (wk_worker_id wk)) \<Longrightarrow>
   world_le w w' \<and> (\<forall>out \<in> set outs. out = Stopped) \<and> length wks' = length wks \<and>
   (\<forall>a. rank_of a w \<le> 2 \<and> (\<exists>wk \<in> set wks. in_worker a (wk, w)) \<longrightarrow> is_terminal (w_reqs w' a))"
proof (induction wks arbitrary: w outs wks')
  case (Cons wk wks)
  obtain out wk1 w1 where r: "run_loop load unload infer (wk, w) = (out, wk1, w1)" by (metis prod.exhaust)
  obtain outs1 wks1 where j: "join_workers load unload infer wks w1 = (outs1, wks1, w')"
    "outs = out # outs1" "wks' = worker_join wk1 # wks1"
    using Cons.prems(1,3) r by (auto split: prod.splits)
  note s = run_loop_spec [OF r]
  have le: "world_le w w1" using s by blast
  have "\<forall>wk \<in> set wks. wk_thread wk \<and> bq_closed (w_lane w1 (wk_worker_id wk))"
    using Cons.prems(3) world_le_closed [OF le] by simp
  with Cons.prems(2) have IH: "world_le w1 w'" "\<forall>out \<in> set outs1. out = Stopped" "length wks1 = length wks"
    "\<forall>a. rank_of a w1 \<le> 2 \<and> (\<exists>wk \<in> set wks. in_worker a (wk, w1)) \<longrightarrow> is_terminal (w_reqs w' a)"
    using Cons.IH [OF j(1)] by simp_all
  have "out = Stopped" using s world_le_closed [OF le] Cons.prems(3) by simp
  moreover have "is_terminal (w_reqs w' a)" if "rank_of a w \<le> 2" "v \<in> set (wk # wks)" "in_worker a (v, w)" for a v
  proof (cases "v = wk")
    case True
    then show ?thesis using s that world_le_terminal [OF IH(1)] by blast
  next
    case False
    then have v: "v \<in> set wks" "wk_worker_id v \<noteq> wk_worker_id wk"
      using that(2) Cons.prems(2) by (auto simp: image_iff)
    have "prefix (bq_queue (w_lane w (wk_worker_id v))) (bq_queue (w_lane w1 (wk_worker_id v)))" using s v(2) by blast
    then have "in_worker a (v, w1)" using prefix_waiting [OF le] that(3) by (auto simp: in_worker_def)
    moreover have "rank_of a w1 \<le> 2" using world_le_rank [OF le, of a] that(1) by linarith
    ultimately show ?thesis using IH(4) v(1) by blast
  qed
  ultimately show ?case using IH j world_le_trans [OF le IH(1)] by auto
qed simp

text \<open>
  The phases of stopping: the routing thread works off the closed scheduler, up to the state
  \<open>w1\<close>, and then every worker settles what is in its lane or was deferred.
\<close>

lemma stop_phases:
  assumes inv: "rt_inv rt" and threads: "rt_routing_thread rt = InLoop" "\<forall>wk \<in> set (rt_workers rt). wk_thread wk"
    and run: "runtime_stop load unload infer (rt, w) = ((rout, outs), rt', w')"
  obtains w1 where "rout = RoutingEnded" "\<forall>out \<in> set outs. out = Stopped" "\<not> rt_accepting rt'"
    "sch_held (rt_scheduler rt') = []" "grows w w1" "world_le w1 w'"
    "\<forall>a. Some a \<in> set (sch_held (rt_scheduler rt)) \<and> queued_or_settled a w \<longrightarrow> routed rt w1 a"
    "\<forall>a. \<forall>wk \<in> set (rt_workers rt). rank_of a w \<le> 2 \<and> in_worker a (wk, w1) \<longrightarrow> is_terminal (w_reqs w' a)"
proof -
  let ?rt1 = "stop_accepting rt"
  have inv1: "rt_inv ?rt1" using inv by (simp add: stop_accepting_def rt_inv_def sch.close_invar)
  have s1: "sch_held (rt_scheduler ?rt1) = sch_held (rt_scheduler rt)" "sch_closed (rt_scheduler ?rt1)"
    "rt_workers ?rt1 = rt_workers rt" "\<not> rt_accepting ?rt1" "rt_routing_thread ?rt1 = InLoop"
    using threads(1) by (simp_all add: stop_accepting_def sch.close_held sch.close_closed)
  obtain rt2 w1 where r: "routing_loop (Suc (length (sch_held (rt_scheduler ?rt1)))) (?rt1, w) = (rout, rt2, w1)"
    and j: "join_workers load unload infer (rt_workers rt2) (close_workers (rt_workers rt2) w1) =
      (outs, rt_workers rt', w')" and rt': "rt_scheduler rt' = rt_scheduler rt2" "rt_accepting rt' = rt_accepting rt2"
    using run s1(5) by (auto simp: runtime_stop_def Let_def split: prod.splits)
  note R = routing_loop_spec [OF r inv1]
  have out: "rout = RoutingEnded" using R s1(2) by (cases rout) auto
  have w2: "rt_workers rt2 = rt_workers rt" using R s1(3) by simp
  let ?w2 = "close_workers (rt_workers rt) w1"
  note C = close_workers_spec [of w1 "rt_workers rt"]
  have "distinct (map wk_worker_id (rt_workers rt))" using inv by (simp add: rt_inv_def indexes_def)
  moreover have "\<forall>wk \<in> set (rt_workers rt). wk_thread wk \<and> bq_closed (w_lane ?w2 (wk_worker_id wk))"
    using C threads(2) by simp
  ultimately have J: "world_le ?w2 w'" "\<forall>out \<in> set outs. out = Stopped"
      "\<forall>a. rank_of a ?w2 \<le> 2 \<and> (\<exists>wk \<in> set (rt_workers rt). in_worker a (wk, ?w2)) \<longrightarrow> is_terminal (w_reqs w' a)"
    using join_workers_spec [OF j [unfolded w2]] by blast+
  have le: "world_le w ?w2" using R C grows_le world_le_trans by blast
  have "is_terminal (w_reqs w' a)" if "wk \<in> set (rt_workers rt)" "rank_of a w \<le> 2" "in_worker a (wk, w1)" for a wk
  proof -
    have "rank_of a ?w2 \<le> 2" using world_le_rank [OF le, of a] that(2) by linarith
    moreover have "in_worker a (wk, ?w2)" using that(3) prefix_waiting C by (auto simp: in_worker_def)
    ultimately show ?thesis using J(3) that(1) by blast
  qed
  moreover have "world_le w1 w'" using C J(1) world_le_trans by blast
  moreover have "\<forall>a. Some a \<in> set (sch_held (rt_scheduler rt)) \<and> queued_or_settled a w \<longrightarrow> routed rt w1 a"
    using R out s1(1,3) by (simp add: routed_def)
  ultimately show thesis
    using that [of w1] R out J(2) rt' routing_loop_accepting [OF r] s1(4) by auto
qed

lemma stop_settles:
  assumes inv: "rt_inv rt" and threads: "rt_routing_thread rt = InLoop" "\<forall>wk \<in> set (rt_workers rt). wk_thread wk"
    and run: "runtime_stop load unload infer (rt, w) = ((rout, outs), rt', w')"
  shows "world_le w w'"
    and "Some a \<in> set (sch_held (rt_scheduler rt)) \<Longrightarrow> queued_or_settled a w \<Longrightarrow> is_terminal (w_reqs w' a)"
    and "wk \<in> set (rt_workers rt) \<Longrightarrow> rank_of a w \<le> 2 \<Longrightarrow> in_worker a (wk, w) \<Longrightarrow> is_terminal (w_reqs w' a)"
proof -
  obtain w1 where g: "grows w w1" and le: "world_le w1 w'"
    and held: "\<forall>a. Some a \<in> set (sch_held (rt_scheduler rt)) \<and> queued_or_settled a w \<longrightarrow> routed rt w1 a"
    and wks: "\<forall>a. \<forall>wk \<in> set (rt_workers rt). rank_of a w \<le> 2 \<and> in_worker a (wk, w1) \<longrightarrow> is_terminal (w_reqs w' a)"
    using stop_phases [OF assms] by metis
  show all: "world_le w w'" using grows_le [OF g] le world_le_trans by blast
  show "is_terminal (w_reqs w' a)" if "wk \<in> set (rt_workers rt)" "rank_of a w \<le> 2" "in_worker a (wk, w)"
    using wks that grows_waiting [OF g] by (auto simp: in_worker_def)
  show "is_terminal (w_reqs w' a)" if "Some a \<in> set (sch_held (rt_scheduler rt))" and q: "queued_or_settled a w"
  proof (cases "is_terminal (w_reqs w a)")
    case True
    then show ?thesis using all world_le_terminal by blast
  next
    case False
    then have "rank_of a w \<le> 2" using q by (auto simp: queued_or_settled_def)
    then show ?thesis using held wks that by (auto simp: routed_def in_worker_def)
  qed
qed


end
