(* ===== verification/AR_Runtime_Submit.thy ===== *)
theory AR_Runtime_Submit
  imports AR_Runtime_Props AR_Workload_Policy
begin

text \<open>
  The interface of the runtime as its users see it: which constructor arguments are accepted,
  what starting and submitting do, what the snapshots report, and when the routing thread
  ends. The examples at the end run a small runtime of two workers.
\<close>

section \<open>Construction and start\<close>

lemma index_workers_Inr_iff:
  "(\<exists>index'. index_workers i ws index = Inr index') \<longleftrightarrow>
   None \<notin> set ws \<and> distinct (map (\<lambda>v. wk_worker_id (the v)) ws) \<and>
   (\<forall>wk. Some wk \<in> set ws \<longrightarrow> map_of index (wk_worker_id wk) = None)"
proof (induction i ws index rule: index_workers.induct)
  case (3 i wk ws index)
  show ?case
  proof (cases "map_of index (wk_worker_id wk) = None")
    case True
    then have "(\<exists>index'. index_workers i (Some wk # ws) index = Inr index') \<longleftrightarrow>
      None \<notin> set ws \<and> distinct (map (\<lambda>v. wk_worker_id (the v)) ws) \<and>
      (\<forall>v. Some v \<in> set ws \<longrightarrow> wk_worker_id v \<noteq> wk_worker_id wk \<and> map_of index (wk_worker_id v) = None)"
      using 3 by (auto simp: update_conv')
    moreover have "(\<forall>v. Some v \<in> set ws \<longrightarrow> wk_worker_id v \<noteq> wk_worker_id wk) \<longleftrightarrow>
      wk_worker_id wk \<notin> (\<lambda>v. wk_worker_id (the v)) ` set ws" if "None \<notin> set ws"
      using that by (metis (no_types, lifting) image_iff option.exhaust_sel option.sel)
    ultimately show ?thesis using True by auto
  qed auto
qed auto

text \<open>
  C31: The constructor of the runtime accepts exactly the arguments that make sense: a
  scheduler, a router and a registry, at least one worker, no null worker and no identifier
  used twice. It then owns the workers in the order given, finds each of them, and only
  them, by its identifier, and is not running; otherwise it throws.
\<close>

theorem runtime_construction:
  "case runtime_make scheduler router workers registry of
     Inl _ \<Rightarrow> scheduler = None \<or> router = None \<or> registry = None \<or> workers = [] \<or> None \<in> set workers \<or>
       \<not> distinct (map (\<lambda>v. wk_worker_id (the v)) workers)
   | Inr rt \<Rightarrow>
       scheduler = Some (rt_scheduler rt) \<and> router = Some (rt_router rt) \<and> registry = Some (rt_registry rt) \<and>
       workers = map Some (rt_workers rt) \<and> rt_workers rt \<noteq> [] \<and> \<not> is_running rt \<and>
       (\<forall>k i. find_worker k rt = Some i \<longleftrightarrow> i < length (rt_workers rt) \<and> wk_worker_id (rt_workers rt ! i) = k)"
proof (cases "runtime_make scheduler router workers registry")
  case (Inl e)
  then show ?thesis
    using index_workers_Inr_iff [of 0 workers "[]"]
    by (auto simp: runtime_make_def split: option.splits if_splits sum.splits)
next
  case (Inr rt)
  then obtain s r reg where m: "scheduler = Some s" "router = Some r" "registry = Some reg"
    "rt_router rt = r" "rt_registry rt = reg" "\<exists>index. index_workers 0 workers [] = Inr index" "workers \<noteq> []"
    by (auto simp: runtime_make_def split: option.splits if_splits sum.splits)
  have rt: "rt_scheduler rt = s" "rt_workers rt = map the workers" "\<not> is_running rt"
    "indexes (rt_workers rt) (rt_worker_index rt)"
    using runtime_make_parts [of s router workers registry rt] Inr m(1) by auto
  have "None \<notin> set workers" using m(6) index_workers_Inr_iff by blast
  then have "map Some (map the workers) = workers" by (induction workers) auto
  then show ?thesis using Inr m rt by (auto simp: indexes_def find_worker_def)
qed

lemma start_workers_spec:
  "start_workers wks w = (st, wks', w') \<Longrightarrow> \<forall>wk \<in> set wks. wk_thread wk = wk_started wk \<Longrightarrow>
   st = status_success \<and> map wk_worker_id wks' = map wk_worker_id wks \<and>
   (\<forall>wk \<in> set wks'. wk_thread wk \<and> wk_started wk) \<and>
   (\<forall>wk \<in> set wks. \<not> wk_started wk \<or> w_accepting w (wk_worker_id wk) \<longrightarrow> w_accepting w' (wk_worker_id wk)) \<and>
   (\<forall>k. w_accepting w k \<longrightarrow> w_accepting w' k)"
proof (induction wks arbitrary: w wks')
  case (Cons wk wks)
  obtain wk1 w1 where 1: "worker_start (wk, w) = (status_success, wk1, w1)" "wk_worker_id wk1 = wk_worker_id wk"
    "wk_thread wk1 \<and> wk_started wk1" "\<not> wk_started wk \<longrightarrow> w_accepting w1 (wk_worker_id wk)"
    "\<forall>k. w_accepting w k \<longrightarrow> w_accepting w1 k"
    using Cons.prems(2) by (cases "wk_started wk") (auto simp: worker_start_def)
  obtain wks1 where 2: "start_workers wks w1 = (st, wks1, w')" "wks' = wk1 # wks1"
    using Cons.prems(1) 1(1) by (auto split: prod.splits)
  have "\<forall>v \<in> set wks. wk_thread v = wk_started v" using Cons.prems(2) by simp
  note IH = Cons.IH [OF 2(1) this]
  show ?case using IH 1(2-) 2(2) by auto
qed simp

lemma start_workers_quiet: "start_workers wks w = (st, wks', w') \<Longrightarrow> quiet w \<Longrightarrow> quiet w'"
  by (induction wks arbitrary: w wks')
    (auto simp: worker_start_def quiet_def split: prod.splits if_splits)

lemma some_accepting_quiet:
  "quiet w \<Longrightarrow> some_accepting wks w \<longleftrightarrow> (\<exists>wk \<in> set wks. w_accepting w (wk_worker_id wk))"
  by (induction wks) (simp_all add: worker_snapshot_def interfere_quiet Let_def)

text \<open>
  A runtime made of workers that have not been started starts: the call succeeds, the
  routing thread and the thread of every worker run, the runtime keeps its well-formedness,
  counts as running and, while no other thread closes a worker, as healthy. These are the
  conditions under which stopping it settles all requests.
\<close>

lemma runtime_starts:
  assumes make: "runtime_make (Some s) router workers registry = Inr rt" "sch_inv s"
    and fresh: "\<forall>wk \<in> set (rt_workers rt). \<not> wk_started wk \<and> \<not> wk_thread wk"
    and run: "runtime_start (rt, w) = (st, rt', w')"
  shows "st = status_success \<and> rt_inv rt' \<and> rt_routing_thread rt' = InLoop \<and> (\<forall>wk \<in> set (rt_workers rt'). wk_thread wk) \<and>
    is_running rt' \<and> (quiet w \<longrightarrow> is_healthy (rt', w'))"
proof -
  have rt: "rt_inv rt" "\<not> rt_started rt" using runtime_make_inv [OF make] runtime_make_parts [OF make(1)] by auto
  obtain st1 wks w1 where s: "start_workers (rt_workers rt) w = (st1, wks, w1)" by (metis prod.exhaust)
  have "\<forall>wk \<in> set (rt_workers rt). wk_thread wk = wk_started wk" using fresh by blast
  note S = start_workers_spec [OF s this]
  have res: "st = status_success" "w' = w1"
    "rt' = rt\<lparr>rt_workers := wks, rt_accepting := True, rt_routing_thread := InLoop, rt_started := True\<rparr>"
    using run s S rt(2) by (auto simp: runtime_start_def)
  have ids: "map wk_worker_id wks = map wk_worker_id (rt_workers rt)" using S by blast
  have len: "length wks = length (rt_workers rt)" using ids by (metis length_map)
  have nth: "wk_worker_id (wks ! i) = wk_worker_id (rt_workers rt ! i)" if "i < length wks" for i
    using ids len that by (metis nth_map)
  have ne: "wks \<noteq> []" using rt(1) len by (auto simp: rt_inv_def)
  have "indexes wks (rt_worker_index rt)"
    using rt(1) ids len nth by (auto simp: rt_inv_def indexes_def)
  then have inv: "rt_inv rt'" using rt(1) ne res(3) by (simp add: rt_inv_def)
  have "is_healthy (rt', w')" if "quiet w"
  proof -
    have q: "quiet w'" using that start_workers_quiet [OF s] res(2) by simp
    obtain wk where "wk \<in> set (rt_workers rt)" using rt(1) unfolding rt_inv_def by (metis list.set_intros(1) list.exhaust)
    then have "w_accepting w' (wk_worker_id wk)" "wk_worker_id wk \<in> set (map wk_worker_id wks)"
      using S fresh res(2) ids by auto
    then show ?thesis using q ne res(3) by (auto simp: is_healthy_def some_accepting_quiet)
  qed
  then show ?thesis using res S inv by (simp add: is_running_def)
qed

section \<open>Submitting\<close>

lemma submit_accounting:
  assumes inv: "rt_inv rt" and so: "sole_owner a w" and new: "rq_state (w_reqs w a) = Received"
    and run: "submit (Some a) (rt, w) = (st, rt', w')"
  shows "rt_inv rt' \<and>
    (rt' = rt \<and> is_terminal (w_reqs w' a) \<or>
     rt_accepting rt \<and> status_ok st \<and> rt' = rt\<lparr>rt_scheduler := rt_scheduler rt'\<rparr> \<and>
     mset (sch_held (rt_scheduler rt')) = add_mset (Some a) (mset (sch_held (rt_scheduler rt))) \<and>
     (rq_state (w_reqs w' a) = Queued \<or> is_terminal (w_reqs w' a))) \<and>
    (\<not> rt_accepting rt \<longrightarrow> st = status_success \<or> st = runtime_stopped)"
proof -
  obtain r w1 where 1: "read_req a w = (r, w1)" by fastforce
  obtain now w2 where 2: "steady_now w1 = (now, w2)" by fastforce
  obtain x w3 where 3: "try_timeout_if_expired now a w2 = (x, w3)" by fastforce
  obtain r1 w4 where 4: "read_req a w3 = (r1, w4)" by fastforce
  obtain r2 w5 where 5: "read_req a w4 = (r2, w5)" by fastforce
  obtain b w6 where 6: "try_reject runtime_stopped a w5 = (b, w6)" by fastforce
  have r: "r = w_reqs w1 a" "r1 = w_reqs w4 a" "r2 = w_reqs w5 a"
    using 1 4 5 by (auto simp: read_req_def Let_def)
  have "grows w w1" using read_req_grows [of w a] 1 by simp
  also have "grows w1 w2" using steady_now_grows [of w1] 2 by simp
  also have "grows w2 w3" using try_timeout_if_expired_grows [of w2 now a] 3 by simp
  also have "grows w3 w4" using read_req_grows [of w3 a] 4 by simp
  finally have g4: "grows w w4" .
  have g5: "grows w w5" using grows_trans [OF g4] read_req_grows [of w4 a] 5 by simp
  have new_at: "rq_state (w_reqs v a) = Received \<or> is_terminal (w_reqs v a)" if "grows w v" for v
    using that so new by (auto simp: grows_def settles_def)
  have "is_terminal (w_reqs w6 a)"
    using reject_terminal [OF 6] new_at [OF grows_trans [OF g5 interfere_grows]] by auto
  then have stopped: "rq_state r2 = Received \<longrightarrow> is_terminal (w_reqs w6 a)"
    "rq_state r2 \<noteq> Received \<longrightarrow> is_terminal (w_reqs w5 a)"
    using new_at [OF g5] r(3) by auto
  consider (dead) "is_terminal r" | (died) "\<not> is_terminal r" "is_terminal r1"
    | (closed) "\<not> is_terminal r" "\<not> is_terminal r1" "\<not> rt_accepting rt"
    | (admitted) "\<not> is_terminal r" "\<not> is_terminal r1" "rt_accepting rt" by blast
  then show ?thesis
  proof cases
    case admitted
    obtain s' where ad: "admit sch_enqueue (Some a) (rt_scheduler rt, w4) = (st, s', w')"
      "rt' = rt\<lparr>rt_scheduler := s'\<rparr>"
      using run 1 2 3 4 admitted by (auto simp: submit_def split: prod.splits)
    have "sch_inv (rt_scheduler rt)" using inv by (simp add: rt_inv_def)
    from sch.admit_accounts [OF this sole_owner_le [OF so grows_le [OF g4]] new_at [OF g4] ad(1)]
    show ?thesis using ad(2) admitted set_scheduler_inv [OF inv] by auto
  qed (use run 1 2 3 4 5 6 r inv stopped in \<open>auto simp: submit_def\<close>)
qed

text \<open>
  C5: Every submitted request is accounted for. Whichever scheduler the runtime uses and
  whatever other threads do, after \<^verbatim>\<open>submit\<close> of a new request the scheduler holds it in
  addition to what it held before, or the runtime is unchanged and the request is settled. A
  runtime that does not accept work settles it, and the answer is then success only if the
  request had been settled by somebody else, and \<^verbatim>\<open>RuntimeStopped\<close> otherwise.
\<close>

theorem submit_accounts:
  assumes inv: "rt_inv rt" and so: "sole_owner a w" and new: "rq_state (w_reqs w a) = Received"
    and run: "submit (Some a) (rt, w) = (st, rt', w')"
  shows "rt_inv rt' \<and>
    (rt' = rt \<and> is_terminal (w_reqs w' a) \<or>
     rt_accepting rt \<and> status_ok st \<and> rt' = rt\<lparr>rt_scheduler := rt_scheduler rt'\<rparr> \<and>
     mset (sch_held (rt_scheduler rt')) = add_mset (Some a) (mset (sch_held (rt_scheduler rt))) \<and>
     (rq_state (w_reqs w' a) = Queued \<or> is_terminal (w_reqs w' a))) \<and>
    (\<not> rt_accepting rt \<longrightarrow> st = status_success \<or> st = runtime_stopped)"
  by (rule submit_accounting [OF assms])

section \<open>Observing\<close>

text \<open>
  The listing of the models is right. For a registry as its builder makes it, the runtime
  lists every registered model once, in the order of the identifiers, and with each model the
  identifiers, in increasing order, of exactly the workers that have it resident.
\<close>

lemma model_snapshots_correct:
  assumes reg: "registry_inv (rt_registry rt)" and ids: "distinct (map wk_worker_id (rt_workers rt))"
  shows "map mn_spec (model_snapshots rt) = registry_models (rt_registry rt) \<and>
    sorted_wrt (<) (map (ms_model_id \<circ> mn_spec) (model_snapshots rt)) \<and>
    (\<forall>ms \<in> set (model_snapshots rt).
       sorted_wrt (<) (mn_resident_worker_ids ms) \<and>
       (\<forall>k. k \<in> set (mn_resident_worker_ids ms) \<longleftrightarrow>
          (\<exists>wk \<in> set (rt_workers rt). wk_worker_id wk = k \<and>
             ms_model_id (mn_spec ms) \<in> set (resident_model_ids (wk_model_manager wk)))))"
proof -
  let ?models = "registry_models (rt_registry rt)"
  let ?snaps = "map (model_snapshot (rt_workers rt)) ?models"
  have sorted: "sorted_wrt (<) (map ms_model_id ?models)" by (rule registry_models_sorted [OF reg])
  have spec: "mn_spec (model_snapshot wks x) = x" for wks :: "'a Worker list" and x by (simp add: model_snapshot_def)
  have "sorted_wrt (\<lambda>a b. spec_lt (mn_spec a) (mn_spec b)) ?snaps"
    using sorted by (simp add: sorted_wrt_map spec_lt_def spec)
  then have same: "model_snapshots rt = ?snaps"
    unfolding model_snapshots_def
    by (intro sort_by_sorted) (auto elim!: sorted_wrt_mono_rel [rotated] simp: spec_lt_def)
  have "sorted_wrt (<) (mn_resident_worker_ids (model_snapshot (rt_workers rt) x))" for x
    using strict_sort_by [OF distinct_map_filter [OF ids]] by (simp add: model_snapshot_def)
  then show ?thesis
    using sorted unfolding same by (auto simp: model_snapshot_def comp_def)
qed

section \<open>The end of the routing thread\<close>

text \<open>Submitting one request after the other, and what the scheduler holds.\<close>

definition submits :: "RequestPtr list \<Rightarrow> 'b Runtime \<times> World \<Rightarrow> 'b Runtime \<times> World" where
  "submits ps rw = fold (\<lambda>p rw. snd (submit p rw)) ps rw"

definition held_by :: "'b Runtime \<times> World \<Rightarrow> RequestPtr list" where
  "held_by rw = sch_held (rt_scheduler (fst rw))"

lemma submit_thread: "rt_routing_thread (fst (snd (submit p rw))) = rt_routing_thread (fst rw)"
  by (auto simp: submit_def split: prod.splits option.splits)

lemma submits_thread: "rt_routing_thread (fst (submits ps rw)) = rt_routing_thread (fst rw)"
  by (induction ps arbitrary: rw) (simp_all add: submits_def submit_thread)

lemma stop_after_return:
  "rt_routing_thread (fst rw) = LoopReturned \<Longrightarrow>
   sch_held (rt_scheduler (fst (snd (runtime_stop load unload infer rw)))) = sch_held (rt_scheduler (fst rw))"
  by (auto simp: runtime_stop_def stop_accepting_def sch.close_held Let_def split: prod.splits)

text \<open>
  C32: The routing thread can end while the runtime runs. If all requests that the
  workload-aware scheduler holds are settled before the routing thread asks for the next
  one, the scheduler answers that there are no more requests, although it is open, and the
  thread returns from its loop. The runtime still counts as running and accepts further
  requests, but nobody takes them out of the scheduler: stopping joins the finished thread
  and leaves everything the scheduler holds where it is.
\<close>

theorem routing_gives_up:
  assumes "rt_scheduler rt = Workload s" "wa_inv s" "0 < wa_size s" "\<not> wa_closed s"
    and "gone w (entries (wa_by_model s))" and "is_running rt"
  shows "\<exists>rt' w'. routing_loop (Suc n) (rt, w) = (RoutingEnded, rt', w') \<and> is_running rt' \<and>
    \<not> sch_closed (rt_scheduler rt') \<and> sch_held (rt_scheduler rt') = [] \<and>
    rt_routing_thread rt' = LoopReturned \<and>
    (\<forall>ps. held_by (snd (runtime_stop load unload infer (submits ps (rt', w')))) = held_by (submits ps (rt', w')))"
proof -
  obtain s' w' where n: "wa_next [] (s, w) = Some (None, (s', w'), [])" "\<not> wa_closed s'"
    using workload_gives_up_open [OF assms(2-5)] by blast
  moreover have "wa_held s' = []" using workload.next_none [OF assms(2) n(1)] .
  ultimately show ?thesis using assms(1,6) by (simp add: is_running_def stop_after_return submits_thread held_by_def)
qed

section \<open>An example\<close>

text \<open>A runtime of two workers, with the requests 1, 2 and 3 submitted.\<close>

definition demo_new :: World where
  "demo_new = fresh_world (\<lambda>a. new_request ''r'' ''m'' ''p'' 4)"

definition demo_made :: "IRequestScheduler \<Rightarrow> SyntheticModelBackend Runtime \<times> World" where
  "demo_made s =
     (let x = projr (worker_make demo_config demo_new);
          y = projr (worker_make (demo_config\<lparr>wc_worker_id := 8\<rparr>) (snd x))
      in (projr (runtime_make (Some s) (Some LeastLoadedRouter) [Some (fst x), Some (fst y)]
            (Some [(''m'', demo_spec)])), snd y))"

definition demo_started :: "IRequestScheduler \<Rightarrow> SyntheticModelBackend Runtime \<times> World" where
  "demo_started s = snd (runtime_start (demo_made s))"

definition demo_workload :: IRequestScheduler where
  "demo_workload = Workload (projr (wa_make 4 2))"

definition demo_full :: "SyntheticModelBackend Runtime \<times> World" where
  "demo_full = fold (\<lambda>a rw. snd (submit (Some a) rw)) [1, 2, 3] (demo_started demo_workload)"

lemma indexesI:
  assumes "distinct (map wk_worker_id wks)" "index = zip (map wk_worker_id wks) [0..<length wks]"
  shows "indexes wks index"
proof -
  have "map_of index k = Some i \<longleftrightarrow> i < length wks \<and> wk_worker_id (wks ! i) = k" for k i
    using assms by (auto simp: map_of_eq_Some_iff in_set_zip intro!: exI [of _ i])
  then show ?thesis using assms(1) by (simp add: indexes_def)
qed

lemma demo_full_inv: "rt_inv (fst demo_full)"
proof -
  have "distinct (map wk_worker_id (rt_workers (fst demo_full)))" "rt_workers (fst demo_full) \<noteq> []"
    "sch_inv (rt_scheduler (fst demo_full))" by code_simp+
  moreover have "rt_worker_index (fst demo_full) =
      zip (map wk_worker_id (rt_workers (fst demo_full))) [0..<length (rt_workers (fst demo_full))]" by code_simp
  ultimately show ?thesis unfolding rt_inv_def using indexesI by blast
qed

lemma demo_made_make:
  "runtime_make (Some demo_workload) (Some LeastLoadedRouter)
     (map Some (rt_workers (fst (demo_made demo_workload)))) (Some [(''m'', demo_spec)]) =
   Inr (fst (demo_made demo_workload))"
  by code_simp

theorem runtime_construction_witness:
  "find_worker 8 (fst (demo_made demo_workload)) = Some 1"
proof -
  let ?rt = "fst (demo_made demo_workload)"
  have "map wk_worker_id (rt_workers ?rt) = [7, 8]" by code_simp
  then have "1 < length (rt_workers ?rt)" "wk_worker_id (rt_workers ?rt ! 1) = 8"
    by (auto simp: map_eq_Cons_conv)
  then show ?thesis
    using runtime_construction [where scheduler = "Some demo_workload" and router = "Some LeastLoadedRouter"
        and workers = "map Some (rt_workers ?rt)" and registry = "Some [(''m'', demo_spec)]"] demo_made_make by auto
qed

lemma demo_started_inv: "rt_inv (fst (demo_started demo_workload))"
proof -
  let ?rt = "fst (demo_made demo_workload)" and ?w = "snd (demo_made demo_workload)"
  let ?run = "runtime_start (demo_made demo_workload)"
  have inv: "sch_inv demo_workload" by code_simp
  have fresh: "\<forall>wk \<in> set (rt_workers ?rt). \<not> wk_started wk \<and> \<not> wk_thread wk" by code_simp
  have run: "runtime_start (?rt, ?w) = (fst ?run, fst (snd ?run), snd (snd ?run))" by simp
  from runtime_starts [OF demo_made_make inv fresh run] show ?thesis by (simp add: demo_started_def)
qed


theorem submit_accounts_witness:
  "let rw = demo_full; r = submit (Some 4) rw
   in rt_inv (fst (snd r)) \<and> (fst (snd r) = fst rw \<and> is_terminal (w_reqs (snd (snd r)) 4) \<or>
      Some 4 \<in> set (sch_held (rt_scheduler (fst (snd r)))))"
proof -
  let ?r = "submit (Some 4) demo_full"
  have run: "submit (Some 4) (fst demo_full, snd demo_full) = (fst ?r, fst (snd ?r), snd (snd ?r))" by simp
  have "w_env (snd demo_full) = []" by code_simp
  then have so: "sole_owner 4 (snd demo_full)" by (simp add: sole_owner_def)
  have new: "rq_state (w_reqs (snd demo_full) 4) = Received" by code_simp
  show ?thesis
    using submit_accounts [OF demo_full_inv so new run]
    unfolding Let_def by (metis (no_types, lifting) set_mset_mset set_mset_add_mset_insert insertI1)
qed

lemma model_snapshots_correct_witness:
  "map mn_spec (model_snapshots (fst demo_full)) = [demo_spec] \<and>
   map mn_resident_worker_ids (model_snapshots (fst demo_full)) = [[]]"
proof -
  have reg: "registry_inv (rt_registry (fst demo_full))" by code_simp
  have ids: "distinct (map wk_worker_id (rt_workers (fst demo_full)))" by code_simp
  have "registry_models (rt_registry (fst demo_full)) = [demo_spec]" by code_simp
  moreover have "map mn_resident_worker_ids (model_snapshots (fst demo_full)) = [[]]" by code_simp
  ultimately show ?thesis using model_snapshots_correct [OF reg ids] by simp
qed

text \<open>Requests 1, 2 and 3 are cancelled, the routing thread returns, and request 4 stays where it is.\<close>

theorem routing_gives_up_witness:
  "let rt = fst demo_full;
       w = (snd demo_full)\<lparr>w_reqs := \<lambda>a. if a = 4 then w_reqs (snd demo_full) a
             else (w_reqs (snd demo_full) a)\<lparr>rq_state := Cancelled\<rparr>\<rparr>
   in \<exists>rt' w'. routing_loop 9 (rt, w) = (RoutingEnded, rt', w') \<and> is_running rt' \<and>
        held_by (submits [Some 4] (rt', w')) = [Some 4] \<and>
        held_by (snd (runtime_stop syn_load syn_unload syn_infer_batch_virtual (submits [Some 4] (rt', w')))) = [Some 4]"
proof -
  let ?rt = "fst demo_full"
  let ?w = "(snd demo_full)\<lparr>w_reqs := \<lambda>a. if a = 4 then w_reqs (snd demo_full) a
             else (w_reqs (snd demo_full) a)\<lparr>rq_state := Cancelled\<rparr>\<rparr>"
  have "case rt_scheduler ?rt of Workload s \<Rightarrow> wa_inv s \<and> 0 < wa_size s \<and> \<not> wa_closed s \<and>
      map en_request (entries (wa_by_model s)) = [Some 1, Some 2, Some 3] | _ \<Rightarrow> False"
    by code_simp
  then obtain s where s: "rt_scheduler ?rt = Workload s" "wa_inv s" "0 < wa_size s" "\<not> wa_closed s"
    and held: "map en_request (entries (wa_by_model s)) = [Some 1, Some 2, Some 3]"
    by (auto split: IRequestScheduler.splits)
  have "en_request e \<in> set [Some 1, Some 2, Some 3]" if "e \<in> set (entries (wa_by_model s))" for e
    using that unfolding held [symmetric] by simp
  then have gone: "gone ?w (entries (wa_by_model s))" by (fastforce simp: gone_def is_terminal_def)
  have run: "is_running ?rt" by code_simp
  have nine: "Suc 8 = 9" by simp
  have "held_by (submits [Some 4] (snd (routing_loop 9 (?rt, ?w)))) = [Some 4]" by code_simp
  moreover obtain rt' w' where "routing_loop 9 (?rt, ?w) = (RoutingEnded, rt', w')" "is_running rt'"
    "\<forall>ps. held_by (snd (runtime_stop syn_load syn_unload syn_infer_batch_virtual (submits ps (rt', w')))) =
       held_by (submits ps (rt', w'))"
    using routing_gives_up [OF s gone run, where n = 8 and load = syn_load and unload = syn_unload and
        infer = syn_infer_batch_virtual] unfolding nine by blast
  ultimately show ?thesis unfolding Let_def by (intro exI [of _ rt'] exI [of _ w']) simp
qed

end
