(* ===== verification/AR_Site.thy ===== *)
theory AR_Site
  imports AR_Session_Wire AR_Handler_Props AR_Runtime_Submit
begin

text \<open>
  The HTTP interface and the runtime together: what becomes of a request whose client goes away,
  whose session is shut down, or whose submission is refused, and what stopping the server does
  to all sessions.
\<close>

section \<open>Cancelling\<close>

lemma cancel_terminal: "is_terminal (w_reqs (snd (try_cancel a w)) a)"
proof (cases "op_locked OpCancel (w_reqs (interfere w) a)")
  case None
  then have "is_terminal (w_reqs (interfere w) a)"
    by (cases "rq_state (w_reqs (interfere w) a)")
      (auto simp: cancel_locked_def settle_locked_None_iff is_valid_transition_def is_terminal_def)
  then show ?thesis using None by (simp add: try_cancel_def perform_def Let_def)
next
  case (Some y)
  obtain r obs sn where y: "y = (r, (obs, sn))" by (cases y) auto
  then have "is_terminal r" using Some by (auto simp: cancel_locked_def settle_locked_Some_iff is_terminal_def)
  moreover let ?w2 = "(interfere w)\<lparr>w_reqs := (w_reqs (interfere w))(a := r)\<rparr>"
  have "is_terminal (w_reqs ?w2 a) \<Longrightarrow> is_terminal (w_reqs (interfere ?w2) a)"
    by (rule world_le_terminal [OF interfere_le])
  ultimately show ?thesis using Some y by (simp add: try_cancel_def perform_def Let_def)
qed

lemma cancel_active_terminal: "p = Some a \<Longrightarrow> is_terminal (w_reqs (cancel_active p w) a)"
  by (auto simp: cancel_active_def read_req_def Let_def intro: cancel_terminal)

lemma cancel_active_le [world_mono]: "world_le w (cancel_active p w)"
proof (cases p)
  case (Some a)
  have "world_le w (snd (read_req a w))" "world_le (snd (read_req a w)) (snd (try_cancel a (snd (read_req a w))))"
    by (rule world_mono)+
  then show ?thesis using Some by (auto simp: cancel_active_def case_prod_beta intro: world_le_trans)
qed (simp add: cancel_active_def)

lemma on_disconnect_world:
  "en_world (snd (on_disconnect (hs, env))) = cancel_active (hs_active_request hs) (en_world env)"
  by (simp add: on_disconnect_def close_session_def Let_def stop_disconnect_watch_def)

lemma on_disconnect_registered:
  "\<not> hs_closed hs \<Longrightarrow> hs_this hs \<notin> set (sv_sessions (en_server (snd (on_disconnect (hs, env)))))"
  by (simp add: on_disconnect_def close_session_def stop_disconnect_watch_def unregister_session_def Let_def)

text \<open>
  C19: A client that goes away has its request cancelled. While a session watches its peer, a
  readable socket closes the session, takes it off the list of the server and leaves its request
  settled, cancelled unless something else settled it first, if the peer has gone or has sent
  anything more, whatever the other threads do. If the probe finds nothing to read, the session
  stays as it is, goes on watching, and its request is not touched.
\<close>

theorem disconnect_cancels:
  assumes hs: "\<not> hs_closed hs" "hs_disconnect_watch_active hs" "hs_active_request hs = Some a"
    and ec: "wait_ec \<noteq> OperationAborted" and run: "on_peer_wait wait_ec read_ec n (hs, env) = (hs', env')"
  shows "if is_peer_gone wait_ec \<or> read_ec \<notin> {WouldBlock, TryAgain}
    then hs_closed hs' \<and> is_terminal (w_reqs (en_world env') a) \<and>
      hs_this hs \<notin> set (sv_sessions (en_server env'))
    else env' = env \<and> \<not> hs_closed hs' \<and> hs_disconnect_watch_active hs' \<and> PWait \<in> set (hs_pending hs')"
proof (cases "is_peer_gone wait_ec \<or> read_ec \<notin> {WouldBlock, TryAgain}")
  case True
  let ?hs = "hs\<lparr>hs_disconnect_watch_armed := False\<rparr>"
  have "on_disconnect (?hs, env) = (hs', env')"
    using True run hs ec by (auto simp: on_peer_wait_def Let_def is_peer_gone_def split: if_splits)
  then show ?thesis
    using True hs fst_on_disconnect [of ?hs env] on_disconnect_world [of ?hs env] on_disconnect_registered [of ?hs env]
      cancel_active_terminal [of "hs_active_request hs" a "en_world env"] by auto
next
  case False
  then have "hs' = arm_disconnect_watch (hs\<lparr>hs_disconnect_watch_armed := False\<rparr>) \<and> env' = env"
    using run hs ec by (auto simp: on_peer_wait_def Let_def is_peer_gone_def split: if_splits)
  then show ?thesis using False hs by (simp add: arm_disconnect_watch_def start_op_def)
qed

text \<open>
  C38: A stream gives up watching its client. Once the first event of a stream has been sent, the
  watch is off; if the client then disconnects, or sends a byte, while no write is under way, the
  wait completes, nothing else holds the session, and the session is destroyed without its request
  being cancelled: the shared state is left as it was, and the timer is gone with the session.
\<close>

theorem stream_abandons_request:
  assumes hs: "hs_pending (objs k) = [PTimer a, PWait]" "\<not> hs_disconnect_watch_active (objs k)"
    and run: "complete_op lib k PWait c (objs, env) = Inr (objs', env')"
  shows "k \<notin> set (en_live env') \<and> en_world env' = en_world env"
proof -
  have "Inr (objs', env') = (Inr (destroy_unused (post_updates (length (w_calls (en_world env)))
      (objs(k := (objs k)\<lparr>hs_pending := [PTimer a], hs_disconnect_watch_armed := False\<rparr>), env))) :: 'a Site or_throw)"
    using run hs by (simp add: complete_op_def on_peer_wait_def Let_def)
  then show ?thesis
    by (auto simp: destroy_unused_def post_updates_def updates_for_def keeps_alive_def)
qed

text \<open>
  No handler catches what the JSON library throws. An answer the library cannot print, such as one
  whose text is cut in the middle of a character, ends the loop of the server with the exception.
\<close>

lemma unprintable_answer_crashes:
  assumes "\<not> hs_closed (objs k)" "\<not> hs_stream_mode (objs k)" "is_terminal_state (sn_state snap)"
    and "jl_dump lib (infer_response_json snap) = Inl e"
  shows "complete_op lib k (PUpdate snap) c (objs, env) = Inl e"
  using assms by (simp add: complete_op_def on_state_update_def serialize_infer_response_def json_response_def Let_def)

section \<open>What handlers do to the server\<close>

text \<open>
  A handler of a session keeps the other sessions registered, and its own unless it closes it.
\<close>

definition server_frame :: "HttpSession \<times> 'b Env \<Rightarrow> HttpSession \<times> 'b Env \<Rightarrow> bool" where
  "server_frame se se' \<longleftrightarrow>
     (case (se, se') of ((hs, env), (hs', env')) \<Rightarrow>
        hs_this hs' = hs_this hs \<and> (hs_closed hs \<longrightarrow> hs_closed hs') \<and>
        en_live env' = en_live env \<and> en_next_session env' = en_next_session env \<and>
        (\<forall>k \<in> set (sv_sessions (en_server env)). k \<in> set (en_live env) \<longrightarrow>
           k \<in> set (sv_sessions (en_server env')) \<or> k = hs_this hs \<and> hs_closed hs'))"

lemma frame_refl [simp]: "server_frame se se"
  by (auto simp: server_frame_def)

lemma frame_trans: "server_frame a b \<Longrightarrow> server_frame b c \<Longrightarrow> server_frame a c"
  unfolding server_frame_def by (auto split: prod.splits)

lemma frame_local:
  "hs_this hs' = hs_this hs \<Longrightarrow> hs_closed hs' = hs_closed hs \<Longrightarrow> en_server env' = en_server env \<Longrightarrow>
   en_live env' = en_live env \<Longrightarrow> en_next_session env' = en_next_session env \<Longrightarrow> server_frame (hs, env) (hs', env')"
  by (simp add: server_frame_def)

lemma frame_close: "server_frame (hs, env) (close_session (hs, env))"
  by (auto simp: server_frame_def close_session_def stop_disconnect_watch_def unregister_session_def)

lemma frame_shutdown: "server_frame (hs, env) (session_shutdown (hs, env))"
proof -
  let ?env = "env\<lparr>en_world := cancel_active (hs_active_request hs) (en_world env)\<rparr>"
  have "server_frame (hs, env) (hs, ?env)" by (rule frame_local) simp_all
  then show ?thesis using frame_trans [OF _ frame_close [of hs ?env]] by (simp add: session_shutdown_def)
qed

lemma frame_disconnect: "server_frame (hs, env) (on_disconnect (hs, env))"
proof -
  let ?hs = "stop_disconnect_watch hs"
  let ?env = "env\<lparr>en_world := cancel_active (hs_active_request hs) (en_world env)\<rparr>"
  have "server_frame (hs, env) (?hs, ?env)" by (rule frame_local) (simp_all add: stop_disconnect_watch_def)
  then show ?thesis using frame_trans [OF _ frame_close [of ?hs ?env]] by (simp add: on_disconnect_def Let_def)
qed

lemma local_sels [simp]:
  "hs_this (start_op p hs) = hs_this hs" "hs_closed (start_op p hs) = hs_closed hs"
  "hs_this (emit x hs) = hs_this hs" "hs_closed (emit x hs) = hs_closed hs"
  "hs_this (stop_disconnect_watch hs) = hs_this hs" "hs_closed (stop_disconnect_watch hs) = hs_closed hs"
  "hs_this (do_write hs) = hs_this hs" "hs_closed (do_write hs) = hs_closed hs"
  "hs_this (arm_disconnect_watch hs) = hs_this hs" "hs_closed (arm_disconnect_watch hs) = hs_closed hs"
  "hs_this (send_json_response st b hs) = hs_this hs" "hs_closed (send_json_response st b hs) = hs_closed hs"
  by (auto simp: start_op_def emit_def stop_disconnect_watch_def do_write_def arm_disconnect_watch_def
      send_json_response_def Let_def split: list.splits)

lemma queue_write_sels [simp]:
  "hs_this (queue_write d t hs) = hs_this hs" "hs_closed (queue_write d t hs) = hs_closed hs"
  "hs_this (start_stream hs) = hs_this hs" "hs_closed (start_stream hs) = hs_closed hs"
  by (simp_all add: queue_write_def start_stream_def Let_def)

lemma frame_update:
  "on_state_update lib snap hs = Inr hs' \<Longrightarrow> hs_this hs' = hs_this hs \<and> hs_closed hs' = hs_closed hs"
  by (auto simp: on_state_update_def Let_def split: if_splits sum.splits)

lemma frame_peer_wait: "server_frame (hs, env) (on_peer_wait wait_ec read_ec n (hs, env))"
proof -
  let ?hs = "hs\<lparr>hs_disconnect_watch_armed := False\<rparr>"
  have 1: "server_frame (hs, env) (?hs, env)" by (rule frame_local) simp_all
  have "server_frame (hs, env) (arm_disconnect_watch ?hs, env)" by (rule frame_local) simp_all
  then show ?thesis
    using 1 frame_trans [OF 1 frame_disconnect] by (simp add: on_peer_wait_def Let_def)
qed

lemma frame_submit_active: "server_frame (hs, env) (submit_active a (hs, env))"
  by (auto simp: submit_active_def case_prod_beta Let_def intro!: frame_local)

lemma frame_start_infer: "server_frame (hs, env) (start_infer stream spec (hs, env))"
proof -
  have step: "server_frame (hs, env) (submit_active a (hs1, env1))"
    if "hs_this hs1 = hs_this hs" "hs_closed hs1 = hs_closed hs" "en_server env1 = en_server env"
      "en_live env1 = en_live env" "en_next_session env1 = en_next_session env" for a hs1 env1
    using frame_trans [OF frame_local [OF that] frame_submit_active] .
  show ?thesis
    unfolding start_infer_def Let_def case_prod_beta prod.sel
    by (rule step) (simp_all add: allocate_request_def Let_def)
qed

lemma frame_handle_request:
  assumes "handle_request lib req (hs, env) = Inr se"
  shows "server_frame (hs, env) se"
proof -
  have "server_frame (hs, env) (hs\<lparr>hs_stream_mode := stream\<rparr>, env)" for stream by (rule frame_local) simp_all
  then have "server_frame (hs, env) (start_infer stream spec (hs\<lparr>hs_stream_mode := stream\<rparr>, env))" for stream spec
    using frame_trans frame_start_infer by blast
  then show ?thesis
    using assms by (auto simp: handle_request_def Let_def intro!: frame_local split: if_splits prod.splits sum.splits)
qed

lemma frame_run_handler:
  assumes "run_handler lib p c (hs, env) = Inr se"
  shows "server_frame (hs, env) se"
proof (cases p)
  case PRead
  then show ?thesis
    using assms frame_close
    by (auto simp: on_read_def intro: frame_local frame_handle_request split: if_splits)
next
  case PWrite
  then show ?thesis using assms frame_disconnect by (auto simp: on_write_def intro!: frame_local)
next
  case PLastWrite
  then show ?thesis using assms frame_disconnect frame_close by (auto simp: on_last_write_def)
next
  case PJsonWrite
  then show ?thesis using assms frame_shutdown frame_close by (auto simp: on_json_write_def)
next
  case (PTimer a)
  then show ?thesis using assms by (auto simp: on_deadline_def case_prod_beta intro!: frame_local)
next
  case (PUpdate sn)
  then show ?thesis using assms frame_update by (auto intro!: frame_local split: sum.splits)
qed (use assms frame_peer_wait in auto)

section \<open>Runs of the server\<close>

definition is_update :: "pending_op \<Rightarrow> bool" where
  "is_update p \<longleftrightarrow> (case p of PUpdate _ \<Rightarrow> True | _ \<Rightarrow> False)"

text \<open>
  The thread of the I/O context takes one completion at a time, posted updates in the order in
  which they were posted; in between, other threads move the shared state forward. The loop ends
  when the server is stopped, or when a handler throws.
\<close>

inductive site_step :: "JsonLib \<Rightarrow> 'b Site \<Rightarrow> 'b Site \<Rightarrow> bool" for lib where
  accepts: "\<not> sv_ioc_stopped (en_server env) \<Longrightarrow> sv_accept_pending (en_server env) \<Longrightarrow>
    site_step lib (objs, env) (on_accept ec (objs, env))"
| completes: "\<not> sv_ioc_stopped (en_server env) \<Longrightarrow> k \<in> set (en_live env) \<Longrightarrow> p \<in> set (hs_pending (objs k)) \<Longrightarrow>
    (is_update p \<longrightarrow> find is_update (hs_pending (objs k)) = Some p) \<Longrightarrow>
    complete_op lib k p c (objs, env) = Inr site \<Longrightarrow> site_step lib (objs, env) site"
| others: "world_le (en_world env) w \<Longrightarrow>
    site_step lib (objs, env)
      (post_updates (length (w_calls (en_world env))) (objs, env\<lparr>en_runtime := rt, en_world := w\<rparr>))"
| stops: "\<not> sv_ioc_stopped (en_server env) \<Longrightarrow> site_step lib (objs, env) (server_stop (objs, env))"

text \<open>Every open session is registered with the server.\<close>

definition site_inv :: "'b Site \<Rightarrow> bool" where
  "site_inv site \<longleftrightarrow>
     (case site of (objs, env) \<Rightarrow>
        \<forall>k \<in> set (en_live env). hs_this (objs k) = k \<and> k < en_next_session env \<and>
          (hs_closed (objs k) \<or> k \<in> set (sv_sessions (en_server env))))"

lemma post_updates_inv: "site_inv site \<Longrightarrow> site_inv (post_updates n site)"
  by (auto simp: site_inv_def post_updates_def split: prod.splits)

lemma destroy_unused_inv: "site_inv site \<Longrightarrow> site_inv (destroy_unused site)"
  by (auto simp: site_inv_def destroy_unused_def split: prod.splits)

lemma on_accept_inv: "site_inv (objs, env) \<Longrightarrow> site_inv (on_accept ec (objs, env))"
  by (auto simp: site_inv_def on_accept_def do_accept_def session_start_def do_read_def session_make_def Let_def)

lemma handler_inv:
  assumes inv: "site_inv (objs, env)" and k: "k \<in> set (en_live env)"
    and f: "server_frame (hs, env) (hs', env')" "hs_this hs = k" "hs_closed hs = hs_closed (objs k)"
  shows "site_inv (objs(k := hs'), env')"
  using inv k f unfolding site_inv_def server_frame_def by auto

lemma complete_op_inv:
  assumes inv: "site_inv (objs, env)" and k: "k \<in> set (en_live env)" and run: "complete_op lib k p c (objs, env) = Inr site"
  shows "site_inv site"
proof -
  let ?hs = "(objs k)\<lparr>hs_pending := remove1 p (hs_pending (objs k))\<rparr>"
  obtain hs' env' where h: "run_handler lib p c (?hs, env) = Inr (hs', env')"
    "site = destroy_unused (post_updates (length (w_calls (en_world env))) (objs(k := hs'), env'))"
    using run by (auto simp: complete_op_def Let_def split: sum.splits)
  have "hs_this (objs k) = k" using inv k by (auto simp: site_inv_def)
  then have "site_inv (objs(k := hs'), env')"
    using handler_inv [OF inv k frame_run_handler [OF h(1)]] by simp
  then show ?thesis unfolding h(2) by (intro destroy_unused_inv post_updates_inv)
qed

lemma shutdown_sessions_spec:
  assumes "shutdown_sessions ks (objs, env) = (objs', env')"
  shows "world_le (en_world env) (en_world env') \<and> en_live env' = en_live env \<and>
    en_next_session env' = en_next_session env \<and> (sv_sessions (en_server env) = [] \<longrightarrow> sv_sessions (en_server env') = []) \<and>
    sv_stopping (en_server env') = sv_stopping (en_server env) \<and>
    sv_acceptor_open (en_server env') = sv_acceptor_open (en_server env) \<and>
    (\<forall>k. hs_this (objs' k) = hs_this (objs k) \<and> hs_active_request (objs' k) = hs_active_request (objs k) \<and>
       (hs_closed (objs k) \<longrightarrow> hs_closed (objs' k))) \<and>
    (\<forall>k \<in> set ks. hs_closed (objs' k) \<and>
       (\<forall>a. hs_active_request (objs k) = Some a \<longrightarrow> is_terminal (w_reqs (en_world env') a)))"
  using assms
proof (induction ks arbitrary: objs env)
  case Nil
  then show ?case by simp
next
  case (Cons k ks)
  obtain hs env1 where 1: "session_shutdown (objs k, env) = (hs, env1)" by fastforce
  then have h: "hs = fst (close_session (objs k, env))" using fst_session_shutdown [of "objs k" env] by simp
  have e: "en_world env1 = cancel_active (hs_active_request (objs k)) (en_world env)" "en_live env1 = en_live env"
    "en_next_session env1 = en_next_session env" "sv_stopping (en_server env1) = sv_stopping (en_server env)"
    "sv_acceptor_open (en_server env1) = sv_acceptor_open (en_server env)"
    "sv_sessions (en_server env) = [] \<longrightarrow> sv_sessions (en_server env1) = []"
    using 1 by (auto simp: session_shutdown_def close_session_def unregister_session_def split: if_splits)
  let ?objs = "objs(k := hs)"
  have run: "shutdown_sessions ks (?objs, env1) = (objs', env')" using Cons.prems 1 by simp
  note IH = Cons.IH [OF run]
  have le: "world_le (en_world env) (en_world env1)" using e(1) by (simp add: cancel_active_le)
  have "is_terminal (w_reqs (en_world env') a)" if "hs_active_request (objs k) = Some a" for a
    using world_le_terminal [of "en_world env1" "en_world env'" a] cancel_active_terminal [OF that, of "en_world env"] IH e(1) by simp
  then have settled: "\<forall>a. hs_active_request (objs k) = Some a \<longrightarrow> is_terminal (w_reqs (en_world env') a)" by blast
  have same: "hs_this (?objs j) = hs_this (objs j) \<and> hs_active_request (?objs j) = hs_active_request (objs j) \<and>
      (hs_closed (objs j) \<longrightarrow> hs_closed (?objs j))" for j using h by simp
  have closed: "hs_closed (objs' k)" using IH h by simp
  show ?case
  proof (intro conjI ballI)
    show "world_le (en_world env) (en_world env')" using IH le world_le_trans by blast
    show "\<forall>j. hs_this (objs' j) = hs_this (objs j) \<and> hs_active_request (objs' j) = hs_active_request (objs j) \<and>
        (hs_closed (objs j) \<longrightarrow> hs_closed (objs' j))" using IH same by metis
    fix j assume "j \<in> set (k # ks)"
    then show "hs_closed (objs' j)" "\<forall>a. hs_active_request (objs j) = Some a \<longrightarrow> is_terminal (w_reqs (en_world env') a)"
      using IH settled closed same by (metis set_ConsD)+
  qed (use IH e in simp_all)
qed

lemma server_stop_spec:
  assumes inv: "site_inv (objs, env)" and run: "server_stop (objs, env) = (objs', env')"
  shows "site_inv (objs', env') \<and> sv_ioc_stopped (en_server env') \<and> sv_stopping (en_server env') \<and>
    \<not> sv_acceptor_open (en_server env') \<and> sv_sessions (en_server env') = [] \<and> en_live env' = en_live env \<and>
    (\<forall>k \<in> set (en_live env). hs_closed (objs' k) \<and>
       (\<forall>a. \<not> hs_closed (objs k) \<longrightarrow> hs_active_request (objs k) = Some a \<longrightarrow> is_terminal (w_reqs (en_world env') a)))"
proof -
  let ?active = "filter (\<lambda>k. k \<in> set (en_live env)) (sv_sessions (en_server env))"
  let ?env = "env\<lparr>en_server := (en_server env)\<lparr>sv_stopping := True, sv_acceptor_open := False, sv_sessions := []\<rparr>\<rparr>"
  obtain env1 where 1: "shutdown_sessions ?active (objs, ?env) = (objs', env1)"
    "env' = env1\<lparr>en_server := (en_server env1)\<lparr>sv_work_guard := False, sv_ioc_stopped := True\<rparr>\<rparr>"
    using run by (auto simp: server_stop_def Let_def split: prod.splits)
  note spec = shutdown_sessions_spec [OF 1(1)]
  have open_active: "hs_closed (objs k) \<or> k \<in> set ?active" if "k \<in> set (en_live env)" for k
    using inv that by (auto simp: site_inv_def)
  have closed: "hs_closed (objs' k)" if "k \<in> set (en_live env)" for k
    using open_active [OF that] spec by auto
  moreover have "is_terminal (w_reqs (en_world env1) a)"
    if "k \<in> set (en_live env)" "\<not> hs_closed (objs k)" "hs_active_request (objs k) = Some a" for k a
    using open_active [OF that(1)] that spec by blast
  moreover have "site_inv (objs', env')" using inv spec closed 1(2) by (simp add: site_inv_def)
  ultimately show ?thesis using spec 1(2) by simp
qed

lemma site_step_inv: "site_step lib site site' \<Longrightarrow> site_inv site \<Longrightarrow> site_inv site'"
proof (induction rule: site_step.induct)
  case (accepts env objs ec)
  then show ?case by (simp add: on_accept_inv)
next
  case (completes env k p objs c site)
  then show ?case using complete_op_inv by blast
next
  case (others env w objs rt)
  then show ?case by (intro post_updates_inv) (simp add: site_inv_def)
next
  case (stops env objs)
  then show ?case using server_stop_spec [of objs env] by (metis prod.collapse)
qed

text \<open>
  Stopping the server ends all sessions. In every state the server can get into, stopping it
  leaves the acceptor closed, no session registered, every session object closed, and the request
  of every session that was open settled, whatever the other threads do.
\<close>

lemma server_stop_closes:
  assumes init: "en_live env0 = []" and reach: "(site_step lib)\<^sup>*\<^sup>* (objs0, env0) (objs, env)"
    and run: "server_stop (objs, env) = (objs', env')"
  shows "sv_stopping (en_server env') \<and> \<not> sv_acceptor_open (en_server env') \<and>
    sv_sessions (en_server env') = [] \<and> sv_ioc_stopped (en_server env') \<and>
    (\<forall>k \<in> set (en_live env). hs_closed (objs' k) \<and>
       (\<forall>a. \<not> hs_closed (objs k) \<longrightarrow> hs_active_request (objs k) = Some a \<longrightarrow> is_terminal (w_reqs (en_world env') a)))"
proof -
  have "site_inv (objs0, env0)" using init by (simp add: site_inv_def)
  with reach have "site_inv (objs, env)" by induction (auto intro: site_step_inv)
  then show ?thesis using server_stop_spec [OF _ run] by blast
qed

end
