(* ===== verification/AR_Llama.thy ===== *)
theory AR_Llama
  imports AR_Backend
begin

text \<open>
  The llama.cpp backend (\<^verbatim>\<open>llama_cpp_backend_config.cpp\<close>, \<^verbatim>\<open>llama_cpp_backend.cpp\<close>): the
  validation of its configuration, loading and unloading of models, and the inference of a
  batch, which tokenizes the prompts, decodes them in batches of bounded size and samples one
  token per sequence and round.

  The functions of the llama.cpp library and of the file system are the record \<open>LlamaLib\<close>, an
  argument of every operation that calls them; nothing is assumed about them. Models,
  vocabularies, contexts and samplers are values of types the library chooses. The arrays of
  a \<^verbatim>\<open>llama_batch\<close> have a fixed capacity and writing beyond it is undefined behaviour, which is
  the answer \<open>None\<close> of the model. The calls of \<^verbatim>\<open>llama_decode\<close> are recorded in order.

  The library counts tokens in 32 bit signed integers, which are 32 bit words read with
  \<open>sint\<close>; so the number of tokens of a prompt is below $2^{31}$. A position is a \<^verbatim>\<open>llama_pos\<close>,
  a 32 bit signed integer too, which starts at 0 and is only ever incremented: it is kept as a
  natural number below $2^{31}$, and an increment that would leave this range, a signed overflow,
  is undefined behaviour and the answer \<open>None\<close> as well.
\<close>

section \<open>Configuration\<close>

record LlamaModelConfig =
  lm_gguf_path :: string
  lm_context_tokens_per_sequence :: u32
  lm_n_batch :: u32
  lm_n_ubatch :: u32
  lm_n_gpu_layers :: "int option"
  lm_n_threads :: "int option"
  lm_n_threads_batch :: "int option"

record LlamaCppBackendConfig =
  lc_models :: "(string \<times> LlamaModelConfig) list"
  lc_max_sequences :: nat

fun validate_models :: "nat \<Rightarrow> (string \<times> LlamaModelConfig) list \<Rightarrow> Status" where
  "validate_models max_sequences [] = status_success"
| "validate_models max_sequences ((model_id, model) # models) =
     (if model_id = [] then status_error EC_InternalError ''empty model_id in llama config''
      else if lm_gguf_path model = [] then status_error EC_InternalError ''empty gguf_path in llama config''
      else if lm_context_tokens_per_sequence model = 0
      then status_error EC_InternalError ''context_tokens_per_sequence must be > 0''
      else if lm_n_batch model = 0 then status_error EC_InternalError ''n_batch must be > 0''
      else if lm_n_ubatch model = 0 then status_error EC_InternalError ''n_ubatch must be > 0''
      else if lm_n_ubatch model > lm_n_batch model
      then status_error EC_InternalError ''n_ubatch must be <= n_batch''
      else if unat (lm_n_batch model) < max_sequences
      then status_error EC_InternalError ''n_batch must be >= max_sequences''
      else if (case lm_n_threads model of None \<Rightarrow> False | Some n \<Rightarrow> n \<le> 0)
      then status_error EC_InternalError ''n_threads must be > 0''
      else if (case lm_n_threads_batch model of None \<Rightarrow> False | Some n \<Rightarrow> n \<le> 0)
      then status_error EC_InternalError ''n_threads_batch must be > 0''
      else validate_models max_sequences models)"

definition validate :: "LlamaCppBackendConfig \<Rightarrow> Status" where
  "validate config =
     (if lc_max_sequences config < 1 then status_error EC_InternalError ''max_sequences must be >= 1''
      else if lc_models config = [] then status_error EC_InternalError ''llama backend config has no models''
      else validate_models (lc_max_sequences config) (lc_models config))"

section \<open>The library\<close>

type_synonym i32 = "32 word"

record LlamaContextParams =
  cp_n_ctx :: u32
  cp_n_batch :: u32
  cp_n_ubatch :: u32
  cp_n_seq_max :: u32
  cp_kv_unified :: bool
  cp_n_threads :: "int option"
  cp_n_threads_batch :: "int option"

record BatchToken =
  bt_token :: int
  bt_pos :: nat
  bt_seq_id :: nat
  bt_logits :: bool

record ('m, 'v, 'c, 's) LlamaLib =
  ll_model_load_from_file :: "string \<Rightarrow> int \<Rightarrow> 'm option"
  ll_model_has_decoder :: "'m \<Rightarrow> bool"
  ll_model_is_diffusion :: "'m \<Rightarrow> bool"
  ll_init_from_model :: "'m \<Rightarrow> LlamaContextParams \<Rightarrow> 'c option"
  ll_model_get_vocab :: "'m \<Rightarrow> 'v option"
  ll_tokenize :: "'v \<Rightarrow> string \<Rightarrow> nat \<Rightarrow> i32 \<times> int list"
  ll_token_to_piece :: "'v \<Rightarrow> int \<Rightarrow> nat \<Rightarrow> i32 \<times> string"
  ll_vocab_is_eog :: "'v \<Rightarrow> int \<Rightarrow> bool"
  ll_decode :: "BatchToken list \<Rightarrow> 'c \<Rightarrow> int \<times> 'c"
  ll_has_memory :: "'c \<Rightarrow> bool"
  ll_memory_clear :: "'c \<Rightarrow> 'c"
  ll_sampler_chain_init :: "'s option"
  ll_sampler_chain_add_greedy :: "'s \<Rightarrow> 's"
  ll_sampler_sample :: "'s \<Rightarrow> 'c \<Rightarrow> int \<Rightarrow> int \<times> 's"
  ll_sampler_accept :: "int \<Rightarrow> 's \<Rightarrow> 's"
  ll_supports_gpu_offload :: bool
  fs_exists :: "string \<Rightarrow> bool"
  fs_is_regular_file :: "string \<Rightarrow> bool"

section \<open>Helpers\<close>

record LlamaBatch =
  lb_capacity :: int
  lb_tokens :: "BatchToken list"

definition batch_clear :: "LlamaBatch \<Rightarrow> LlamaBatch" where
  "batch_clear batch = batch\<lparr>lb_tokens := []\<rparr>"

definition batch_add :: "int \<Rightarrow> nat \<Rightarrow> nat \<Rightarrow> bool \<Rightarrow> LlamaBatch \<Rightarrow> LlamaBatch option" where
  "batch_add token pos seq_id logits batch =
     (if int (length (lb_tokens batch)) < lb_capacity batch
      then Some (batch\<lparr>lb_tokens := lb_tokens batch @
             [\<lparr>bt_token = token, bt_pos = pos, bt_seq_id = seq_id, bt_logits = logits\<rparr>]\<rparr>)
      else None)"

text \<open>\<^verbatim>\<open>n_past + 1\<close> and \<^verbatim>\<open>++n_past\<close> on a \<^verbatim>\<open>llama_pos\<close> that is not negative.\<close>

definition next_pos :: "nat \<Rightarrow> nat option" where
  "next_pos pos = (if int pos + 1 < 2 ^ 31 then Some (pos + 1) else None)"

lemma next_pos_Some [simp]: "next_pos pos = Some pos1 \<longleftrightarrow> pos1 = pos + 1 \<and> pos + 1 < 2 ^ 31"
  by (auto simp: next_pos_def)

text \<open>\<^verbatim>\<open>std::vector::resize\<close>, which fills with zeros.\<close>

definition resize :: "'a \<Rightarrow> nat \<Rightarrow> 'a list \<Rightarrow> 'a list" where
  "resize zero n xs = take n xs @ replicate (n - length xs) zero"

definition tokenize_prompt :: "('m, 'v, 'c, 's) LlamaLib \<Rightarrow> 'v \<Rightarrow> string \<Rightarrow> int list or_throw" where
  "tokenize_prompt lib vocab prompt =
     (let n_prompt = sint (- fst (ll_tokenize lib vocab prompt 0)) in
      if n_prompt < 0 then Inl ''llama_tokenize size probe failed''
      else if n_prompt = 0 then Inr []
      else
        (case ll_tokenize lib vocab prompt (nat n_prompt) of (written, buf) \<Rightarrow>
           if sint written < 0 then Inl ''llama_tokenize failed''
           else Inr (resize 0 (nat (sint written)) (resize 0 (nat n_prompt) buf))))"

definition token_to_piece :: "('m, 'v, 'c, 's) LlamaLib \<Rightarrow> 'v \<Rightarrow> int \<Rightarrow> string or_throw" where
  "token_to_piece lib vocab token =
     (case ll_token_to_piece lib vocab token 256 of (n, buf) \<Rightarrow>
      case (if sint n < 0 then ll_token_to_piece lib vocab token (nat (sint (- n))) else (n, buf)) of (n, buf) \<Rightarrow>
        if sint n < 0 then Inl ''llama_token_to_piece failed'' else Inr (take (nat (sint n)) buf))"

definition checked_mul_u32 :: "u32 \<Rightarrow> u32 \<Rightarrow> u32 option" where
  "checked_mul_u32 a b =
     (if a = 0 \<or> b = 0 then Some 0
      else if a > (- 1) div b then None
      else Some (a * b))"

section \<open>Loading\<close>

record ('m, 'v, 'c) LoadedModel =
  ld_model_config :: LlamaModelConfig
  ld_model :: 'm
  ld_context :: 'c
  ld_vocab :: 'v

record ('m, 'v, 'c) LlamaCppBackend =
  lk_config :: LlamaCppBackendConfig
  lk_loaded :: "(string \<times> ('m, 'v, 'c) LoadedModel) list"

text \<open>The runtime object and the configuration; the first may be a null pointer.\<close>

definition llama_make :: "bool \<Rightarrow> LlamaCppBackendConfig \<Rightarrow> ('m, 'v, 'c) LlamaCppBackend or_throw" where
  "llama_make runtime config =
     (if \<not> runtime then Inl ''LlamaCppBackend requires LlamaBackendRuntime''
      else
        (let status = validate config in
         if \<not> status_ok status
         then Inl (if st_message status = [] then ''invalid LlamaCppBackendConfig'' else st_message status)
         else Inr \<lparr>lk_config = config, lk_loaded = []\<rparr>))"

definition clear_memory :: "('m, 'v, 'c, 's) LlamaLib \<Rightarrow> 'c \<Rightarrow> 'c" where
  "clear_memory lib ctx = (if ll_has_memory lib ctx then ll_memory_clear lib ctx else ctx)"

definition gpu_layers :: "('m, 'v, 'c, 's) LlamaLib \<Rightarrow> LlamaModelConfig \<Rightarrow> int" where
  "gpu_layers lib mcfg =
     (case lm_n_gpu_layers mcfg of
        Some n \<Rightarrow> n
      | None \<Rightarrow> if ll_supports_gpu_offload lib then - 1 else 0)"

definition context_params :: "LlamaCppBackendConfig \<Rightarrow> LlamaModelConfig \<Rightarrow> u32 \<Rightarrow> LlamaContextParams" where
  "context_params config mcfg n_ctx =
     \<lparr>cp_n_ctx = n_ctx, cp_n_batch = lm_n_batch mcfg, cp_n_ubatch = lm_n_ubatch mcfg,
      cp_n_seq_max = of_nat (lc_max_sequences config), cp_kv_unified = False,
      cp_n_threads = lm_n_threads mcfg, cp_n_threads_batch = lm_n_threads_batch mcfg\<rparr>"

text \<open>From the opening of the file on (lines 143 to 192).\<close>

definition open_model ::
  "('m, 'v, 'c, 's) LlamaLib \<Rightarrow> LlamaCppBackendConfig \<Rightarrow> LlamaModelConfig \<Rightarrow> u32 \<Rightarrow>
   Status + ('m, 'v, 'c) LoadedModel" where
  "open_model lib config mcfg n_ctx =
     (let load_failed = (\<lambda>msg. Inl (status_error EC_ModelLoadFailed msg)) in
      case ll_model_load_from_file lib (lm_gguf_path mcfg) (gpu_layers lib mcfg) of
        None \<Rightarrow> load_failed ''llama_model_load_from_file failed''
      | Some model \<Rightarrow>
          if \<not> ll_model_has_decoder lib model \<or> ll_model_is_diffusion lib model
          then load_failed ''unsupported model architecture for M5 text generation''
          else
            (case ll_init_from_model lib model (context_params config mcfg n_ctx) of
               None \<Rightarrow> load_failed ''llama_init_from_model failed''
             | Some ctx \<Rightarrow>
                 (case ll_model_get_vocab lib model of
                    None \<Rightarrow> load_failed ''llama_model_get_vocab failed''
                  | Some vocab \<Rightarrow>
                      Inr \<lparr>ld_model_config = mcfg, ld_model = model,
                           ld_context = clear_memory lib ctx, ld_vocab = vocab\<rparr>)))"

definition load_locked ::
  "('m, 'v, 'c, 's) LlamaLib \<Rightarrow> ModelSpec \<Rightarrow> ('m, 'v, 'c) LlamaCppBackend \<Rightarrow>
   Status \<times> ('m, 'v, 'c) LlamaCppBackend" where
  "load_locked lib spec b =
     (case map_of (lc_models (lk_config b)) (ms_model_id spec) of
        None \<Rightarrow> (status_error EC_ModelNotFound ''model not configured for llama backend'', b)
      | Some mcfg \<Rightarrow>
          if map_of (lk_loaded b) (ms_model_id spec) \<noteq> None then (status_success, b)
          else if \<not> fs_exists lib (lm_gguf_path mcfg) \<or> \<not> fs_is_regular_file lib (lm_gguf_path mcfg)
          then (status_error EC_ModelLoadFailed ''gguf path missing or not a regular file'', b)
          else
            (case checked_mul_u32 (lm_context_tokens_per_sequence mcfg) (of_nat (lc_max_sequences (lk_config b))) of
               None \<Rightarrow> (status_error EC_ModelLoadFailed ''n_ctx overflow'', b)
             | Some n_ctx \<Rightarrow>
                 (case open_model lib (lk_config b) mcfg n_ctx of
                    Inl st \<Rightarrow> (st, b)
                  | Inr entry \<Rightarrow>
                      (status_success,
                       b\<lparr>lk_loaded := AList.update (ms_model_id spec) entry (lk_loaded b)\<rparr>))))"

definition llama_unload ::
  "string \<Rightarrow> ('m, 'v, 'c) LlamaCppBackend \<Rightarrow> Status \<times> ('m, 'v, 'c) LlamaCppBackend" where
  "llama_unload model_id b =
     (if map_of (lk_loaded b) model_id = None
      then (status_error EC_ModelNotFound ''model not loaded'', b)
      else (status_success, b\<lparr>lk_loaded := AList.delete model_id (lk_loaded b)\<rparr>))"

definition llama_is_loaded :: "string \<Rightarrow> ('m, 'v, 'c) LlamaCppBackend \<Rightarrow> bool" where
  "llama_is_loaded model_id b \<longleftrightarrow> map_of (lk_loaded b) model_id \<noteq> None"

section \<open>Inference of a batch\<close>

record 's LiveSeq =
  ls_result_index :: nat
  ls_seq_id :: nat
  ls_prompt_tokens :: "int list"
  ls_n_past :: nat
  ls_generated :: nat
  ls_max_output :: u64
  ls_text :: string
  ls_sampler :: 's
  ls_active :: bool
  ls_logits_batch_index :: int

text \<open>A value-initialised \<^verbatim>\<open>InferenceResult\<close>, and the results before anything is computed.\<close>

definition default_result :: InferenceResult where
  "default_result = \<lparr>res_status = status_success, res_output = None\<rparr>"

definition initial_results :: "InferenceRequest option list \<Rightarrow> InferenceResult list" where
  "initial_results requests =
     map (\<lambda>v. case v of
            None \<Rightarrow> result_failure (status_error EC_InternalError ''null request in batch'')
          | Some _ \<Rightarrow> default_result) requests"

definition all_failed :: "Status \<Rightarrow> InferenceResult list \<Rightarrow> InferenceResult list" where
  "all_failed st results = map (\<lambda>_. result_failure st) results"

text \<open>One turn of the loop that prepares the sequences: the result of a refused request, or the sequence.\<close>

definition setup_seq ::
  "('m, 'v, 'c, 's) LlamaLib \<Rightarrow> ('m, 'v, 'c) LoadedModel \<Rightarrow> nat \<Rightarrow> nat \<Rightarrow> InferenceRequest \<Rightarrow>
   InferenceResult + 's LiveSeq" where
  "setup_seq lib entry i n_live req =
     (let failed = (\<lambda>code msg. Inl (result_failure (status_error code msg))) in
      case tokenize_prompt lib (ld_vocab entry) (rq_prompt req) of
        Inl msg \<Rightarrow> failed EC_InferenceFailed msg
      | Inr tokens \<Rightarrow>
          let needed = of_nat (length tokens) + rq_max_output_tokens req in
          if needed > ucast (lm_context_tokens_per_sequence (ld_model_config entry))
          then failed EC_ContextLengthExceeded
                 ''prompt + max_output_tokens exceeds context_tokens_per_sequence''
          else if tokens = [] then failed EC_InferenceFailed ''empty tokenization result''
          else
            (case ll_sampler_chain_init lib of
               None \<Rightarrow> failed EC_InferenceFailed ''sampler init failed''
             | Some sampler \<Rightarrow>
                 Inr \<lparr>ls_result_index = i, ls_seq_id = n_live, ls_prompt_tokens = tokens, ls_n_past = 0,
                      ls_generated = 0, ls_max_output = rq_max_output_tokens req, ls_text = [],
                      ls_sampler = ll_sampler_chain_add_greedy lib sampler, ls_active = True,
                      ls_logits_batch_index = - 1\<rparr>))"

fun setup_live ::
  "('m, 'v, 'c, 's) LlamaLib \<Rightarrow> ('m, 'v, 'c) LoadedModel \<Rightarrow> nat \<Rightarrow> InferenceRequest list \<Rightarrow>
   's LiveSeq list \<Rightarrow> InferenceResult list \<Rightarrow> 's LiveSeq list \<times> InferenceResult list" where
  "setup_live lib entry i [] live results = (live, results)"
| "setup_live lib entry i (req # reqs) live results =
     (case setup_seq lib entry i (length live) req of
        Inl r \<Rightarrow> setup_live lib entry (i + 1) reqs live (results[i := r])
      | Inr seq \<Rightarrow> setup_live lib entry (i + 1) reqs (live @ [seq]) results)"

fun fail_live_seqs :: "Status \<Rightarrow> 's LiveSeq list \<Rightarrow> InferenceResult list \<Rightarrow> InferenceResult list" where
  "fail_live_seqs st [] results = results"
| "fail_live_seqs st (seq # live) results =
     fail_live_seqs st live
       (if ls_active seq then results[ls_result_index seq := result_failure st] else results)"

text \<open>The calls of \<^verbatim>\<open>llama_decode\<close> change the context; the second component records them.\<close>

type_synonym 'c decoding = "'c \<times> BatchToken list list"

definition decode :: "('m, 'v, 'c, 's) LlamaLib \<Rightarrow> LlamaBatch \<Rightarrow> 'c decoding \<Rightarrow> int \<times> 'c decoding" where
  "decode lib batch d =
     (case d of (ctx, calls) \<Rightarrow>
      case ll_decode lib (lb_tokens batch) ctx of (ret, ctx') \<Rightarrow> (ret, ctx', calls @ [lb_tokens batch]))"

subsection \<open>The prompts except their last tokens\<close>

function prefix_seq :: "'s LiveSeq \<Rightarrow> LlamaBatch \<Rightarrow> (bool \<times> 's LiveSeq \<times> LlamaBatch) option" where
  "prefix_seq seq batch =
     (case next_pos (ls_n_past seq) of
        None \<Rightarrow> None
      | Some pos1 \<Rightarrow>
          if pos1 < length (ls_prompt_tokens seq) then
            if int (length (lb_tokens batch)) \<ge> lb_capacity batch then Some (True, seq, batch)
            else
              (case batch_add (ls_prompt_tokens seq ! ls_n_past seq) (ls_n_past seq) (ls_seq_id seq) False batch of
                 None \<Rightarrow> None
               | Some batch1 \<Rightarrow> prefix_seq (seq\<lparr>ls_n_past := pos1\<rparr>) batch1)
          else Some (False, seq, batch))"
  by pat_completeness auto
termination
  by (relation "measure (\<lambda>(seq, _). length (ls_prompt_tokens seq) - ls_n_past seq)") auto

declare prefix_seq.simps [simp del]

fun prefix_pass :: "'s LiveSeq list \<Rightarrow> LlamaBatch \<Rightarrow> (bool \<times> 's LiveSeq list \<times> LlamaBatch) option" where
  "prefix_pass [] batch = Some (False, [], batch)"
| "prefix_pass (seq # live) batch =
     (case (if ls_active seq then prefix_seq seq batch else Some (False, seq, batch)) of
        None \<Rightarrow> None
      | Some (mr1, seq1, batch1) \<Rightarrow>
          (case prefix_pass live batch1 of
             None \<Rightarrow> None
           | Some (mr2, live2, batch2) \<Rightarrow> Some (mr1 \<or> mr2, seq1 # live2, batch2)))"

definition prefix_left :: "'s LiveSeq list \<Rightarrow> nat" where
  "prefix_left live = sum_list (map (\<lambda>seq. length (ls_prompt_tokens seq) - ls_n_past seq) live)"

lemma batch_add_Some:
  "batch_add tok pos sid lg batch = Some batch' \<Longrightarrow>
   int (length (lb_tokens batch)) < lb_capacity batch \<and> lb_capacity batch' = lb_capacity batch \<and>
   lb_tokens batch' = lb_tokens batch @ [\<lparr>bt_token = tok, bt_pos = pos, bt_seq_id = sid, bt_logits = lg\<rparr>]"
  by (auto simp: batch_add_def split: if_splits)

lemma prefix_seq_left:
  "prefix_seq seq batch = Some (mr, seq', batch') \<Longrightarrow>
   ls_prompt_tokens seq' = ls_prompt_tokens seq \<and>
   (length (ls_prompt_tokens seq) - ls_n_past seq') + length (lb_tokens batch') =
   (length (ls_prompt_tokens seq) - ls_n_past seq) + length (lb_tokens batch)"
proof (induction seq batch rule: prefix_seq.induct)
  case (1 seq batch)
  have pos: "next_pos (ls_n_past seq) = Some (ls_n_past seq + 1)"
    using 1(2) by (subst (asm) prefix_seq.simps) (auto split: option.splits)
  show ?case
  proof (cases "ls_n_past seq + 1 < length (ls_prompt_tokens seq) \<and> int (length (lb_tokens batch)) < lb_capacity batch")
    case True
    then obtain b1 where b1: "batch_add (ls_prompt_tokens seq ! ls_n_past seq) (ls_n_past seq) (ls_seq_id seq) False batch = Some b1"
      by (simp add: batch_add_def)
    have "prefix_seq (seq\<lparr>ls_n_past := ls_n_past seq + 1\<rparr>) b1 = Some (mr, seq', batch')"
      using 1(2) True b1 pos by (subst (asm) prefix_seq.simps) (simp del: next_pos_Some)
    from 1(1) [OF pos _ _ b1 this] True show ?thesis using batch_add_Some [OF b1] by auto
  next
    case False
    then show ?thesis using 1(2) pos by (subst (asm) prefix_seq.simps) (auto split: if_splits)
  qed
qed

lemma prefix_pass_left:
  "prefix_pass live batch = Some (mr, live', batch') \<Longrightarrow>
   prefix_left live' + length (lb_tokens batch') = prefix_left live + length (lb_tokens batch)"
proof (induction live arbitrary: batch mr live' batch')
  case (Cons seq live)
  obtain mr1 seq1 batch1 where 1:
    "(if ls_active seq then prefix_seq seq batch else Some (False, seq, batch)) = Some (mr1, seq1, batch1)"
    using Cons.prems by (auto split: option.splits)
  obtain mr2 live2 where 2: "prefix_pass live batch1 = Some (mr2, live2, batch')" "live' = seq1 # live2"
    using Cons.prems 1 by (auto split: option.splits)
  have "(length (ls_prompt_tokens seq1) - ls_n_past seq1) + length (lb_tokens batch1) =
      (length (ls_prompt_tokens seq) - ls_n_past seq) + length (lb_tokens batch)"
    using 1 prefix_seq_left [of seq batch mr1 seq1 batch1] by (auto split: if_splits)
  then show ?case using Cons.IH [OF 2(1)] 2(2) by (simp add: prefix_left_def)
qed (simp add: prefix_left_def)

text \<open>The answer tells whether the decoding succeeded.\<close>

function prefix_stage ::
  "('m, 'v, 'c, 's) LlamaLib \<Rightarrow> 's LiveSeq list \<Rightarrow> LlamaBatch \<Rightarrow> 'c decoding \<Rightarrow>
   (bool \<times> 's LiveSeq list \<times> LlamaBatch \<times> 'c decoding) option" where
  "prefix_stage lib live batch d =
     (case prefix_pass live (batch_clear batch) of
        None \<Rightarrow> None
      | Some (more_prefix, live1, batch1) \<Rightarrow>
          if lb_tokens batch1 = [] then Some (True, live1, batch1, d)
          else
            (case decode lib batch1 d of (ret, d1) \<Rightarrow>
               if ret \<noteq> 0 then Some (False, live1, batch1, d1)
               else if more_prefix then prefix_stage lib live1 batch1 d1
               else Some (True, live1, batch1, d1)))"
  by pat_completeness auto
termination
  by (relation "measure (\<lambda>(_, live, _, _). prefix_left live)")
    (auto dest!: prefix_pass_left simp: batch_clear_def neq_Nil_conv)

declare prefix_stage.simps [simp del]

subsection \<open>The last tokens of the prompts\<close>

fun bootstrap_pass :: "'s LiveSeq list \<Rightarrow> LlamaBatch \<Rightarrow> ('s LiveSeq list \<times> LlamaBatch) option" where
  "bootstrap_pass [] batch = Some ([], batch)"
| "bootstrap_pass (seq # live) batch =
     (case (if ls_active seq
            then
              (case batch_add (last (ls_prompt_tokens seq)) (ls_n_past seq) (ls_seq_id seq) True batch of
                 None \<Rightarrow> None
               | Some batch1 \<Rightarrow>
                   map_option (\<lambda>pos1. (seq\<lparr>ls_logits_batch_index := int (length (lb_tokens batch)),
                                         ls_n_past := pos1\<rparr>, batch1)) (next_pos (ls_n_past seq)))
            else Some (seq, batch)) of
        None \<Rightarrow> None
      | Some (seq1, batch1) \<Rightarrow>
          (case bootstrap_pass live batch1 of
             None \<Rightarrow> None
           | Some (live2, batch2) \<Rightarrow> Some (seq1 # live2, batch2)))"

subsection \<open>Sampling\<close>

definition finished_output :: "'s LiveSeq \<Rightarrow> InferenceResult" where
  "finished_output seq =
     result_success \<lparr>out_text = ls_text seq, out_output_tokens = of_nat (ls_generated seq)\<rparr>"

text \<open>
  One turn of the loop over the live sequences (lines 392 to 427): the sequence afterwards, with
  its result if it is finished, and the batch.
\<close>

definition sample_seq ::
  "('m, 'v, 'c, 's) LlamaLib \<Rightarrow> 'v \<Rightarrow> 'c \<Rightarrow> 's LiveSeq \<Rightarrow> LlamaBatch \<Rightarrow>
   ('s LiveSeq \<times> InferenceResult option \<times> LlamaBatch) option" where
  "sample_seq lib vocab ctx seq batch =
     (case ll_sampler_sample lib (ls_sampler seq) ctx (ls_logits_batch_index seq) of (tok, sampler) \<Rightarrow>
      let seq1 = seq\<lparr>ls_sampler := ll_sampler_accept lib tok sampler\<rparr> in
      if ll_vocab_is_eog lib vocab tok
      then Some (seq1\<lparr>ls_active := False\<rparr>, Some (finished_output seq1), batch)
      else
        (case token_to_piece lib vocab tok of
           Inl msg \<Rightarrow>
             Some (seq1\<lparr>ls_active := False\<rparr>,
                   Some (result_failure (status_error EC_InferenceFailed msg)), batch)
         | Inr piece \<Rightarrow>
             let seq2 = seq1\<lparr>ls_text := ls_text seq @ piece, ls_generated := ls_generated seq + 1\<rparr> in
             if ls_generated seq2 \<ge> unat (ls_max_output seq2)
             then Some (seq2\<lparr>ls_active := False\<rparr>, Some (finished_output seq2), batch)
             else
               (case batch_add tok (ls_n_past seq) (ls_seq_id seq) True batch of
                  None \<Rightarrow> None
                | Some batch1 \<Rightarrow>
                    map_option (\<lambda>pos1. (seq2\<lparr>ls_logits_batch_index := int (length (lb_tokens batch)),
                                          ls_n_past := pos1\<rparr>, None, batch1)) (next_pos (ls_n_past seq)))))"

fun sample_pass ::
  "('m, 'v, 'c, 's) LlamaLib \<Rightarrow> 'v \<Rightarrow> 'c \<Rightarrow> 's LiveSeq list \<Rightarrow> LlamaBatch \<Rightarrow> InferenceResult list \<Rightarrow>
   (bool \<times> 's LiveSeq list \<times> LlamaBatch \<times> InferenceResult list) option" where
  "sample_pass lib vocab ctx [] batch results = Some (False, [], batch, results)"
| "sample_pass lib vocab ctx (seq # live) batch results =
     (if \<not> ls_active seq then
        (case sample_pass lib vocab ctx live batch results of
           None \<Rightarrow> None
         | Some (any_active, live2, batch2, results2) \<Rightarrow> Some (any_active, seq # live2, batch2, results2))
      else
        (case sample_seq lib vocab ctx seq batch of
           None \<Rightarrow> None
         | Some (seq1, r, batch1) \<Rightarrow>
             (case sample_pass lib vocab ctx live batch1
                     (case r of None \<Rightarrow> results | Some x \<Rightarrow> results[ls_result_index seq := x]) of
                None \<Rightarrow> None
              | Some (any_active, live2, batch2, results2) \<Rightarrow>
                  Some (r = None \<or> any_active, seq1 # live2, batch2, results2))))"

definition tokens_left :: "'s LiveSeq list \<Rightarrow> nat" where
  "tokens_left live =
     sum_list (map (\<lambda>seq. if ls_active seq then unat (ls_max_output seq) - ls_generated seq else 0) live)"

definition same_seq :: "'s LiveSeq \<Rightarrow> 's LiveSeq \<Rightarrow> bool" where
  "same_seq seq seq' \<longleftrightarrow>
     ls_result_index seq' = ls_result_index seq \<and> ls_seq_id seq' = ls_seq_id seq \<and>
     ls_prompt_tokens seq' = ls_prompt_tokens seq \<and> ls_max_output seq' = ls_max_output seq"

lemma sample_seq_cases:
  assumes "sample_seq lib vocab ctx seq batch = Some (seq', r, batch')"
  obtains (ended) x where "r = Some x" "batch' = batch" "same_seq seq seq'" "\<not> ls_active seq'"
      "ls_n_past seq' = ls_n_past seq"
      "(\<not> result_ok x \<and> res_output x = None) \<or> (x = finished_output seq' \<and>
         (ls_generated seq' = ls_generated seq \<or> ls_generated seq' = ls_generated seq + 1 \<and> unat (ls_max_output seq) \<le> ls_generated seq'))"
  | (continues) tok where "r = None" "batch_add tok (ls_n_past seq) (ls_seq_id seq) True batch = Some batch'"
      "same_seq seq seq'" "ls_active seq' = ls_active seq" "ls_n_past seq' = ls_n_past seq + 1" "ls_n_past seq + 1 < 2 ^ 31"
      "ls_generated seq' = ls_generated seq + 1" "ls_generated seq' < unat (ls_max_output seq)"
      "ls_logits_batch_index seq' = int (length (lb_tokens batch))"
proof -
  obtain tok sampler where s: "ll_sampler_sample lib (ls_sampler seq) ctx (ls_logits_batch_index seq) = (tok, sampler)"
    by fastforce
  let ?seq1 = "seq\<lparr>ls_sampler := ll_sampler_accept lib tok sampler\<rparr>"
  note d = assms [unfolded sample_seq_def s prod.case Let_def]
  show thesis
  proof (cases "ll_vocab_is_eog lib vocab tok")
    case True
    then have e: "r = Some (finished_output ?seq1)" "batch' = batch" "seq' = ?seq1\<lparr>ls_active := False\<rparr>" using d by simp_all
    then show thesis by (intro ended [OF e(1,2)]) (simp_all add: same_seq_def finished_output_def)
  next
    case no_eog: False
    show thesis
    proof (cases "token_to_piece lib vocab tok")
      case (Inl msg)
      then have e: "r = Some (result_failure (status_error EC_InferenceFailed msg))" "batch' = batch"
        "seq' = ?seq1\<lparr>ls_active := False\<rparr>" using d no_eog by simp_all
      then show thesis by (intro ended [OF e(1,2)]) (simp_all add: same_seq_def)
    next
      case (Inr piece)
      let ?seq2 = "?seq1\<lparr>ls_text := ls_text seq @ piece, ls_generated := ls_generated seq + 1\<rparr>"
      show thesis
      proof (cases "unat (ls_max_output seq) \<le> ls_generated seq + 1")
        case True
        then have e: "r = Some (finished_output ?seq2)" "batch' = batch" "seq' = ?seq2\<lparr>ls_active := False\<rparr>"
          using d no_eog Inr by simp_all
        then show thesis using True by (intro ended [OF e(1,2)]) (simp_all add: same_seq_def finished_output_def)
      next
        case False
        then have e: "r = None" "batch_add tok (ls_n_past seq) (ls_seq_id seq) True batch = Some batch'"
          "seq' = ?seq2\<lparr>ls_logits_batch_index := int (length (lb_tokens batch)), ls_n_past := ls_n_past seq + 1\<rparr>"
          "ls_n_past seq + 1 < 2 ^ 31"
          using d no_eog Inr by (auto split: option.splits)
        then show thesis using False by (intro continues [OF e(1,2)]) (simp_all add: same_seq_def)
      qed
    qed
  qed
qed

lemma sample_seq_left:
  assumes "sample_seq lib vocab ctx seq batch = Some (seq', r, batch')"
  shows "(r \<noteq> None \<longrightarrow> \<not> ls_active seq') \<and> (r = None \<longrightarrow> ls_generated seq' = ls_generated seq + 1 \<and>
    ls_generated seq' < unat (ls_max_output seq') \<and> ls_max_output seq' = ls_max_output seq)"
  using assms
proof (cases rule: sample_seq_cases)
  case (ended x)
  then show ?thesis by blast
next
  case (continues tok)
  then show ?thesis unfolding same_seq_def by presburger
qed

lemma tokens_left_Cons:
  "tokens_left (seq # live) = (if ls_active seq then unat (ls_max_output seq) - ls_generated seq else 0) + tokens_left live"
  by (simp add: tokens_left_def)

lemma sample_pass_left:
  "sample_pass lib vocab ctx live batch results = Some (any_active, live', batch', results') \<Longrightarrow>
   tokens_left live' \<le> tokens_left live \<and> (any_active \<longrightarrow> tokens_left live' < tokens_left live)"
proof (induction live arbitrary: batch results any_active live')
  case (Cons seq live)
  show ?case
  proof (cases "ls_active seq")
    case False
    then obtain live2 where 2: "sample_pass lib vocab ctx live batch results = Some (any_active, live2, batch', results')"
      "live' = seq # live2"
      using Cons.prems by (auto split: option.splits)
    show ?thesis using Cons.IH [OF 2(1)] 2(2) False by (simp add: tokens_left_def)
  next
    case True
    obtain seq1 r batch1 where 1: "sample_seq lib vocab ctx seq batch = Some (seq1, r, batch1)"
      using Cons.prems True by (auto split: option.splits)
    obtain any2 live2 where 2:
      "sample_pass lib vocab ctx live batch1 (case r of None \<Rightarrow> results | Some x \<Rightarrow> results[ls_result_index seq := x]) =
         Some (any2, live2, batch', results')" "any_active = (r = None \<or> any2)" "live' = seq1 # live2"
      using Cons.prems True 1 by (auto split: option.splits)
    note IH = Cons.IH [OF 2(1)] and S = sample_seq_left [OF 1]
    show ?thesis
    proof (cases r)
      case None
      then have "unat (ls_max_output seq1) - ls_generated seq1 < unat (ls_max_output seq) - ls_generated seq"
        using S by (metis Suc_eq_plus1 Suc_lessD diff_less_mono2 lessI)
      then show ?thesis using IH True unfolding 2(3) tokens_left_Cons by auto
    next
      case (Some x)
      then have "\<not> ls_active seq1" "any_active = any2" using S 2(2) by simp_all
      then show ?thesis using IH True unfolding 2(3) tokens_left_Cons by auto
    qed
  qed
qed (simp add: tokens_left_def)

function generate ::
  "('m, 'v, 'c, 's) LlamaLib \<Rightarrow> 'v \<Rightarrow> 's LiveSeq list \<Rightarrow> LlamaBatch \<Rightarrow> 'c decoding \<Rightarrow> InferenceResult list \<Rightarrow>
   ('s LiveSeq list \<times> 'c decoding \<times> InferenceResult list) option" where
  "generate lib vocab live batch d results =
     (case sample_pass lib vocab (fst d) live (batch_clear batch) results of
        None \<Rightarrow> None
      | Some (any_active, live1, batch1, results1) \<Rightarrow>
          if \<not> any_active then Some (live1, d, results1)
          else
            (case decode lib batch1 d of (ret, d1) \<Rightarrow>
               if ret \<noteq> 0
               then Some (map (\<lambda>seq. seq\<lparr>ls_active := False\<rparr>) live1, d1,
                      fail_live_seqs (status_error EC_InferenceFailed ''llama_decode generation failed'') live1 results1)
               else generate lib vocab live1 batch1 d1 results1))"
  by pat_completeness auto
termination
  by (relation "measure (\<lambda>(_, _, live, _, _, _). tokens_left live)") (auto dest!: sample_pass_left)

declare generate.simps [simp del]

subsection \<open>The whole batch\<close>

text \<open>The bootstrap and the generation (lines 367 to 446).\<close>

definition boot_and_generate ::
  "('m, 'v, 'c, 's) LlamaLib \<Rightarrow> 'v \<Rightarrow> 's LiveSeq list \<Rightarrow> LlamaBatch \<Rightarrow> InferenceResult list \<Rightarrow> 'c decoding \<Rightarrow>
   ('c decoding \<times> InferenceResult list) option" where
  "boot_and_generate lib vocab live batch results d =
     (case bootstrap_pass live (batch_clear batch) of
        None \<Rightarrow> None
      | Some (live2, batch2) \<Rightarrow>
          if lb_tokens batch2 = [] then Some (d, results)
          else
            (case decode lib batch2 d of (ret, d2) \<Rightarrow>
               if ret \<noteq> 0
               then Some (d2, fail_live_seqs (status_error EC_InferenceFailed ''llama_decode bootstrap failed'') live2 results)
               else
                 (case generate lib vocab live2 batch2 d2 results of
                    None \<Rightarrow> None
                  | Some (live3, d3, results3) \<Rightarrow>
                      Some (d3, fold (\<lambda>seq rs. if ls_active seq then rs[ls_result_index seq := finished_output seq] else rs)
                              live3 results3))))"

text \<open>From the allocation of the batch on, with at least one live sequence (lines 324 to 446).\<close>

definition run_live_seqs ::
  "('m, 'v, 'c, 's) LlamaLib \<Rightarrow> ('m, 'v, 'c) LoadedModel \<Rightarrow> 's LiveSeq list \<Rightarrow> InferenceResult list \<Rightarrow> 'c decoding \<Rightarrow>
   ('c decoding \<times> InferenceResult list) option" where
  "run_live_seqs lib entry live results d =
     (let batch = \<lparr>lb_capacity = sint (lm_n_batch (ld_model_config entry)), lb_tokens = []\<rparr> in
      case prefix_stage lib live batch d of
        None \<Rightarrow> None
      | Some (decoded, live1, batch1, d1) \<Rightarrow>
          if \<not> decoded
          then Some (d1, fail_live_seqs (status_error EC_InferenceFailed ''llama_decode prefix failed'') live1 results)
          else boot_and_generate lib (ld_vocab entry) live1 batch1 results d1)"

text \<open>The results, the calls of \<^verbatim>\<open>llama_decode\<close> and the backend afterwards.\<close>

definition infer_batch_locked ::
  "('m, 'v, 'c, 's) LlamaLib \<Rightarrow> InferenceRequest option list \<Rightarrow> ('m, 'v, 'c) LlamaCppBackend \<Rightarrow>
   (InferenceResult list \<times> BatchToken list list \<times> ('m, 'v, 'c) LlamaCppBackend) option" where
  "infer_batch_locked lib requests b =
     (let results = initial_results requests;
          failed = (\<lambda>code msg. Some (all_failed (status_error code msg) results, [], b)) in
      if requests = [] then Some (results, [], b)
      else if None \<in> set requests then Some (results, [], b)
      else
        let reqs = map the requests; model_id = rq_model_id (hd reqs) in
        if \<exists>r \<in> set (tl reqs). rq_model_id r \<noteq> model_id
        then failed EC_InternalError ''incompatible batch member''
        else if length requests > lc_max_sequences (lk_config b)
        then failed EC_InternalError ''batch exceeds max_sequences''
        else
          (case map_of (lk_loaded b) model_id of
             None \<Rightarrow> failed EC_InferenceFailed ''model is not loaded''
           | Some entry \<Rightarrow>
               let d = (clear_memory lib (ld_context entry), []) in
               (case setup_live lib entry 0 reqs [] results of (live, results1) \<Rightarrow>
                case (if live = [] then Some (d, results1) else run_live_seqs lib entry live results1 d) of
                  None \<Rightarrow> None
                | Some ((ctx, calls), results2) \<Rightarrow>
                    Some (results2, calls,
                      b\<lparr>lk_loaded := AList.update model_id (entry\<lparr>ld_context := clear_memory lib ctx\<rparr>)
                          (lk_loaded b)\<rparr>))))"

section \<open>The backend interface\<close>

definition llama_load ::
  "('m, 'v, 'c, 's) LlamaLib \<Rightarrow> ModelSpec \<Rightarrow> ('m, 'v, 'c) LlamaCppBackend \<Rightarrow>
   Status \<times> ('m, 'v, 'c) LlamaCppBackend" where
  "llama_load lib spec b = load_locked lib spec b"

text \<open>
  Undefined behaviour has no result; it is represented by a foreign exception here, and shown
  not to occur for the configurations the constructor accepts.
\<close>

definition llama_infer_batch ::
  "('m, 'v, 'c, 's) LlamaLib \<Rightarrow> InferenceRequest option list \<Rightarrow> ('m, 'v, 'c) LlamaCppBackend \<Rightarrow>
   batch_result \<times> ('m, 'v, 'c) LlamaCppBackend" where
  "llama_infer_batch lib requests b =
     (case infer_batch_locked lib requests b of
        None \<Rightarrow> (Inl OtherException, b)
      | Some (results, _, b') \<Rightarrow> (Inr results, b'))"

definition llama_infer ::
  "('m, 'v, 'c, 's) LlamaLib \<Rightarrow> InferenceRequest \<Rightarrow> ('m, 'v, 'c) LlamaCppBackend \<Rightarrow>
   (backend_exn + InferenceResult) \<times> ('m, 'v, 'c) LlamaCppBackend" where
  "llama_infer lib request b =
     (case llama_infer_batch lib [Some request] b of
        (Inl e, b') \<Rightarrow> (Inl e, b')
      | (Inr results, b') \<Rightarrow>
          (Inr (if length results \<noteq> 1
                then result_failure (status_error EC_InternalError ''infer_batch cardinality error'')
                else hd results), b'))"

interpretation llama: model_backend "llama_load lib" llama_unload llama_is_loaded "llama_infer_batch lib"
  for lib :: "('m, 'v, 'c, 's) LlamaLib"
proof unfold_locales
  fix spec m m0 vs r st and b b' :: "('m, 'v, 'c) LlamaCppBackend"
  show "llama_load lib spec b = (st, b') \<Longrightarrow> \<not> llama_is_loaded (ms_model_id spec) b \<Longrightarrow>
      llama_is_loaded m b' = (if m = ms_model_id spec then status_ok st else llama_is_loaded m b)"
    by (auto simp: llama_load_def load_locked_def llama_is_loaded_def open_model_def update_conv' Let_def
        split: option.splits if_splits sum.splits)
  show "llama_unload m0 b = (st, b') \<Longrightarrow>
      llama_is_loaded m b' = (if m = m0 \<and> status_ok st then False else llama_is_loaded m b)"
    by (auto simp: llama_unload_def llama_is_loaded_def delete_conv' split: if_splits)
  show "llama_infer_batch lib vs b = (r, b') \<Longrightarrow> llama_is_loaded m b' = llama_is_loaded m b"
    by (auto simp: llama_infer_batch_def infer_batch_locked_def llama_is_loaded_def update_conv' Let_def
        split: option.splits if_splits prod.splits)
qed

end
