(* ===== verification/AR_Main.thy ===== *)
theory AR_Main
  imports AR_Site AR_Llama
begin

text \<open>
  The program \<^verbatim>\<open>runtime-server\<close> (\<^verbatim>\<open>apps/runtime-server/main.cpp\<close>): reading the command line,
  the configurations of the workers for both backends, and the order in which \<^verbatim>\<open>main\<close> builds,
  starts and stops the parts.

  A function that prints a message and returns \<^verbatim>\<open>false\<close> returns \<open>Inl\<close> of the message. What the
  program learns from its surroundings is an argument: the file system, whether the address of
  the host can be read, the results of opening the acceptor, and whether the program was compiled
  with the llama backend.
\<close>

section \<open>Options\<close>

record ServerOptions =
  so_host :: string
  so_port :: "16 word"
  so_backend :: string
  so_model_id :: string
  so_model_path :: string
  so_ctx_size :: u32
  so_gpu_layers :: "int option"
  so_threads :: "int option"
  so_workers :: "u64 option"
  so_max_batch_size :: u64
  so_max_batch_wait_ms :: u64
  so_scheduler_capacity :: u64
  so_worker_queue_capacity :: u64
  so_scheduler :: string

definition default_options :: ServerOptions where
  "default_options =
     \<lparr>so_host = ''127.0.0.1'', so_port = 8080, so_backend = ''synthetic'', so_model_id = [], so_model_path = [],
      so_ctx_size = 2048, so_gpu_layers = None, so_threads = None, so_workers = None,
      so_max_batch_size = 4, so_max_batch_wait_ms = 0, so_scheduler_capacity = 32,
      so_worker_queue_capacity = 8, so_scheduler = ''workload''\<rparr>"

definition print_usage :: string where
  "print_usage = concat (map (\<lambda>line. line @ newline)
     [''Usage: runtime-server [--host HOST] [--port PORT]'',
      ''                      [--backend synthetic|llama]'',
      ''                      [--model-id ID] [--model-path PATH]'',
      ''                      [--ctx-size N] [--gpu-layers N] [--threads N]'',
      ''                      [--workers N]'',
      ''                      [--max-batch-size N] [--max-batch-wait-ms N]'',
      ''                      [--scheduler-capacity N] [--worker-queue-capacity N]'',
      ''                      [--scheduler fifo|workload]''])"

definition parse_positive_size :: "string \<Rightarrow> string \<Rightarrow> u64 or_throw" where
  "parse_positive_size name txt =
     (if txt = [] \<or> hd txt = CHR ''-'' then Inl (name @ '' must be a positive integer'')
      else
        (case stoull txt of
           Inl _ \<Rightarrow> Inl (''malformed value for '' @ name)
         | Inr v \<Rightarrow> if v = 0 then Inl (name @ '' must be a positive integer'') else Inr v))"

definition parse_nonnegative_u64 :: "string \<Rightarrow> string \<Rightarrow> u64 or_throw" where
  "parse_nonnegative_u64 name txt =
     (if txt = [] \<or> hd txt = CHR ''-'' then Inl (name @ '' must be a nonnegative integer'')
      else
        (case stoull txt of
           Inl _ \<Rightarrow> Inl (''malformed value for '' @ name)
         | Inr v \<Rightarrow> Inr v))"

definition parse_port :: "string \<Rightarrow> (16 word) or_throw" where
  "parse_port v =
     (case stoi v of
        Inl _ \<Rightarrow> Inl ''malformed value for --port''
      | Inr port \<Rightarrow> if port < 0 \<or> port > 65535 then Inl ''--port out of range'' else Inr (of_int port))"

definition parse_gpu_layers :: "string \<Rightarrow> int or_throw" where
  "parse_gpu_layers v =
     (case stoi v of Inl _ \<Rightarrow> Inl ''malformed value for --gpu-layers'' | Inr n \<Rightarrow> Inr n)"

definition parse_threads :: "string \<Rightarrow> int or_throw" where
  "parse_threads v =
     (case stoi v of
        Inl _ \<Rightarrow> Inl ''malformed value for --threads''
      | Inr threads \<Rightarrow> if threads \<le> 0 then Inl ''--threads must be > 0'' else Inr threads)"

text \<open>Puts a parsed value into the options, or passes the message on.\<close>

definition store :: "'a or_throw \<Rightarrow> ('a \<Rightarrow> ServerOptions) \<Rightarrow> ServerOptions or_throw" where
  "store parsed put = (case parsed of Inl e \<Rightarrow> Inl e | Inr v \<Rightarrow> Inr (put v))"

text \<open>The branch of an option that takes a value; \<open>None\<close> for any other argument.\<close>

definition set_option :: "string \<Rightarrow> (string \<Rightarrow> ServerOptions \<Rightarrow> ServerOptions or_throw) option" where
  "set_option arg =
     (if arg = ''--host'' then Some (\<lambda>v opts. Inr (opts\<lparr>so_host := v\<rparr>))
      else if arg = ''--port'' then Some (\<lambda>v opts. store (parse_port v) (\<lambda>p. opts\<lparr>so_port := p\<rparr>))
      else if arg = ''--backend'' then Some (\<lambda>v opts. Inr (opts\<lparr>so_backend := v\<rparr>))
      else if arg = ''--model-id'' then Some (\<lambda>v opts. Inr (opts\<lparr>so_model_id := v\<rparr>))
      else if arg = ''--model-path'' then Some (\<lambda>v opts. Inr (opts\<lparr>so_model_path := v\<rparr>))
      else if arg = ''--ctx-size''
      then Some (\<lambda>v opts. store (parse_positive_size arg v) (\<lambda>ctx. opts\<lparr>so_ctx_size := ucast ctx\<rparr>))
      else if arg = ''--gpu-layers'' then Some (\<lambda>v opts. store (parse_gpu_layers v) (\<lambda>n. opts\<lparr>so_gpu_layers := Some n\<rparr>))
      else if arg = ''--threads'' then Some (\<lambda>v opts. store (parse_threads v) (\<lambda>n. opts\<lparr>so_threads := Some n\<rparr>))
      else if arg = ''--workers''
      then Some (\<lambda>v opts. store (parse_positive_size arg v) (\<lambda>n. opts\<lparr>so_workers := Some n\<rparr>))
      else if arg = ''--max-batch-size''
      then Some (\<lambda>v opts. store (parse_positive_size arg v) (\<lambda>n. opts\<lparr>so_max_batch_size := n\<rparr>))
      else if arg = ''--max-batch-wait-ms''
      then Some (\<lambda>v opts. store (parse_nonnegative_u64 arg v) (\<lambda>n. opts\<lparr>so_max_batch_wait_ms := n\<rparr>))
      else if arg = ''--scheduler-capacity''
      then Some (\<lambda>v opts. store (parse_positive_size arg v) (\<lambda>n. opts\<lparr>so_scheduler_capacity := n\<rparr>))
      else if arg = ''--worker-queue-capacity''
      then Some (\<lambda>v opts. store (parse_positive_size arg v) (\<lambda>n. opts\<lparr>so_worker_queue_capacity := n\<rparr>))
      else if arg = ''--scheduler'' then Some (\<lambda>v opts. Inr (opts\<lparr>so_scheduler := v\<rparr>))
      else None)"

fun parse_loop :: "string list \<Rightarrow> ServerOptions \<Rightarrow> ServerOptions or_throw" where
  "parse_loop [] opts = Inr opts"
| "parse_loop [arg] opts =
     (if arg = ''--help'' \<or> arg = ''-h'' then Inl print_usage
      else
        (case set_option arg of
           None \<Rightarrow> Inl (''unknown argument: '' @ arg @ newline @ print_usage)
         | Some _ \<Rightarrow> Inl (''missing value for '' @ arg)))"
| "parse_loop (arg # v # args) opts =
     (if arg = ''--help'' \<or> arg = ''-h'' then Inl print_usage
      else
        (case set_option arg of
           None \<Rightarrow> Inl (''unknown argument: '' @ arg @ newline @ print_usage)
         | Some set_it \<Rightarrow>
             (case set_it v opts of Inl e \<Rightarrow> Inl e | Inr opts' \<Rightarrow> parse_loop args opts')))"

definition parse_args :: "string list \<Rightarrow> ServerOptions or_throw" where
  "parse_args args =
     (case parse_loop args default_options of
        Inl e \<Rightarrow> Inl e
      | Inr opts \<Rightarrow>
          if so_scheduler opts \<noteq> ''fifo'' \<and> so_scheduler opts \<noteq> ''workload''
          then Inl ''unknown --scheduler (expected fifo|workload)''
          else Inr opts)"

section \<open>Configurations\<close>

definition make_batch_config :: "ServerOptions \<Rightarrow> BatchBuilderConfig or_throw" where
  "make_batch_config opts =
     (if so_max_batch_wait_ms opts > of_nat ((2 ^ 63 - 1) div 1000)
      then Inl ''--max-batch-wait-ms too large''
      else Inr \<lparr>bb_max_batch_size = unat (so_max_batch_size opts),
                bb_max_batch_wait = sint (so_max_batch_wait_ms opts * 1000)\<rparr>)"

definition model_a :: ModelSpec where
  "model_a = \<lparr>ms_model_id = ''model-a'', ms_estimated_memory_bytes = 5 * 1024 * 1024 * 1024,
     ms_estimated_load_cost = 10\<rparr>"

definition model_b :: ModelSpec where
  "model_b = \<lparr>ms_model_id = ''model-b'', ms_estimated_memory_bytes = 6 * 1024 * 1024 * 1024,
     ms_estimated_load_cost = 20\<rparr>"

definition make_synthetic_registry :: "ModelRegistry option" where
  "make_synthetic_registry =
     (case registry_add model_a [] of (st1, b1) \<Rightarrow>
        if \<not> status_ok st1 then None
        else
          (case registry_add model_b b1 of (st2, b2) \<Rightarrow>
             if \<not> status_ok st2 then None
             else
               (case registry_build b2 of (status, registry) \<Rightarrow>
                  if \<not> status_ok status then None else registry)))"

definition make_synthetic_worker ::
  "WorkerId \<Rightarrow> ModelRegistry \<Rightarrow> u64 \<Rightarrow> ServerOptions \<Rightarrow> SyntheticModelBackend WorkerConfig or_throw" where
  "make_synthetic_worker k registry budget opts =
     (let config = \<lparr>sc_load_latency = 10, sc_prefill_latency = 5, sc_per_token_latency = 1,
            sc_fail_load = False, sc_fail_infer = False\<rparr>;
          backend = syn_register ''model-b'' config (syn_register ''model-a'' config syn_make)
      in (case make_batch_config opts of
            Inl e \<Rightarrow> Inl e
          | Inr batch_config \<Rightarrow>
              Inr \<lparr>wc_worker_id = k, wc_queue_capacity = unat (so_worker_queue_capacity opts),
                   wc_memory_budget_bytes = budget, wc_batch_config = batch_config, wc_registry = Some registry,
                   wc_backend = Some backend, wc_eviction_policy = Some CostAwareEvictionPolicy\<rparr>))"

definition make_llama_registry :: "ServerOptions \<Rightarrow> u64 \<Rightarrow> ModelRegistry option" where
  "make_llama_registry opts estimate_bytes =
     (case registry_add \<lparr>ms_model_id = so_model_id opts, ms_estimated_memory_bytes = estimate_bytes,
             ms_estimated_load_cost = 1\<rparr> [] of (st, b) \<Rightarrow>
        if \<not> status_ok st then None
        else
          (case registry_build b of (status, registry) \<Rightarrow>
             if \<not> status_ok status then None else registry))"

definition llama_config :: "ServerOptions \<Rightarrow> LlamaCppBackendConfig" where
  "llama_config opts =
     (let max_sequences = so_max_batch_size opts;
          n_batch = max 512 (ucast max_sequences);
          model_config =
            \<lparr>lm_gguf_path = so_model_path opts, lm_context_tokens_per_sequence = so_ctx_size opts,
             lm_n_batch = n_batch, lm_n_ubatch = n_batch, lm_n_gpu_layers = so_gpu_layers opts,
             lm_n_threads = so_threads opts, lm_n_threads_batch = so_threads opts\<rparr>
      in \<lparr>lc_models = [(so_model_id opts, model_config)], lc_max_sequences = unat max_sequences\<rparr>)"

definition make_llama_worker ::
  "WorkerId \<Rightarrow> ModelRegistry \<Rightarrow> u64 \<Rightarrow> bool \<Rightarrow> ServerOptions \<Rightarrow> ('m, 'v, 'c) LlamaCppBackend WorkerConfig or_throw" where
  "make_llama_worker k registry budget runtime opts =
     (case make_batch_config opts of
        Inl e \<Rightarrow> Inl e
      | Inr batch_config \<Rightarrow>
          (case llama_make runtime (llama_config opts) of
             Inl e \<Rightarrow> Inl e
           | Inr backend \<Rightarrow>
               Inr \<lparr>wc_worker_id = k, wc_queue_capacity = unat (so_worker_queue_capacity opts),
                    wc_memory_budget_bytes = budget, wc_batch_config = batch_config, wc_registry = Some registry,
                    wc_backend = Some backend, wc_eviction_policy = Some CostAwareEvictionPolicy\<rparr>))"

definition make_scheduler :: "ServerOptions \<Rightarrow> IRequestScheduler or_throw" where
  "make_scheduler opts =
     (if so_scheduler opts = ''fifo''
      then (case fifo_make (unat (so_scheduler_capacity opts)) of Inl e \<Rightarrow> Inl e | Inr q \<Rightarrow> Inr (Fifo q))
      else (case wa_make (unat (so_scheduler_capacity opts)) 8 of Inl e \<Rightarrow> Inl e | Inr s \<Rightarrow> Inr (Workload s)))"

section \<open>The main program\<close>

text \<open>
  The program returns an exit code, ends with an uncaught exception, or serves.
\<close>

datatype 'a outcome = Exit nat string | Terminate string | Serving 'a

fun map_serving :: "('a \<Rightarrow> 'c) \<Rightarrow> 'a outcome \<Rightarrow> 'c outcome" where
  "map_serving f (Exit c e) = Exit c e"
| "map_serving f (Terminate e) = Terminate e"
| "map_serving f (Serving x) = Serving (f x)"

record ('m, 'v, 'c, 's) Platform =
  pf_llama_enabled :: bool
  pf_llama :: "('m, 'v, 'c, 's) LlamaLib"
  pf_file_size :: "string \<Rightarrow> u64 option"
  pf_make_address :: "string \<Rightarrow> bool"
  pf_open_ec :: NetError
  pf_bind_ec :: NetError
  pf_listen_ec :: NetError

definition kBudget :: u64 where
  "kBudget = 12 * 1024 * 1024 * 1024"

fun make_workers ::
  "(WorkerId \<Rightarrow> 'b WorkerConfig or_throw) \<Rightarrow> WorkerId list \<Rightarrow> World \<Rightarrow> ('b Worker list \<times> World) or_throw" where
  "make_workers mk [] w = Inr ([], w)"
| "make_workers mk (i # is) w =
     (case mk i of
        Inl e \<Rightarrow> Inl e
      | Inr config \<Rightarrow>
          (case worker_make config w of
             Inl e \<Rightarrow> Inl e
           | Inr (wk, w1) \<Rightarrow>
               (case make_workers mk is w1 of
                  Inl e \<Rightarrow> Inl e
                | Inr (wks, w2) \<Rightarrow> Inr (wk # wks, w2))))"

text \<open>The number of workers asked for, or else \<open>n0\<close>.\<close>

definition worker_count :: "nat \<Rightarrow> ServerOptions \<Rightarrow> nat" where
  "worker_count n0 opts = (case so_workers opts of None \<Rightarrow> n0 | Some n \<Rightarrow> unat n)"

text \<open>The part inside the \<^verbatim>\<open>try\<close> block, for each backend: the registry and the workers.\<close>

definition build_with ::
  "ModelRegistry \<Rightarrow> (WorkerId \<Rightarrow> 'b WorkerConfig or_throw) \<Rightarrow> nat \<Rightarrow> World \<Rightarrow>
     (ModelRegistry \<times> 'b Worker list \<times> World) outcome" where
  "build_with registry mk n w =
     (case make_workers mk [0..<n] w of
        Inl e \<Rightarrow> Exit 1 (''failed to construct runtime workers: '' @ e)
      | Inr (workers, w1) \<Rightarrow> Serving (registry, workers, w1))"

definition build_synthetic ::
  "ServerOptions \<Rightarrow> World \<Rightarrow> (ModelRegistry \<times> SyntheticModelBackend Worker list \<times> World) outcome" where
  "build_synthetic opts w =
     (case make_synthetic_registry of
        None \<Rightarrow> Exit 1 ''failed to build model registry''
      | Some registry \<Rightarrow>
          build_with registry (\<lambda>i. make_synthetic_worker i registry kBudget opts)
            (worker_count 2 opts) w)"

definition build_llama ::
  "('m, 'v, 'c, 's) Platform \<Rightarrow> ServerOptions \<Rightarrow> World \<Rightarrow>
     (ModelRegistry \<times> ('m, 'v, 'c) LlamaCppBackend Worker list \<times> World) outcome" where
  "build_llama pf opts w =
     (if \<not> pf_llama_enabled pf then Exit 1 ''runtime-server was built without AIRUNTIME_ENABLE_LLAMA''
      else if so_model_id opts = [] \<or> so_model_path opts = []
      then Exit 1 ''llama backend requires --model-id and --model-path''
      else if so_ctx_size opts = 0 then Exit 1 ''--ctx-size must be > 0''
      else if \<not> fs_exists (pf_llama pf) (so_model_path opts) \<or> \<not> fs_is_regular_file (pf_llama pf) (so_model_path opts)
      then Exit 1 ''model path missing or not a regular file''
      else
        (case pf_file_size pf (so_model_path opts) of
           None \<Rightarrow> Exit 1 ''failed to read GGUF file size for policy estimate''
         | Some estimate \<Rightarrow>
             if estimate = 0 then Exit 1 ''failed to read GGUF file size for policy estimate''
             else
               (case make_llama_registry opts estimate of
                  None \<Rightarrow> Exit 1 ''failed to build llama model registry''
                | Some registry \<Rightarrow>
                    build_with registry (\<lambda>i. make_llama_worker i registry kBudget True opts)
                      (worker_count 1 opts) w)))"

text \<open>
  From the workers to the loop of the server. Nothing here is inside a \<^verbatim>\<open>try\<close> block, so what a
  constructor throws ends the program.
\<close>

definition launch ::
  "('m, 'v, 'c, 's) Platform \<Rightarrow> ServerOptions \<Rightarrow> ModelRegistry \<times> 'b Worker list \<times> World \<Rightarrow> 'b Env outcome" where
  "launch pf opts parts =
     (case parts of (registry, workers, w) \<Rightarrow>
      case make_scheduler opts of
        Inl e \<Rightarrow> Terminate e
      | Inr scheduler \<Rightarrow>
          (let router = ResidencyAwareRouter \<lparr>ra_resident_selections = 0, ra_no_eviction_load_selections = 0,
                 ra_eviction_required_selections = 0\<rparr>
           in (case runtime_make (Some scheduler) (Some router) (map Some workers) (Some registry) of
                 Inl e \<Rightarrow> Terminate e
               | Inr runtime \<Rightarrow>
                   (case runtime_start (runtime, w) of (st, runtime1, w1) \<Rightarrow>
                      if \<not> status_ok st then Exit 1 ''failed to start runtime''
                      else if \<not> pf_make_address pf (so_host opts) then Terminate ''make_address''
                      else
                        (case server_make (pf_open_ec pf) (pf_bind_ec pf) (pf_listen_ec pf) of
                           Inl e \<Rightarrow> Terminate e
                         | Inr server \<Rightarrow>
                             Serving \<lparr>en_runtime = runtime1, en_world = w1, en_handler = handler_make,
                               en_server = server_run server, en_live = [], en_next_request = 0,
                               en_next_session = 0\<rparr>)))))"

definition help_only :: "string list \<Rightarrow> bool" where
  "help_only args = list_ex (\<lambda>arg. arg = ''--help'' \<or> arg = ''-h'') args"

definition and_then :: "'a outcome \<Rightarrow> ('a \<Rightarrow> 'c outcome) \<Rightarrow> 'c outcome" where
  "and_then r f = (case r of Exit c e \<Rightarrow> Exit c e | Terminate e \<Rightarrow> Terminate e | Serving x \<Rightarrow> f x)"

definition main ::
  "('m, 'v, 'c, 's) Platform \<Rightarrow> string list \<Rightarrow> World \<Rightarrow>
     (SyntheticModelBackend Env + ('m, 'v, 'c) LlamaCppBackend Env) outcome" where
  "main pf args w =
     (case parse_args args of
        Inl e \<Rightarrow> Exit (if help_only args then 0 else 1) e
      | Inr opts \<Rightarrow>
          if so_backend opts = ''synthetic''
          then map_serving Inl (and_then (build_synthetic opts w) (launch pf opts))
          else if so_backend opts = ''llama''
          then map_serving Inr (and_then (build_llama pf opts w) (launch pf opts))
          else Exit 1 ''unknown --backend (expected synthetic|llama)'')"

text \<open>What follows a signal: the server is stopped, its loop ends, and the runtime is stopped.\<close>

definition shutdown ::
  "(ModelSpec \<Rightarrow> 'b \<Rightarrow> Status \<times> 'b) \<Rightarrow> (string \<Rightarrow> 'b \<Rightarrow> Status \<times> 'b) \<Rightarrow> 'b infer_fn \<Rightarrow>
   'b Site \<Rightarrow> (routing_outcome \<times> run_outcome list) \<times> 'b Site" where
  "shutdown load unload infer site =
     (case server_stop site of (objs, env) \<Rightarrow>
      case runtime_stop load unload infer (en_runtime env, en_world env) of (outs, rt, w) \<Rightarrow>
        (outs, objs, env\<lparr>en_runtime := rt, en_world := w\<rparr>))"

end
