(* ===== verification/AR_Main_Props.thy ===== *)
theory AR_Main_Props
  imports AR_Main
begin

text \<open>
  The command line can be written and read back, \<^verbatim>\<open>main\<close> starts exactly under the conditions its
  checks are for, and a signal ends in a state in which every session is closed and every request
  is settled.
\<close>

section \<open>The command line\<close>

text \<open>What the checks of the options guarantee.\<close>

definition options_ok :: "ServerOptions \<Rightarrow> bool" where
  "options_ok opts \<longleftrightarrow>
     so_max_batch_size opts \<noteq> 0 \<and> so_scheduler_capacity opts \<noteq> 0 \<and> so_worker_queue_capacity opts \<noteq> 0 \<and>
     so_workers opts \<noteq> Some 0 \<and>
     (case so_gpu_layers opts of None \<Rightarrow> True | Some n \<Rightarrow> - (2 ^ 31) \<le> n \<and> n < 2 ^ 31) \<and>
     (case so_threads opts of None \<Rightarrow> True | Some n \<Rightarrow> 0 < n \<and> n < 2 ^ 31)"

text \<open>A command line for given options.\<close>

definition print_int :: "int \<Rightarrow> string" where
  "print_int n = (if n < 0 then CHR ''-'' # to_base 10 (nat (- n)) else to_base 10 (nat n))"

definition print_word :: "'a::len word \<Rightarrow> string" where
  "print_word n = to_base 10 (unat n)"

definition print_optional :: "string \<Rightarrow> ('a \<Rightarrow> string) \<Rightarrow> 'a option \<Rightarrow> string list" where
  "print_optional name show v = (case v of None \<Rightarrow> [] | Some x \<Rightarrow> [name, show x])"

definition print_args :: "ServerOptions \<Rightarrow> string list" where
  "print_args opts =
     [''--host'', so_host opts, ''--port'', print_word (so_port opts), ''--backend'', so_backend opts,
      ''--model-id'', so_model_id opts, ''--model-path'', so_model_path opts, ''--ctx-size'', print_word (so_ctx_size opts)] @
     print_optional ''--gpu-layers'' print_int (so_gpu_layers opts) @
     print_optional ''--threads'' print_int (so_threads opts) @
     print_optional ''--workers'' print_word (so_workers opts) @
     [''--max-batch-size'', print_word (so_max_batch_size opts),
      ''--max-batch-wait-ms'', print_word (so_max_batch_wait_ms opts),
      ''--scheduler-capacity'', print_word (so_scheduler_capacity opts),
      ''--worker-queue-capacity'', print_word (so_worker_queue_capacity opts),
      ''--scheduler'', so_scheduler opts]"

lemma to_base_not_minus: "hd (to_base 10 n) \<noteq> CHR ''-''"
proof -
  obtain c cs where "to_base 10 n = c # cs" by (cases "to_base 10 n") auto
  then show ?thesis using to_base_digits [of 10 n] by (auto simp: is_digit_def Let_def)
qed

lemma parse_positive_print: "n \<noteq> 0 \<Longrightarrow> parse_positive_size name (to_base 10 (unat n)) = Inr n"
  using unat_u64_less [of n] by (simp add: parse_positive_size_def to_base_not_minus stoull_to_base)

lemma parse_nonnegative_print: "parse_nonnegative_u64 name (to_base 10 (unat n)) = Inr n"
  using unat_u64_less [of n] by (simp add: parse_nonnegative_u64_def to_base_not_minus stoull_to_base)

lemma parse_ctx_print:
  "(n :: u32) \<noteq> 0 \<Longrightarrow> parse_positive_size name (to_base 10 (unat n)) = Inr (ucast n)"
proof -
  assume "n \<noteq> 0"
  then have "(ucast n :: u64) \<noteq> 0" using unat_ucast_u64 [of n] by (metis unat_0 unat_eq_zero)
  then show ?thesis using parse_positive_print [of "ucast n" name] by (simp add: unat_ucast_u64)
qed

lemma parse_port_print: "parse_port (to_base 10 (unat p)) = Inr p"
proof -
  have "unat p < 2 ^ 16" "uint p < 2 ^ 16" using unsigned_less [of p] by simp_all
  then show ?thesis by (simp add: parse_port_def stoi_to_base)
qed

lemma scan_number_minus: "scan_number (CHR ''-'' # to_base 10 n) = (True, to_base 10 n)"
  using to_base_digits [of 10 n] by (simp add: scan_number_def is_space_def list_all_iff takeWhile_eq_all_conv)

lemma stoi_print: "- (2 ^ 31) \<le> n \<Longrightarrow> n < 2 ^ 31 \<Longrightarrow> stoi (print_int n) = Inr n"
  by (auto simp: print_int_def stoi_to_base stoi_def scan_number_minus scan_number_to_base base_value_to_base Let_def)

lemmas parse_prints = parse_positive_print parse_nonnegative_print parse_ctx_print parse_port_print
  stoi_print parse_gpu_layers_def parse_threads_def store_def

lemma parse_print: "options_ok opts \<Longrightarrow> so_ctx_size opts \<noteq> 0 \<Longrightarrow> parse_loop (print_args opts) default_options = Inr opts"
  by (cases opts; cases "so_gpu_layers opts"; cases "so_threads opts"; cases "so_workers opts")
    (simp_all add: print_args_def print_optional_def print_word_def set_option_def parse_prints options_ok_def default_options_def
      ucast_up_ucast_id is_up)

lemma set_option_ok:
  "set_option arg = Some f \<Longrightarrow> f v opts = Inr opts' \<Longrightarrow> options_ok opts \<Longrightarrow> options_ok opts'"
  by (auto simp: set_option_def store_def options_ok_def parse_positive_size_def parse_nonnegative_u64_def
      parse_gpu_layers_def parse_threads_def dest!: stoi_range split: if_splits sum.splits)

lemma parse_loop_ok: "parse_loop args opts = Inr opts' \<Longrightarrow> options_ok opts \<Longrightarrow> options_ok opts'"
  by (induction args opts rule: parse_loop.induct)
    (auto split: if_splits option.splits sum.splits intro: set_option_ok)

lemma parse_args_ok:
  assumes "parse_args args = Inr opts"
  shows "options_ok opts \<and> so_scheduler opts \<in> {''fifo'', ''workload''}"
proof -
  have "options_ok default_options" by (simp add: options_ok_def default_options_def)
  then show ?thesis using assms parse_loop_ok by (auto simp: parse_args_def split: sum.splits if_splits)
qed

text \<open>
  C40: The command line says what the options are. Options the program accepts satisfy the checks:
  sizes and counts are positive, the thread count is positive, and the scheduler is one of the two
  there are. Conversely, every such set of options, with a context size that is not zero, is what
  the program reads from the command line that spells it out, number by number.
\<close>

theorem options_roundtrip:
  "(parse_args args = Inr opts \<longrightarrow> options_ok opts \<and> so_scheduler opts \<in> {''fifo'', ''workload''}) \<and>
   (options_ok opts \<and> so_scheduler opts \<in> {''fifo'', ''workload''} \<and> so_ctx_size opts \<noteq> 0 \<longrightarrow>
      parse_args (print_args opts) = Inr opts)"
  using parse_args_ok parse_print by (auto simp: parse_args_def)

theorem options_roundtrip_witness:
  "let opts = default_options\<lparr>so_gpu_layers := Some (- 1), so_threads := Some 8, so_workers := Some 3, so_port := 65535\<rparr>
   in parse_args (print_args opts) = Inr opts"
  using options_roundtrip
    [where opts = "default_options\<lparr>so_gpu_layers := Some (- 1), so_threads := Some 8, so_workers := Some 3, so_port := 65535\<rparr>"]
  by (simp add: options_ok_def default_options_def Let_def)

section \<open>Starting\<close>

text \<open>The longest waiting time that fits into the signed microseconds of the batch builder.\<close>

definition wait_fits :: "ServerOptions \<Rightarrow> bool" where
  "wait_fits opts \<longleftrightarrow> unat (so_max_batch_wait_ms opts) * 1000 < 2 ^ 63"

lemma wait_fits_word: "wait_fits opts \<longleftrightarrow> \<not> so_max_batch_wait_ms opts > of_nat ((2 ^ 63 - 1) div 1000)"
  by (simp add: wait_fits_def word_less_nat_alt) linarith

lemma sint_u64_small: "unat (x :: u64) < 2 ^ 63 \<Longrightarrow> sint x = int (unat x)"
  using sint_nonnegative [of x] by simp

lemma make_batch_config_fits:
  "make_batch_config opts =
     (if wait_fits opts
      then Inr \<lparr>bb_max_batch_size = unat (so_max_batch_size opts),
        bb_max_batch_wait = 1000 * int (unat (so_max_batch_wait_ms opts))\<rparr>
      else Inl ''--max-batch-wait-ms too large'')"
proof (cases "wait_fits opts")
  case True
  let ?ms = "so_max_batch_wait_ms opts"
  have "unat (?ms * 1000) = unat ?ms * 1000"
    using True by (subst unat_mult_lem [THEN iffD1]) (simp_all add: wait_fits_def)
  then have "sint (?ms * 1000) = int (unat ?ms * 1000)" using True by (simp add: sint_u64_small wait_fits_def)
  then show ?thesis using True by (simp add: make_batch_config_def wait_fits_word)
qed (simp add: make_batch_config_def wait_fits_word)

text \<open>The conditions under which a model can be served with the llama backend.\<close>

definition llama_model_given :: "('m, 'v, 'c, 's) Platform \<Rightarrow> ServerOptions \<Rightarrow> bool" where
  "llama_model_given pf opts \<longleftrightarrow>
     pf_llama_enabled pf \<and> so_model_id opts \<noteq> [] \<and> so_model_path opts \<noteq> [] \<and> so_ctx_size opts \<noteq> 0 \<and>
     fs_exists (pf_llama pf) (so_model_path opts) \<and> fs_is_regular_file (pf_llama pf) (so_model_path opts) \<and>
     (case pf_file_size pf (so_model_path opts) of None \<Rightarrow> False | Some n \<Rightarrow> n \<noteq> 0)"

definition llama_ready :: "('m, 'v, 'c, 's) Platform \<Rightarrow> ServerOptions \<Rightarrow> bool" where
  "llama_ready pf opts \<longleftrightarrow> llama_model_given pf opts \<and> unat (so_max_batch_size opts) < 2 ^ 32"

text \<open>What a worker is built from, and that such a worker can be built.\<close>

definition worker_config_ok :: "ServerOptions \<Rightarrow> WorkerId \<Rightarrow> 'b WorkerConfig \<Rightarrow> bool" where
  "worker_config_ok opts k config \<longleftrightarrow>
     wc_worker_id config = k \<and> wc_queue_capacity config = unat (so_worker_queue_capacity opts) \<and>
     wc_memory_budget_bytes config = kBudget \<and> wc_batch_config config = \<lparr>bb_max_batch_size = unat (so_max_batch_size opts),
       bb_max_batch_wait = 1000 * int (unat (so_max_batch_wait_ms opts))\<rparr> \<and>
     wc_registry config \<noteq> None \<and> wc_backend config \<noteq> None \<and> wc_eviction_policy config \<noteq> None"

definition worker_built :: "ServerOptions \<Rightarrow> 'b Worker \<Rightarrow> bool" where
  "worker_built opts wk \<longleftrightarrow>
     bb_max_batch_size (wk_batch_builder wk) = unat (so_max_batch_size opts) \<and>
     bb_max_batch_wait (wk_batch_builder wk) = 1000 * int (unat (so_max_batch_wait_ms opts)) \<and>
     wk_queue_capacity wk = unat (so_worker_queue_capacity opts) \<and>
     memory_budget_bytes (wk_model_manager wk) = 12 * 1024 ^ 3"

lemma worker_make_ok:
  assumes "options_ok opts" "worker_config_ok opts k config" "quiet w"
  shows "\<exists>wk w'. worker_make config w = Inr (wk, w') \<and> wk_worker_id wk = k \<and> worker_built opts wk \<and>
    \<not> wk_started wk \<and> \<not> wk_thread wk \<and> quiet w'"
  using assms
  by (auto simp: worker_config_ok_def worker_built_def worker_make_def options_ok_def make_batch_config_fits kBudget_def
      Let_def bb_make_def unat_gt_0 mm_make_def require_backend_def make_queue_def quiet_def memory_budget_bytes_def
      rm_make_def unat_eq_zero split: if_splits)

lemma make_workers_ok:
  assumes "options_ok opts" "\<forall>i. \<exists>config. mk i = Inr config \<and> worker_config_ok opts i config" "quiet w"
  shows "\<exists>wks w'. make_workers mk is w = Inr (wks, w') \<and> map wk_worker_id wks = is \<and> quiet w' \<and>
    (\<forall>wk \<in> set wks. worker_built opts wk \<and> \<not> wk_started wk \<and> \<not> wk_thread wk)"
  using assms(3)
proof (induction "is" arbitrary: w)
  case (Cons i "is")
  obtain config where c: "mk i = Inr config" "worker_config_ok opts i config" using assms(2) by blast
  from worker_make_ok [OF assms(1) c(2) Cons.prems] obtain wk w1 where
    1: "worker_make config w = Inr (wk, w1)" "wk_worker_id wk = i" "worker_built opts wk"
      "\<not> wk_started wk" "\<not> wk_thread wk" "quiet w1" by blast
  from Cons.IH [OF 1(6)] show ?case using c(1) 1 by fastforce
qed simp

lemma make_workers_fail: "\<forall>i. \<exists>e. mk i = Inl e \<Longrightarrow> is \<noteq> [] \<Longrightarrow> \<exists>e. make_workers mk is w = Inl e"
  by (cases "is") (simp, metis make_workers.simps(2) old.sum.simps(5))

text \<open>The state in which the program starts to serve.\<close>

definition started :: "nat \<Rightarrow> ServerOptions \<Rightarrow> 'b Env \<Rightarrow> bool" where
  "started n opts env \<longleftrightarrow>
     (let rt = en_runtime env in
      rt_inv rt \<and> is_running rt \<and> is_healthy (rt, en_world env) \<and> rt_routing_thread rt = InLoop \<and>
      sch_held (rt_scheduler rt) = [] \<and> map wk_worker_id (rt_workers rt) = [0..<n] \<and>
      (\<forall>wk \<in> set (rt_workers rt). wk_thread wk \<and> worker_built opts wk) \<and>
      sv_acceptor_open (en_server env) \<and> sv_accept_pending (en_server env) \<and> en_live env = [])"

lemma make_scheduler_ok:
  assumes "options_ok opts"
  shows "\<exists>s. make_scheduler opts = Inr s \<and> sch_inv s \<and> sch_held s = []"
proof -
  have c: "0 < unat (so_scheduler_capacity opts)" using assms by (simp add: options_ok_def unat_gt_0)
  then show ?thesis
    using wa_make_inv [of "unat (so_scheduler_capacity opts)" 8]
    by (auto simp: make_scheduler_def fifo_make_def make_queue_def bq_inv_def wa_make_def wa_held_def entries_def)
qed

lemma start_workers_built:
  "start_workers wks w = (st, wks', w') \<Longrightarrow> \<forall>wk \<in> set wks. worker_built opts wk \<Longrightarrow> \<forall>wk \<in> set wks'. worker_built opts wk"
  by (induction wks arbitrary: w wks' st)
    (auto simp: worker_start_def worker_built_def split: prod.splits if_splits)

lemma launch_ok:
  assumes opts: "options_ok opts" and w: "quiet w"
    and wks: "map wk_worker_id wks = [0..<n]" "0 < n"
      "\<forall>wk \<in> set wks. worker_built opts wk \<and> \<not> wk_started wk \<and> \<not> wk_thread wk"
    and net: "pf_make_address pf (so_host opts)" "pf_open_ec pf = NoError" "pf_bind_ec pf = NoError" "pf_listen_ec pf = NoError"
  shows "\<exists>env. launch pf opts (reg, wks, w) = Serving env \<and> started n opts env"
proof -
  let ?router = "ResidencyAwareRouter \<lparr>ra_resident_selections = 0, ra_no_eviction_load_selections = 0,
    ra_eviction_required_selections = 0\<rparr>"
  obtain s where s: "make_scheduler opts = Inr s" "sch_inv s" "sch_held s = []" using make_scheduler_ok [OF opts] by blast
  have "length wks = n" using arg_cong [OF wks(1), of length] by simp
  then have "distinct (map wk_worker_id wks)" "wks \<noteq> []" using wks(1,2) by auto
  then obtain index where "index_workers 0 (map Some wks) [] = Inr index"
    using index_workers_Inr_iff [of 0 "map Some wks" "[]"] by (auto simp: comp_def)
  then obtain rt where rt: "runtime_make (Some s) (Some ?router) (map Some wks) (Some reg) = Inr rt"
    using \<open>wks \<noteq> []\<close> by (simp add: runtime_make_def)
  note parts = runtime_make_parts [OF rt]
  have rw: "rt_workers rt = wks" using parts by (simp add: comp_def)
  obtain st rt1 w1 where run: "runtime_start (rt, w) = (st, rt1, w1)" by (metis prod.exhaust)
  note go = runtime_starts [OF rt s(2) _ run]
  obtain st2 wks2 w2 where s2: "start_workers wks w = (st2, wks2, w2)" by (metis prod.exhaust)
  have "\<forall>wk \<in> set wks. wk_thread wk = wk_started wk" using wks(3) by blast
  note S = start_workers_spec [OF s2 this]
  have rt1: "rt_workers rt1 = wks2" "rt_scheduler rt1 = s"
    using run s2 S parts rw by (auto simp: runtime_start_def)
  have "map wk_worker_id (rt_workers rt1) = [0..<n] \<and> (\<forall>wk \<in> set (rt_workers rt1). worker_built opts wk)"
    using S wks start_workers_built [OF s2] rt1(1) by auto
  then show ?thesis
    using go rw wks(3) w run rt s net rt1(2)
    by (simp add: launch_def started_def Let_def server_make_def server_run_def do_accept_def)
qed

lemma worker_count_pos: "options_ok opts \<Longrightarrow> 0 < d \<Longrightarrow> 0 < worker_count d opts"
  by (auto simp: options_ok_def worker_count_def unat_gt_0 split: option.splits)

lemma build_and_launch:
  assumes opts: "options_ok opts" and w: "quiet w" and n: "0 < n"
    and net: "pf_make_address pf (so_host opts)" "pf_open_ec pf = NoError" "pf_bind_ec pf = NoError" "pf_listen_ec pf = NoError"
    and mk: "if ok then \<forall>i. \<exists>config. mk i = Inr config \<and> worker_config_ok opts i config else \<forall>i. \<exists>e. mk i = Inl e"
  shows "case and_then (build_with reg mk n w) (launch pf opts) of
      Exit c e \<Rightarrow> c = 1 \<and> \<not> ok | Terminate e \<Rightarrow> False | Serving env \<Rightarrow> ok \<and> started n opts env"
proof (cases ok)
  case True
  then obtain wks w1 where 1: "make_workers mk [0..<n] w = Inr (wks, w1)" "map wk_worker_id wks = [0..<n]" "quiet w1"
    "\<forall>wk \<in> set wks. worker_built opts wk \<and> \<not> wk_started wk \<and> \<not> wk_thread wk"
    using make_workers_ok [OF opts _ w, of mk "[0..<n]"] mk by auto
  obtain env where "launch pf opts (reg, wks, w1) = Serving env" "started n opts env"
    using launch_ok [OF opts 1(3,2) n 1(4) net] by blast
  then show ?thesis using True 1(1) by (simp add: and_then_def build_with_def)
next
  case False
  then obtain e where "make_workers mk [0..<n] w = Inl e" using make_workers_fail [of mk "[0..<n]"] mk n by auto
  then show ?thesis using False by (simp add: and_then_def build_with_def)
qed

lemma synthetic_workers:
  "if wait_fits opts
   then \<forall>i. \<exists>config. make_synthetic_worker i reg kBudget opts = Inr config \<and> worker_config_ok opts i config
   else \<forall>i. \<exists>e. make_synthetic_worker i reg kBudget opts = Inl e"
  by (simp add: make_synthetic_worker_def make_batch_config_fits worker_config_ok_def Let_def)

lemma make_synthetic_registry_ok: "\<exists>reg. make_synthetic_registry = Some reg"
  by (simp add: make_synthetic_registry_def model_a_def model_b_def registry_add_def registry_contains_def registry_build_def)

lemma llama_config_valid:
  assumes "options_ok opts" "so_model_id opts \<noteq> []" "so_model_path opts \<noteq> []" "so_ctx_size opts \<noteq> 0"
  shows "status_ok (validate (llama_config opts)) \<longleftrightarrow> unat (so_max_batch_size opts) < 2 ^ 32"
proof -
  let ?n = "so_max_batch_size opts" and ?b = "max 512 (ucast (so_max_batch_size opts)) :: u32"
  have "?b \<noteq> 0"
  proof
    assume "?b = 0"
    then have "(512 :: u32) \<le> 0" using max.cobounded1 [of 512 "ucast ?n :: u32"] by (simp only:)
    then show False by simp
  qed
  moreover have "unat ?b < unat ?n \<longleftrightarrow> \<not> unat ?n < 2 ^ 32"
  proof (cases "unat ?n < 2 ^ 32")
    case True
    then have "unat (ucast ?n :: u32) = unat ?n" by (simp add: unsigned_ucast_eq take_bit_nat_eq_self_iff)
    then show ?thesis using True by (simp add: max_def word_le_nat_alt)
  next
    case False
    moreover have "unat ?b < 2 ^ 32" using unsigned_less [of ?b] by simp
    ultimately show ?thesis by linarith
  qed
  ultimately show ?thesis
    using assms
    by (auto simp: validate_def llama_config_def Let_def options_ok_def unat_gt_0 split: option.splits)
qed

lemma llama_workers:
  assumes "options_ok opts" "so_model_id opts \<noteq> []" "so_model_path opts \<noteq> []" "so_ctx_size opts \<noteq> 0"
  shows "if wait_fits opts \<and> unat (so_max_batch_size opts) < 2 ^ 32
   then \<forall>i. \<exists>config. make_llama_worker i reg kBudget True opts = Inr config \<and> worker_config_ok opts i config
   else \<forall>i. \<exists>e. make_llama_worker i reg kBudget True opts = Inl e"
  using llama_config_valid [OF assms]
  by (simp add: make_llama_worker_def make_batch_config_fits worker_config_ok_def llama_make_def Let_def)

lemma build_llama_cases:
  "if llama_model_given pf opts
   then \<exists>reg. build_llama pf opts w =
     build_with reg (\<lambda>i. make_llama_worker i reg kBudget True opts) (worker_count 1 opts) w
   else \<exists>e. build_llama pf opts w = Exit 1 e"
  by (auto simp: llama_model_given_def build_llama_def make_llama_registry_def registry_add_def registry_contains_def
      registry_build_def split: option.splits)

text \<open>The two backends one by one.\<close>

lemma synthetic_outcome:
  assumes opts: "options_ok opts" and w: "quiet w"
    and net: "pf_make_address pf (so_host opts)" "pf_open_ec pf = NoError" "pf_bind_ec pf = NoError" "pf_listen_ec pf = NoError"
  shows "case and_then (build_synthetic opts w) (launch pf opts) of
      Exit c e \<Rightarrow> c = 1 \<and> \<not> wait_fits opts | Terminate e \<Rightarrow> False
    | Serving env \<Rightarrow> wait_fits opts \<and> started (worker_count 2 opts) opts env"
proof -
  obtain reg where reg: "make_synthetic_registry = Some reg" using make_synthetic_registry_ok by blast
  show ?thesis
    unfolding build_synthetic_def reg option.case
    by (rule build_and_launch [OF opts w worker_count_pos [OF opts] net synthetic_workers [of opts reg]]) simp
qed

lemma llama_outcome:
  assumes opts: "options_ok opts" and w: "quiet w"
    and net: "pf_make_address pf (so_host opts)" "pf_open_ec pf = NoError" "pf_bind_ec pf = NoError" "pf_listen_ec pf = NoError"
  shows "case and_then (build_llama pf opts w) (launch pf opts) of
      Exit c e \<Rightarrow> c = 1 \<and> \<not> (wait_fits opts \<and> llama_ready pf opts) | Terminate e \<Rightarrow> False
    | Serving env \<Rightarrow> wait_fits opts \<and> llama_ready pf opts \<and> started (worker_count 1 opts) opts env"
proof (cases "llama_model_given pf opts")
  case True
  then obtain reg where b: "build_llama pf opts w =
      build_with reg (\<lambda>i. make_llama_worker i reg kBudget True opts) (worker_count 1 opts) w"
    using build_llama_cases [of pf opts w] by auto
  have "so_model_id opts \<noteq> []" "so_model_path opts \<noteq> []" "so_ctx_size opts \<noteq> 0"
    using True by (simp_all add: llama_model_given_def)
  note workers = llama_workers [OF opts this, of reg]
  have "case and_then (build_llama pf opts w) (launch pf opts) of
      Exit c e \<Rightarrow> c = 1 \<and> \<not> (wait_fits opts \<and> unat (so_max_batch_size opts) < 2 ^ 32) | Terminate e \<Rightarrow> False
    | Serving env \<Rightarrow> (wait_fits opts \<and> unat (so_max_batch_size opts) < 2 ^ 32) \<and> started (worker_count 1 opts) opts env"
    unfolding b by (rule build_and_launch [OF opts w worker_count_pos [OF opts] net workers]) simp
  then show ?thesis using True by (simp add: llama_ready_def split: outcome.splits)
next
  case False
  then show ?thesis using build_llama_cases [of pf opts w] by (auto simp: and_then_def llama_ready_def)
qed


section \<open>Shutting down\<close>

lemma try_cancel_grows: "grows w (snd (try_cancel a w))"
  unfolding try_cancel_def
  by (rule calm_grows) (simp add: calm_le_def perform_frame perform_settles)

lemma cancel_active_grows: "grows w (cancel_active p w)"
  using grows_trans [OF read_req_grows try_cancel_grows] read_req_grows
  by (simp add: cancel_active_def case_prod_beta split: option.split)

lemma session_shutdown_runtime:
  "en_runtime (snd (session_shutdown (hs, env))) = en_runtime env \<and>
   grows (en_world env) (en_world (snd (session_shutdown (hs, env))))"
  by (simp add: session_shutdown_def close_session_def cancel_active_grows)

lemma shutdown_sessions_runtime:
  "shutdown_sessions ks (objs, env) = (objs', env') \<Longrightarrow>
   en_runtime env' = en_runtime env \<and> grows (en_world env) (en_world env')"
proof (induction ks arbitrary: objs env)
  case (Cons k ks)
  obtain hs env1 where 1: "session_shutdown (objs k, env) = (hs, env1)" by fastforce
  then have "en_runtime env' = en_runtime env1 \<and> grows (en_world env1) (en_world env')" using Cons by simp
  then show ?case using session_shutdown_runtime [of "objs k" env] 1 grows_trans by auto
qed simp

lemma server_stop_runtime:
  "server_stop (objs, env) = (objs', env') \<Longrightarrow> en_runtime env' = en_runtime env \<and> grows (en_world env) (en_world env')"
  by (auto simp: server_stop_def Let_def split: prod.splits dest!: shutdown_sessions_runtime)


end
