(* ===== verification/AR_Tracking.thy ===== *)
theory AR_Tracking
  imports AR_Site
begin

text \<open>
  From the arrival of an inference request to its answer: the session that has submitted a request
  hears of its end, however the submission goes and whatever other threads do in the meantime.
\<close>

section \<open>Observed requests\<close>

text \<open>
  The observer is registered with the request, or has been called with a terminal snapshot among
  the calls beyond the first \<open>n\<close>.
\<close>

definition told :: "nat \<Rightarrow> observer \<Rightarrow> World \<Rightarrow> bool" where
  "told n ob w \<longleftrightarrow> n \<le> length (w_calls w) \<and>
     (\<exists>sn. (ob, sn) \<in> set (drop n (w_calls w)) \<and> is_terminal_state (sn_state sn))"

definition tracked :: "nat \<Rightarrow> observer \<Rightarrow> addr \<Rightarrow> World \<Rightarrow> bool" where
  "tracked n ob a w \<longleftrightarrow> n \<le> length (w_calls w) \<and>
     (if is_terminal (w_reqs w a) then told n ob w else ob \<in> set (rq_observers (w_reqs w a)))"

lemma told_le:
  assumes "world_le w w'" "told n ob w"
  shows "told n ob w'"
proof -
  obtain cs where "w_calls w' = w_calls w @ cs" using assms(1) by (auto simp: world_le_def)
  then show ?thesis using assms(2) by (auto simp: told_def)
qed

lemma calls_le: "world_le w w' \<Longrightarrow> n \<le> length (w_calls w) \<Longrightarrow> n \<le> length (w_calls w')"
  by (auto simp: world_le_def)

lemma tracked_settled:
  "world_le w w' \<Longrightarrow> is_terminal (w_reqs w a) \<Longrightarrow> tracked n ob a w \<Longrightarrow> tracked n ob a w'"
  using told_le [of w w' n ob] world_le_terminal [of w w' a] calls_le [of w w' n] by (simp add: tracked_def)

lemma op_locked_observers:
  assumes "op_locked x r = Some (r', (obs, sn))" "\<not> is_terminal r" "ob \<in> set (rq_observers r)"
  shows "if is_terminal r' then ob \<in> set obs \<and> is_terminal_state (sn_state sn) else ob \<in> set (rq_observers r')"
proof (cases x)
  case (OpTransition s)
  with assms show ?thesis
    by (auto simp: transition_locked_def try_transition_to_locked_def notify_observers_locked_def is_terminal_def
        split: if_splits option.splits)
next
  case (OpObserve ob')
  with assms show ?thesis by (auto simp: add_observer_locked_def is_terminal_def split: if_splits)
next
  case (OpSetDeadline d)
  with assms show ?thesis by (auto simp: set_deadline_def is_terminal_def)
qed (use assms in \<open>auto simp: settle_defs settle_locked_Some_iff is_terminal_def\<close>)

lemma env_apply_tracked: "tracked n ob a w \<Longrightarrow> tracked n ob a (env_apply e w)"
proof -
  assume t: "tracked n ob a w"
  show ?thesis
  proof (cases "is_terminal (w_reqs w a)")
    case True
    then show ?thesis using tracked_settled [OF env_apply_le] t by blast
  next
    case open_req: False
    show ?thesis
    proof (cases e)
      case (EnvReq a' x)
      show ?thesis
      proof (cases "op_locked x (w_reqs w a')")
        case None
        then show ?thesis using EnvReq t by simp
      next
        case (Some y)
        obtain r obs sn where y: "y = (r, (obs, sn))" by (cases y) auto
        show ?thesis
        proof (cases "a' = a")
          case True
          have "ob \<in> set (rq_observers (w_reqs w a))" using t open_req by (simp add: tracked_def)
          from op_locked_observers [OF _ open_req this] Some y True
          have "if is_terminal r then ob \<in> set obs \<and> is_terminal_state (sn_state sn) else ob \<in> set (rq_observers r)" by simp
          then show ?thesis
            using EnvReq Some y True t by (auto simp: tracked_def told_def invoke_observers_def split: if_splits)
        next
          case False
          then show ?thesis using EnvReq Some y t open_req by (simp add: tracked_def invoke_observers_def)
        qed
      qed
    qed (use t open_req in \<open>simp_all add: tracked_def\<close>)
  qed
qed

lemma interfere_tracked: "tracked n ob a w \<Longrightarrow> tracked n ob a (interfere w)"
proof (cases "w_env w")
  case (Cons acts rest)
  assume t: "tracked n ob a w"
  have "tracked n ob a v \<Longrightarrow> tracked n ob a (fold env_apply acts v)" for v
    by (induction acts arbitrary: v) (auto intro: env_apply_tracked)
  moreover have "tracked n ob a (w\<lparr>w_env := rest\<rparr>)" using t by (auto simp: tracked_def told_def split: if_splits)
  ultimately show ?thesis using Cons by (simp add: interfere_def)
qed (simp add: interfere_def)

lemma invoke_tracked: "tracked n ob a w \<Longrightarrow> tracked n ob a (invoke_observers obs sn w)"
  using told_le [OF invoke_observers_le, of n ob w obs sn] calls_le [OF invoke_observers_le, of n w obs sn]
  by (auto simp: tracked_def split: if_splits)

text \<open>An operation on the request itself tells the observer after the lock is released.\<close>

lemma perform_tracked:
  assumes t: "tracked n ob a w"
  shows "tracked n ob a (snd (perform x a w))"
proof (cases "op_locked x (w_reqs (interfere w) a)")
  case None
  then show ?thesis using interfere_tracked [OF t] by (simp add: perform_def Let_def)
next
  case (Some y)
  let ?w1 = "interfere w"
  obtain r obs sn where y: "y = (r, (obs, sn))" by (cases y) auto
  let ?w2 = "?w1\<lparr>w_reqs := (w_reqs ?w1)(a := r)\<rparr>"
  have res: "snd (perform x a w) = invoke_observers obs sn (interfere ?w2)" using Some y by (simp add: perform_def Let_def)
  have t1: "tracked n ob a ?w1" by (rule interfere_tracked [OF t])
  have le: "world_le ?w1 ?w2" using Some y by (intro update_req_le op_locked_evolves) simp
  consider (settled) "is_terminal (w_reqs ?w1 a)" | (ends) "\<not> is_terminal (w_reqs ?w1 a)" "is_terminal r"
    | (goes_on) "\<not> is_terminal (w_reqs ?w1 a)" "\<not> is_terminal r" by blast
  then show ?thesis
  proof cases
    case settled
    then have "tracked n ob a ?w2" using tracked_settled [OF le] t1 by blast
    then show ?thesis unfolding res by (intro invoke_tracked interfere_tracked)
  next
    case ends
    then have "ob \<in> set obs" "is_terminal_state (sn_state sn)"
      using op_locked_observers [of x "w_reqs ?w1 a" r obs sn ob] Some y t1 by (auto simp: tracked_def)
    moreover have "is_terminal (w_reqs (interfere ?w2) a)" using ends(2) world_le_terminal [OF interfere_le, of ?w2 a] by simp
    moreover have "n \<le> length (w_calls (interfere ?w2))"
      using calls_le [OF world_le_trans [OF le interfere_le]] t1 by (simp add: tracked_def)
    ultimately show ?thesis unfolding res by (auto simp: tracked_def told_def invoke_observers_def)
  next
    case goes_on
    then have "ob \<in> set (rq_observers r)"
      using op_locked_observers [of x "w_reqs ?w1 a" r obs sn ob] Some y t1 by (auto simp: tracked_def)
    then have "tracked n ob a ?w2" using goes_on t1 by (simp add: tracked_def)
    then show ?thesis unfolding res by (intro invoke_tracked interfere_tracked)
  qed
qed

lemma read_req_tracked: "tracked n ob a w \<Longrightarrow> tracked n ob a (snd (read_req b w))"
  by (simp add: read_req_def Let_def interfere_tracked)

lemma steady_now_tracked: "tracked n ob a w \<Longrightarrow> tracked n ob a (snd (steady_now w))"
  by (simp add: steady_now_def Let_def interfere_tracked)

lemma try_reject_tracked: "tracked n ob a w \<Longrightarrow> tracked n ob a (snd (try_reject e a w))"
  by (simp add: try_reject_def perform_tracked)

lemma transition_to_tracked: "tracked n ob a w \<Longrightarrow> tracked n ob a (snd (transition_to s a w))"
  using perform_tracked [of n ob a w "OpTransition s"] by (auto simp: transition_to_def split: prod.splits bool.splits)

lemma timeout_tracked: "tracked n ob a w \<Longrightarrow> tracked n ob a (snd (try_timeout_if_expired now a w))"
  using read_req_tracked [of n ob a w a] perform_tracked [of n ob a "snd (read_req a w)" OpTimeout]
  by (simp add: try_timeout_if_expired_def try_timeout_def case_prod_beta)

lemmas tracked_rules = read_req_tracked steady_now_tracked try_reject_tracked transition_to_tracked timeout_tracked

lemma admit_tracked: "tracked n ob a w \<Longrightarrow> tracked n ob a (snd (snd (admit enq (Some a) (s, w))))"
  by (simp add: admit_def case_prod_beta tracked_rules)

lemma submit_tracked: "tracked n ob a w \<Longrightarrow> tracked n ob a (snd (snd (submit (Some a) (rt, w))))"
  by (simp add: submit_def case_prod_beta tracked_rules admit_tracked)

text \<open>The same operations, seen as steps forward.\<close>

lemma forward_rules:
  "world_le u w \<Longrightarrow> world_le u (snd (read_req a w))" "world_le u w \<Longrightarrow> world_le u (snd (steady_now w))"
  "world_le u w \<Longrightarrow> world_le u (snd (try_reject e a w))" "world_le u w \<Longrightarrow> world_le u (snd (transition_to s a w))"
  "world_le u w \<Longrightarrow> world_le u (snd (try_timeout_if_expired now a w))"
  by (blast intro: world_le_trans world_mono)+

lemma admit_forward: "world_le u w \<Longrightarrow> world_le u (snd (snd (admit enq (Some a) (s, w))))"
  by (simp add: admit_def case_prod_beta forward_rules)

lemma submit_forward: "world_le u w \<Longrightarrow> world_le u (snd (snd (submit (Some a) (rt, w))))"
  by (simp add: submit_def case_prod_beta forward_rules admit_forward)

lemma observe_tracked:
  assumes "n \<le> length (w_calls w)"
  shows "tracked n ob a (add_observer ob a w)"
proof -
  let ?w1 = "interfere w"
  let ?r = "w_reqs ?w1 a"
  have n: "n \<le> length (w_calls ?w1)" by (rule calls_le [OF interfere_le assms])
  show ?thesis
  proof (cases "is_terminal ?r")
    case True
    then have res: "add_observer ob a w = invoke_observers [ob] (snapshot ?r) (interfere (?w1\<lparr>w_reqs := (w_reqs ?w1)(a := ?r)\<rparr>))"
      by (simp add: add_observer_def perform_def add_observer_locked_def is_terminal_def Let_def)
    let ?w2 = "interfere (?w1\<lparr>w_reqs := (w_reqs ?w1)(a := ?r)\<rparr>)"
    have le: "world_le ?w1 ?w2" by (rule world_le_trans [OF update_req_le interfere_le]) simp
    have "is_terminal (w_reqs ?w2 a)" "n \<le> length (w_calls ?w2)"
      using world_le_terminal [OF le True] calls_le [OF le n] by auto
    then show ?thesis unfolding res using True by (auto simp: tracked_def told_def invoke_observers_def is_terminal_def)
  next
    case False
    let ?r' = "?r\<lparr>rq_observers := rq_observers ?r @ [ob]\<rparr>"
    let ?w2 = "?w1\<lparr>w_reqs := (w_reqs ?w1)(a := ?r')\<rparr>"
    have "tracked n ob a ?w2" using False n by (simp add: tracked_def is_terminal_def)
    then show ?thesis
      using False by (simp add: add_observer_def perform_def add_observer_locked_def is_terminal_def Let_def
          invoke_tracked interfere_tracked)
  qed
qed

section \<open>Submitting from a session\<close>

text \<open>The state in which \<^verbatim>\<open>start_infer\<close> submits the request.\<close>

definition before_submit :: "string \<Rightarrow> InferRequestSpec \<Rightarrow> observer \<Rightarrow> addr \<Rightarrow> World \<Rightarrow> World" where
  "before_submit rid spec ob a w =
     (case steady_now (w\<lparr>w_reqs := (w_reqs w)(a := new_request rid (is_model_id spec) (is_prompt spec)
        (is_max_output_tokens spec))\<rparr>) of (now, w1) \<Rightarrow>
      add_observer ob a (snd (perform (OpSetDeadline (Some (deadline_after (is_timeout spec) now))) a w1)))"

lemma start_infer_submits:
  "\<exists>env1 rid. start_infer stream spec (hs, env) =
     submit_active (en_next_request env)
       (start_op (PTimer (en_next_request env)) (hs\<lparr>hs_stream_mode := stream, hs_active_request := Some (en_next_request env)\<rparr>),
        env1) \<and>
     en_runtime env1 = en_runtime env \<and> en_live env1 = en_live env \<and>
     en_world env1 = before_submit rid spec (hs_this hs) (en_next_request env) (en_world env)"
proof -
  let ?a = "en_next_request env"
  let ?rid = "fst (next_request_id (en_handler env))"
  let ?env1 = "env\<lparr>en_handler := snd (next_request_id (en_handler env)), en_next_request := ?a + 1,
      en_world := before_submit ?rid spec (hs_this hs) ?a (en_world env)\<rparr>"
  have "start_infer stream spec (hs, env) =
      submit_active ?a (start_op (PTimer ?a) (hs\<lparr>hs_stream_mode := stream, hs_active_request := Some ?a\<rparr>), ?env1)"
    by (simp add: start_infer_def allocate_request_def before_submit_def case_prod_beta Let_def)
  then show ?thesis by (intro exI [of _ ?env1] exI [of _ ?rid]) simp
qed

lemma before_submit_spec:
  assumes so: "sole_owner a w" and w'_def: "w' = before_submit rid spec ob a w"
  shows "tracked (length (w_calls w)) ob a w' \<and> sole_owner a w' \<and>
    (rq_state (w_reqs w' a) = Received \<or> is_terminal (w_reqs w' a)) \<and>
    rq_model_id (w_reqs w' a) = is_model_id spec \<and> rq_prompt (w_reqs w' a) = is_prompt spec \<and>
    rq_max_output_tokens (w_reqs w' a) = is_max_output_tokens spec"
proof -
  let ?r = "new_request rid (is_model_id spec) (is_prompt spec) (is_max_output_tokens spec)"
  let ?w0 = "w\<lparr>w_reqs := (w_reqs w)(a := ?r)\<rparr>"
  obtain now w1 where 1: "steady_now ?w0 = (now, w1)" by fastforce
  let ?w2 = "snd (perform (OpSetDeadline (Some (deadline_after (is_timeout spec) now))) a w1)"
  have w': "w' = snd (perform (OpObserve ob) a ?w2)" using 1 by (simp add: w'_def before_submit_def add_observer_def)
  have so0: "sole_owner a ?w0" using so by (simp add: sole_owner_def)
  have s1: "settles a ?w0 w1" using steady_now_settles [OF so0] 1 by simp
  have s2: "settles a w1 ?w2" by (rule perform_settles [OF sole_owner_le [OF so0 settles_le [OF s1]]]) simp
  have s12: "settles a ?w0 ?w2" by (rule settles_trans [OF s1 s2])
  have s3: "settles a ?w2 w'" unfolding w' by (rule perform_settles [OF sole_owner_le [OF so0 settles_le [OF s12]]]) simp
  have s: "settles a ?w0 w'" by (rule settles_trans [OF s12 s3])
  have "length (w_calls w) \<le> length (w_calls ?w2)" using calls_le [OF settles_le [OF s12], of "length (w_calls w)"] by simp
  then have "tracked (length (w_calls w)) ob a w'" using observe_tracked [of _ ?w2 ob a] by (simp add: w' add_observer_def)
  moreover have "evolves ?r (w_reqs w' a)" using world_le_evolves [OF settles_le [OF s], of a] by simp
  ultimately show ?thesis
    using s so0 by (auto simp: settles_def evolves_def new_request_def intro: sole_owner_le)
qed

lemma submit_active_spec:
  assumes rt: "rt_inv (en_runtime env)" and so: "sole_owner a (en_world env)"
    and new: "rq_state (w_reqs (en_world env) a) = Received \<or> is_terminal (w_reqs (en_world env) a)"
    and t: "tracked n ob a (en_world env)" and run: "submit_active a (hs, env) = (hs', env')"
  shows "world_le (en_world env) (en_world env') \<and> tracked n ob a (en_world env') \<and> en_live env' = en_live env \<and>
    (is_terminal (w_reqs (en_world env') a) \<or>
     Some a \<in> set (sch_held (rt_scheduler (en_runtime env'))) \<and> hs' = arm_disconnect_watch hs)"
proof -
  let ?w = "en_world env"
  obtain st rt1 w1 where 1: "submit (Some a) (en_runtime env, ?w) = (st, rt1, w1)" by (metis prod_cases3)
  define w3 where "w3 = (if \<not> status_ok st
      then (if \<not> is_terminal (fst (read_req a w1)) then snd (try_reject st a (snd (read_req a w1))) else snd (read_req a w1))
      else w1)"
  have fin: "hs' = (if is_terminal (fst (read_req a w3)) then hs else arm_disconnect_watch hs)"
    "en_world env' = snd (read_req a w3)" "en_runtime env' = rt1" "en_live env' = en_live env"
    using run 1 by (auto simp: submit_active_def w3_def case_prod_beta Let_def)
  have r: "fst (read_req a w3) = w_reqs (en_world env') a" using fin(2) by (simp add: read_req_def Let_def)
  have le1: "world_le ?w w1" using submit_forward [OF world_le_refl, of ?w a "en_runtime env"] 1 by simp
  have le3: "world_le w1 w3" unfolding w3_def by (auto intro!: forward_rules)
  have le: "world_le w3 (en_world env')" unfolding fin(2) by (rule world_mono)
  have "tracked n ob a w1" using submit_tracked [OF t, of "en_runtime env"] 1 by simp
  then have "tracked n ob a (en_world env')" unfolding fin(2) w3_def by (auto intro!: tracked_rules)
  moreover have "is_terminal (w_reqs w1 a) \<or> Some a \<in> set (sch_held (rt_scheduler rt1))"
  proof (cases "is_terminal (w_reqs ?w a)")
    case True
    then show ?thesis using world_le_terminal [OF le1] by blast
  next
    case False
    then have "rq_state (w_reqs ?w a) = Received" using new by blast
    from submit_accounting [OF rt so this 1] show ?thesis
      by (metis insertI1 set_mset_add_mset_insert set_mset_mset)
  qed
  ultimately show ?thesis
    using fin r le world_le_trans [OF world_le_trans [OF le1 le3] le] world_le_terminal [OF world_le_trans [OF le3 le]] by auto
qed

lemma start_infer_spec:
  assumes rt: "rt_inv (en_runtime env)" and so: "sole_owner (en_next_request env) (en_world env)"
    and run: "start_infer stream spec (hs, env) = (hs', env')"
  shows "let a = en_next_request env; r = w_reqs (en_world env') a in
    hs_active_request hs' = Some a \<and> rq_model_id r = is_model_id spec \<and> rq_prompt r = is_prompt spec \<and>
    rq_max_output_tokens r = is_max_output_tokens spec \<and> en_live env' = en_live env \<and>
    tracked (length (w_calls (en_world env))) (hs_this hs) a (en_world env') \<and>
    (is_terminal r \<or> Some a \<in> set (sch_held (rt_scheduler (en_runtime env'))) \<and>
       (hs_closed hs \<or> hs_disconnect_watch_armed hs \<or> PWait \<in> set (hs_pending hs')))"
proof -
  let ?a = "en_next_request env"
  let ?hs1 = "start_op (PTimer ?a) (hs\<lparr>hs_stream_mode := stream, hs_active_request := Some ?a\<rparr>)"
  obtain env1 rid where 1: "submit_active ?a (?hs1, env1) = (hs', env')" "en_runtime env1 = en_runtime env"
    "en_live env1 = en_live env" "en_world env1 = before_submit rid spec (hs_this hs) ?a (en_world env)"
    using start_infer_submits [of stream spec hs env] run by metis
  note before = before_submit_spec [OF so 1(4)]
  have rt1: "rt_inv (en_runtime env1)" using rt 1(2) by simp
  have so1: "sole_owner ?a (en_world env1)"
    and new: "rq_state (w_reqs (en_world env1) ?a) = Received \<or> is_terminal (w_reqs (en_world env1) ?a)"
    and t: "tracked (length (w_calls (en_world env))) (hs_this hs) ?a (en_world env1)" using before by blast+
  note after = submit_active_spec [OF rt1 so1 new t 1(1)]
  have "evolves (w_reqs (en_world env1) ?a) (w_reqs (en_world env') ?a)" using after world_le_evolves by blast
  moreover have "hs_active_request hs' = Some ?a"
    using fst_submit_active [of ?a ?hs1 env1] 1(1) by (auto simp: arm_disconnect_watch_def start_op_def)
  moreover have "hs' = arm_disconnect_watch ?hs1 \<Longrightarrow>
      hs_closed hs \<or> hs_disconnect_watch_armed hs \<or> PWait \<in> set (hs_pending hs')"
    by (simp add: arm_disconnect_watch_def start_op_def)
  ultimately show ?thesis using before after 1(3) by (auto simp: Let_def evolves_def)
qed

text \<open>
  C4: No inference request is lost between the client and the scheduler. When an open session has
  read a well-formed request, it has created a request with the fields of the body, and then one
  of two things holds, however the submission goes and whatever other threads do. If the request is
  settled, the news of it has been posted to the session, which answers it. Otherwise the scheduler
  holds the request, the session is registered to hear of its end, and it watches its client.
\<close>

theorem inference_tracked:
  assumes hs: "k \<in> set (en_live env)" "hs_this (objs k) = k" "\<not> hs_closed (objs k)" "\<not> hs_disconnect_watch_armed (objs k)"
    and rt: "rt_inv (en_runtime env)" and so: "sole_owner (en_next_request env) (en_world env)"
    and req: "co_ec c = NoError" "ht_method (co_request c) = VPost"
      "ht_target (co_request c) = ''/v1/infer'' \<or> ht_target (co_request c) = ''/v1/infer/stream''"
      "parse_infer_request lib (ht_body (co_request c)) = Inr spec"
    and run: "complete_op lib k PRead c (objs, env) = Inr (objs', env')"
  shows "let a = en_next_request env; r = w_reqs (en_world env') a in
    hs_active_request (objs' k) = Some a \<and> rq_model_id r = is_model_id spec \<and> rq_prompt r = is_prompt spec \<and>
    rq_max_output_tokens r = is_max_output_tokens spec \<and> k \<in> set (en_live env') \<and>
    (if is_terminal r
     then \<exists>sn. PUpdate sn \<in> set (hs_pending (objs' k)) \<and> is_terminal_state (sn_state sn)
     else k \<in> set (rq_observers r) \<and> Some a \<in> set (sch_held (rt_scheduler (en_runtime env'))) \<and>
       PWait \<in> set (hs_pending (objs' k)))"
proof -
  let ?n = "length (w_calls (en_world env))"
  let ?stream = "ht_target (co_request c) = ''/v1/infer/stream''"
  let ?hs = "(objs k)\<lparr>hs_pending := remove1 PRead (hs_pending (objs k)), hs_stream_mode := ?stream\<rparr>"
  obtain hs1 env1 where 1: "start_infer ?stream spec (?hs, env) = (hs1, env1)" by fastforce
  then have site: "(objs', env') = destroy_unused (post_updates ?n (objs(k := hs1), env1))"
    using run req by (auto simp: complete_op_def on_read_def handle_request_def Let_def)
  note spec = start_infer_spec [OF rt so 1, unfolded Let_def]
  have live: "k \<in> set (en_live env1)" using spec hs(1) by simp
  then have o: "objs' k = hs1\<lparr>hs_pending := hs_pending hs1 @ updates_for k (drop ?n (w_calls (en_world env1)))\<rparr>"
    "en_world env' = en_world env1" "en_runtime env' = en_runtime env1"
    "k \<in> set (en_live env') \<longleftrightarrow> list_ex keeps_alive (hs_pending (objs' k))"
    using site by (simp_all add: destroy_unused_def post_updates_def)
  have told: "\<exists>sn. PUpdate sn \<in> set (hs_pending (objs' k)) \<and> is_terminal_state (sn_state sn)" if "told ?n k (en_world env1)"
    using that by (force simp: o(1) told_def updates_for_def)
  have alive: "k \<in> set (en_live env')" if "p \<in> set (hs_pending (objs' k))" "keeps_alive p" for p
    using that o(4) by (auto simp: list_ex_iff)
  have strong: "keeps_alive (PUpdate sn)" "keeps_alive PWait" for sn by (simp_all add: keeps_alive_def)
  have active: "hs_active_request (objs' k) = hs_active_request hs1" using o(1) by simp
  show ?thesis
  proof (cases "is_terminal (w_reqs (en_world env1) (en_next_request env))")
    case True
    then have "told ?n k (en_world env1)" using spec hs(2) by (simp add: tracked_def)
    from told [OF this] show ?thesis using True spec alive strong(1) active o(2,3) unfolding Let_def by auto
  next
    case False
    then have "PWait \<in> set (hs_pending (objs' k))" "k \<in> set (rq_observers (w_reqs (en_world env1) (en_next_request env)))"
      using spec hs o(1) by (auto simp: tracked_def)
    then show ?thesis using False spec alive strong(2) active o(2,3) unfolding Let_def by auto
  qed
qed

end
