(* ===== verification/AR_Site_Examples.thy ===== *)
theory AR_Site_Examples
  imports AR_Tracking
begin

text \<open>
  Concrete runs of the HTTP interface, which show that the hypotheses of the theorems about
  sessions can be met.
\<close>

section \<open>A streamed request\<close>

text \<open>A library that prints every value alike and reads the same inference request from every text.\<close>

definition example_lib_json :: JsonLib where
  "example_lib_json =
     \<lparr>jl_parse = \<lambda>_. Inr (JObject [(''model_id'', JString ''m''), (''prompt'', JString ''p'')]), jl_dump = \<lambda>_. Inr ''{}''\<rparr>"

definition example_spec :: InferRequestSpec where
  "example_spec = \<lparr>is_model_id = ''m'', is_prompt = ''p'', is_max_output_tokens = 16, is_timeout = 30000\<rparr>"

definition example_server :: HttpServer where
  "example_server = server_run (projr (server_make NoError NoError NoError))"

definition example_env :: "SyntheticModelBackend Env" where
  "example_env =
     \<lparr>en_runtime =
        \<lparr>rt_scheduler = Fifo \<lparr>bq_capacity = 4, bq_queue = [], bq_closed = False\<rparr>, rt_router = LeastLoadedRouter,
         rt_workers = [], rt_worker_index = [], rt_registry = [], rt_routing_thread = InLoop, rt_accepting = True,
         rt_started = True\<rparr>,
      en_world = fresh_world (\<lambda>_. new_request [] [] [] 0), en_handler = handler_make, en_server = example_server,
      en_live = [1], en_next_request = 4, en_next_session = 2\<rparr>"

definition example_done :: completion where
  "example_done =
     \<lparr>co_ec = NoError, co_request = \<lparr>ht_method = VPost, ht_target = ''/v1/infer/stream'', ht_body = []\<rparr>,
      co_probe_ec = Eof, co_probe_bytes = 0\<rparr>"

definition handled :: "pending_op \<Rightarrow> HttpSession \<times> SyntheticModelBackend Env \<Rightarrow> HttpSession \<times> SyntheticModelBackend Env" where
  "handled p se =
     projr (run_handler example_lib_json p example_done ((fst se)\<lparr>hs_pending := remove1 p (hs_pending (fst se))\<rparr>, snd se))"

definition queued_snapshot :: RequestSnapshot where
  "queued_snapshot = \<lparr>sn_request_id = ''req-1'', sn_model_id = ''m'', sn_state = Queued, sn_result = None\<rparr>"

definition fresh_session :: "HttpSession \<times> SyntheticModelBackend Env" where
  "fresh_session = (session_start (session_make 1), example_env)"

definition submitted_session :: "HttpSession \<times> SyntheticModelBackend Env" where
  "submitted_session = handled PRead fresh_session"

definition notified_session :: "HttpSession \<times> SyntheticModelBackend Env" where
  "notified_session =
     ((fst submitted_session)\<lparr>hs_pending := hs_pending (fst submitted_session) @ [PUpdate queued_snapshot]\<rparr>,
      snd submitted_session)"

text \<open>The update is handled, and the headers and the event are written.\<close>

definition streaming_session :: "HttpSession \<times> SyntheticModelBackend Env" where
  "streaming_session = handled PWrite (handled PWrite (handled (PUpdate queued_snapshot) notified_session))"

lemmas world_eval =
  interfere_def steady_now_def read_req_def perform_def try_timeout_if_expired_def try_reject_def transition_to_def
  add_observer_def fresh_world_def invoke_observers_def locked_defs is_valid_transition_def is_terminal_def
  new_request_def snapshot_def

lemmas session_eval =
  session_start_def do_read_def session_make_def start_op_def emit_def arm_disconnect_watch_def stop_disconnect_watch_def

lemmas submit_eval =
  start_infer_def next_request_id_def allocate_request_def submit_active_def submit_def admit_def deadline_after_def
  fifo_enqueue_def try_push_def push_back_def handler_make_def

lemma example_parse: "parse_infer_request example_lib_json s = Inr example_spec"
  by (simp add: parse_infer_request_def example_lib_json_def known_field_def read_spec_def string_field_def
      bounded_field_def example_spec_def)

lemma example_braces: "braces example_lib_json"
  by (simp add: braces_def example_lib_json_def)

lemma example_read:
  "on_read example_lib_json (co_ec example_done) (co_request example_done) (hs, env) =
     Inr (start_infer True example_spec (hs\<lparr>hs_stream_mode := True\<rparr>, env))"
  by (simp add: on_read_def handle_request_def example_done_def example_parse)

definition submitted_env :: "SyntheticModelBackend Env" where
  "submitted_env =
     example_env\<lparr>en_handler := \<lparr>rh_next_id = 2\<rparr>, en_next_request := 5,
       en_runtime := (en_runtime example_env)\<lparr>rt_scheduler := Fifo \<lparr>bq_capacity = 4, bq_queue = [Some 4], bq_closed = False\<rparr>\<rparr>,
       en_world := (en_world example_env)\<lparr>
         w_reqs := (\<lambda>_. new_request [] [] [] 0)(4 := (new_request (''req-'' @ to_base 10 1) ''m'' ''p'' 16)
           \<lparr>rq_state := Queued, rq_deadline := Some 30000000000, rq_observers := [1]\<rparr>),
         w_calls := [(1, \<lparr>sn_request_id = ''req-'' @ to_base 10 1, sn_model_id = ''m'', sn_state = Queued, sn_result = None\<rparr>)]\<rparr>\<rparr>"

lemma submitted_session_eq:
  "submitted_session =
     ((session_make 1)\<lparr>hs_active_request := Some 4, hs_stream_mode := True, hs_disconnect_watch_armed := True,
        hs_disconnect_watch_active := True, hs_pending := [PTimer 4, PWait]\<rparr>, submitted_env)"
proof -
  let ?hs = "(session_make 1)\<lparr>hs_stream_mode := True\<rparr>"
  have "submitted_session = start_infer True example_spec (?hs, example_env)"
    by (simp add: submitted_session_def handled_def fresh_session_def example_read session_eval)
  also have "\<dots> = ((session_make 1)\<lparr>hs_active_request := Some 4, hs_stream_mode := True, hs_disconnect_watch_armed := True,
        hs_disconnect_watch_active := True, hs_pending := [PTimer 4, PWait]\<rparr>, submitted_env)"
    unfolding example_env_def submitted_env_def example_spec_def
    by (simp add: submit_eval world_eval session_eval Let_def)
  finally show ?thesis .
qed

lemma submitted_hs:
  "fst submitted_session = (session_make 1)\<lparr>hs_active_request := Some 4, hs_stream_mode := True,
     hs_disconnect_watch_armed := True, hs_disconnect_watch_active := True, hs_pending := [PTimer 4, PWait]\<rparr>"
  "rq_state (w_reqs (en_world (snd submitted_session)) 4) = Queued"
  by (simp_all add: submitted_session_eq submitted_env_def)

lemma example_event: "serialize_state_event example_lib_json sn = Inr (''{}'' @ newline)"
  "serialize_terminal_event example_lib_json sn = Inr (''{}'' @ newline)"
  by (simp_all add: serialize_state_event_def serialize_terminal_event_def event_line_def example_lib_json_def)

lemma example_update:
  "\<exists>hs'. run_handler example_lib_json (PUpdate queued_snapshot) example_done (hs, env) = Inr (hs', env)"
  by (simp add: on_state_update_def example_event queued_snapshot_def Let_def)

lemma kHeaders_start: "kHeaders \<noteq> []" "prefix ''HTTP/1.1'' kHeaders"
  by (simp_all add: kHeaders_def)

lemma streaming_hs:
  "hs_pending (fst streaming_session) = [PTimer 4, PWait]" "\<not> hs_disconnect_watch_active (fst streaming_session)"
  "hs_wire (fst streaming_session) = [WBytes kHeaders, WBytes (frame (''{}'' @ newline))]"
  "en_world (snd streaming_session) = en_world (snd submitted_session)"
  by (simp_all add: streaming_session_def handled_def notified_session_def submitted_hs on_state_update_def
      start_stream_def queue_write_def do_write_def on_write_def example_event example_done_def queued_snapshot_def
      kHeaders_start session_eval Let_def)

lemma handled_step:
  assumes "p \<in> set (hs_pending hs)" "\<not> isl (run_handler example_lib_json p example_done (hs\<lparr>hs_pending := remove1 p (hs_pending hs)\<rparr>, env))"
  shows "session_step example_lib_json (hs, env) (handled p (hs, env))"
proof (rule session_step.completes [OF assms(1)])
  show "run_handler example_lib_json p example_done (hs\<lparr>hs_pending := remove1 p (hs_pending hs)\<rparr>, env) = Inr (handled p (hs, env))"
    using assms(2) by (simp add: handled_def)
qed

lemma submitted_run: "(session_step example_lib_json)\<^sup>*\<^sup>* (session_start (session_make 1), example_env) submitted_session"
proof -
  have "session_step example_lib_json fresh_session submitted_session"
    unfolding submitted_session_def fresh_session_def by (rule handled_step) (simp_all add: session_eval example_read)
  then show ?thesis unfolding fresh_session_def by blast
qed

lemma streaming_run: "(session_step example_lib_json)\<^sup>*\<^sup>* (session_start (session_make 1), example_env) streaming_session"
proof -
  let ?u = "handled (PUpdate queued_snapshot) notified_session" and ?w = "handled PWrite (handled (PUpdate queued_snapshot) notified_session)"
  have active: "hs_active_request (fst submitted_session) \<noteq> None" by (simp add: submitted_hs)
  have "session_step example_lib_json submitted_session notified_session"
    using session_step.posted [OF active, of example_lib_json "snd submitted_session" queued_snapshot]
    by (simp add: notified_session_def)
  moreover have "session_step example_lib_json notified_session ?u"
    using handled_step [of "PUpdate queued_snapshot" "fst notified_session" "snd notified_session"]
    by (simp add: notified_session_def on_state_update_def example_event queued_snapshot_def Let_def)
  moreover have "PWrite \<in> set (hs_pending (fst ?u))" "PWrite \<in> set (hs_pending (fst ?w))"
    by (simp_all add: handled_def notified_session_def submitted_hs on_state_update_def start_stream_def queue_write_def
        do_write_def on_write_def example_event example_done_def queued_snapshot_def kHeaders_start session_eval Let_def)
  then have "session_step example_lib_json ?u ?w" "session_step example_lib_json ?w streaming_session"
    unfolding streaming_session_def using handled_step [of PWrite "fst ?u" "snd ?u"] handled_step [of PWrite "fst ?w" "snd ?w"]
    by simp_all
  ultimately show ?thesis using submitted_run by (meson rtranclp.rtrancl_into_rtrancl)
qed

section \<open>What the client gets\<close>

theorem response_framing_witness:
  "\<exists>chunks fin. read_stream (wire_text (hs_wire (fst streaming_session))) = Some (chunks, fin)"
proof -
  have run: "(session_step example_lib_json)\<^sup>*\<^sup>* (session_start (session_make 1), example_env)
      (fst streaming_session, snd streaming_session)" using streaming_run by simp
  show ?thesis using response_framing [OF example_braces run] streaming_hs(3) by auto
qed

definition completed_snapshot :: RequestSnapshot where
  "completed_snapshot = queued_snapshot\<lparr>sn_state := Completed\<rparr>"

theorem settled_request_answered_witness:
  "\<exists>hs1. on_state_update example_lib_json completed_snapshot (fst submitted_session) = Inr hs1 \<and>
     hs_closed (fst (finish_writes example_lib_json example_done (length (hs_write_queue hs1) + 1) (hs1, snd submitted_session)))"
proof -
  let ?hs = "fst submitted_session"
  have run: "(session_step example_lib_json)\<^sup>*\<^sup>* (session_start (session_make 1), example_env) (?hs, snd submitted_session)"
    using submitted_run by simp
  have st: "\<not> hs_closed ?hs" "hs_active_request ?hs \<noteq> None" "\<not> hs_json_response_started ?hs"
    "[] \<notin> set (hs_write_queue ?hs)" "WBytes last_chunk \<notin> set (hs_wire ?hs)"
    by (simp_all add: submitted_hs session_make_def)
  have snap: "is_terminal_state (sn_state completed_snapshot)" by (simp add: completed_snapshot_def)
  obtain hs1 where upd: "on_state_update example_lib_json completed_snapshot ?hs = Inr hs1"
    using st(1) snap by (simp add: on_state_update_def submitted_hs example_event Let_def)
  have ok: "co_ec example_done = NoError" by (simp add: example_done_def)
  show ?thesis
    using settled_request_answered [OF example_braces run st snap upd ok] upd
    by (simp add: Let_def del: finish_writes.simps)
qed

section \<open>A client that leaves\<close>

theorem disconnect_cancels_witness:
  "let run = on_peer_wait NoError Eof 0 submitted_session in hs_closed (fst run) \<and> is_terminal (w_reqs (en_world (snd run)) 4)"
proof -
  let ?run = "on_peer_wait NoError Eof 0 submitted_session"
  have hs: "\<not> hs_closed (fst submitted_session)" "hs_disconnect_watch_active (fst submitted_session)"
    "hs_active_request (fst submitted_session) = Some 4" by (simp_all add: submitted_hs session_make_def)
  have run: "on_peer_wait NoError Eof 0 (fst submitted_session, snd submitted_session) = (fst ?run, snd ?run)" by simp
  show ?thesis using disconnect_cancels [OF hs _ run] by (simp add: Let_def)
qed

theorem stream_abandons_request_witness:
  "let site = projr (complete_op example_lib_json 1 PWait example_done (\<lambda>_. fst streaming_session, snd streaming_session))
   in 1 \<notin> set (en_live (snd site)) \<and> rq_state (w_reqs (en_world (snd site)) 4) = Queued"
proof -
  let ?run = "complete_op example_lib_json 1 PWait example_done (\<lambda>_. fst streaming_session, snd streaming_session)"
  have "\<not> isl ?run" by (simp add: complete_op_def Let_def split: prod.splits)
  then have run: "?run = Inr (fst (projr ?run), snd (projr ?run))" by simp
  show ?thesis
    using stream_abandons_request [OF streaming_hs(1,2) run] streaming_hs(4) submitted_hs(2) by (simp add: Let_def)
qed

section \<open>Arrival of a request\<close>

text \<open>The same session in front of a runtime with two workers.\<close>

definition demo_env :: "SyntheticModelBackend Env" where
  "demo_env = example_env\<lparr>en_runtime := fst (demo_started demo_workload)\<rparr>"

theorem inference_tracked_witness:
  "let site = projr (complete_op example_lib_json 1 PRead example_done (\<lambda>k. session_start (session_make k), demo_env))
   in hs_active_request (fst site 1) = Some 4 \<and> rq_prompt (w_reqs (en_world (snd site)) 4) = ''p''"
proof -
  let ?objs = "\<lambda>k. session_start (session_make k)"
  let ?run = "complete_op example_lib_json 1 PRead example_done (?objs, demo_env)"
  have hs: "1 \<in> set (en_live demo_env)" "hs_this (?objs 1) = 1" "\<not> hs_closed (?objs 1)"
    "\<not> hs_disconnect_watch_armed (?objs 1)" by (simp_all add: demo_env_def example_env_def session_eval)
  have rt: "rt_inv (en_runtime demo_env)" using demo_started_inv by (simp add: demo_env_def)
  have so: "sole_owner (en_next_request demo_env) (en_world demo_env)"
    by (simp add: demo_env_def example_env_def sole_owner_def fresh_world_def)
  have req: "co_ec example_done = NoError" "ht_method (co_request example_done) = VPost"
    "ht_target (co_request example_done) = ''/v1/infer'' \<or> ht_target (co_request example_done) = ''/v1/infer/stream''"
    "parse_infer_request example_lib_json (ht_body (co_request example_done)) = Inr example_spec"
    by (simp_all add: example_done_def example_parse)
  have "\<not> isl ?run" by (simp add: complete_op_def example_read Let_def split: prod.splits)
  then have run: "?run = Inr (fst (projr ?run), snd (projr ?run))" by simp
  have "en_next_request demo_env = 4" "is_prompt example_spec = ''p''"
    by (simp_all add: demo_env_def example_env_def example_spec_def)
  then show ?thesis using inference_tracked [OF hs rt so req run] unfolding Let_def by simp
qed

section \<open>Stopping\<close>

definition accepted_site :: "SyntheticModelBackend Site" where
  "accepted_site = on_accept NoError (session_make, example_env\<lparr>en_live := []\<rparr>)"

lemma accepted_run: "(site_step example_lib_json)\<^sup>*\<^sup>* (session_make, example_env\<lparr>en_live := []\<rparr>) accepted_site"
proof -
  have "\<not> sv_ioc_stopped example_server" "sv_accept_pending example_server" by code_simp+
  then have "site_step example_lib_json (session_make, example_env\<lparr>en_live := []\<rparr>) accepted_site"
    unfolding accepted_site_def by (intro site_step.accepts) (simp_all add: example_env_def)
  then show ?thesis by blast
qed

lemma server_stop_closes_witness:
  "let site = server_stop accepted_site in hs_closed (fst site 2) \<and> sv_ioc_stopped (en_server (snd site))"
proof -
  let ?site = "server_stop accepted_site"
  have init: "en_live (example_env\<lparr>en_live := []\<rparr>) = []" by simp
  have reach: "(site_step example_lib_json)\<^sup>*\<^sup>* (session_make, example_env\<lparr>en_live := []\<rparr>) (fst accepted_site, snd accepted_site)"
    using accepted_run by simp
  have run: "server_stop (fst accepted_site, snd accepted_site) = (fst ?site, snd ?site)" by simp
  have "\<not> sv_stopping example_server" by code_simp
  then have "2 \<in> set (en_live (snd accepted_site))"
    by (simp add: accepted_site_def on_accept_def do_accept_def example_env_def Let_def)
  then show ?thesis using server_stop_closes [OF init reach run] by (simp add: Let_def)
qed

end
