(* ===== verification/AR_Llama_Props.thy ===== *)
theory AR_Llama_Props
  imports AR_Llama
begin

text \<open>
  What the llama.cpp backend does for every behaviour of the library: the batches it decodes
  stay within their arrays and within the context, the tokens of every sequence are decoded at
  consecutive positions with the prompt first, and every request of a batch is answered.
\<close>

section \<open>Configuration and loading\<close>

definition model_valid :: "nat \<Rightarrow> string \<times> LlamaModelConfig \<Rightarrow> bool" where
  "model_valid max_sequences x =
     (case x of (model_id, model) \<Rightarrow>
        model_id \<noteq> [] \<and> lm_gguf_path model \<noteq> [] \<and> lm_context_tokens_per_sequence model \<noteq> 0 \<and>
        lm_n_ubatch model \<noteq> 0 \<and> lm_n_ubatch model \<le> lm_n_batch model \<and>
        max_sequences \<le> unat (lm_n_batch model) \<and>
        (\<forall>n. lm_n_threads model = Some n \<longrightarrow> 0 < n) \<and> (\<forall>n. lm_n_threads_batch model = Some n \<longrightarrow> 0 < n))"

lemma validate_models_iff:
  "status_ok (validate_models n models) \<longleftrightarrow> (\<forall>x \<in> set models. model_valid n x)"
proof (induction n models rule: validate_models.induct)
  case (2 n model_id model models)
  have "lm_n_ubatch model \<le> lm_n_batch model \<Longrightarrow> lm_n_ubatch model \<noteq> 0 \<Longrightarrow> lm_n_batch model \<noteq> 0"
    by auto
  then show ?case using 2 by (auto simp: model_valid_def not_le not_less split: option.splits)
qed simp

lemma validate_iff:
  "status_ok (validate config) \<longleftrightarrow>
   1 \<le> lc_max_sequences config \<and> lc_models config \<noteq> [] \<and>
   (\<forall>x \<in> set (lc_models config). model_valid (lc_max_sequences config) x)"
  by (auto simp: validate_def validate_models_iff)

lemma checked_mul_u32_spec:
  "checked_mul_u32 a b = (if unat a * unat b < 2 ^ 32 then Some (a * b) else None)"
proof (cases "a = 0 \<or> b = 0")
  case False
  then have b: "0 < unat b" by (simp add: word_neq_0_conv unat_gt_0)
  have "unat ((- 1 :: u32) div b) = (2 ^ 32 - 1) div unat b"
    by (simp add: unat_div unsigned_minus_1_eq_mask mask_eq_exp_minus_1)
  then have "a > (- 1) div b \<longleftrightarrow> (2 ^ 32 - 1) div unat b < unat a"
    by (simp add: word_less_nat_alt)
  also have "\<dots> \<longleftrightarrow> \<not> unat a * unat b < 2 ^ 32"
    using b by (simp add: div_less_iff_less_mult not_less) presburger
  finally show ?thesis using False by (simp add: checked_mul_u32_def)
qed (auto simp: checked_mul_u32_def)

section \<open>Where the tokens of a sequence are decoded\<close>

definition of_seq :: "nat \<Rightarrow> BatchToken list \<Rightarrow> BatchToken list" where
  "of_seq sid toks = filter (\<lambda>t. bt_seq_id t = sid) toks"

lemma of_seq_simps [simp]:
  "of_seq sid [] = []" "of_seq sid (t # toks) = (if bt_seq_id t = sid then t # of_seq sid toks else of_seq sid toks)"
  "of_seq sid (toks @ toks') = of_seq sid toks @ of_seq sid toks'"
  by (simp_all add: of_seq_def)

lemma of_seq_empty: "sid \<notin> bt_seq_id ` set toks \<Longrightarrow> of_seq sid toks = []"
  by (auto simp: of_seq_def filter_empty_conv)

text \<open>
  The step of a sequence over some decoded tokens: its own tokens among them have consecutive
  positions from its old to its new number of past tokens, which stays below $2^{31}$, and are
  those of its prompt as long as the positions are in the prompt.
\<close>

definition advance :: "BatchToken list \<Rightarrow> 's LiveSeq \<Rightarrow> 's LiveSeq \<Rightarrow> bool" where
  "advance new seq seq' \<longleftrightarrow>
     same_seq seq seq' \<and>
     (let own = of_seq (ls_seq_id seq) new in
      ls_n_past seq' = ls_n_past seq + length own \<and>
      map bt_pos own = [ls_n_past seq ..< ls_n_past seq'] \<and>
      (ls_n_past seq < 2 ^ 31 \<longrightarrow> ls_n_past seq' < 2 ^ 31) \<and>
      (\<forall>k < length own. ls_n_past seq + k < length (ls_prompt_tokens seq) \<longrightarrow>
         bt_token (own ! k) = ls_prompt_tokens seq ! (ls_n_past seq + k)))"

lemma same_seq_refl [simp]: "same_seq seq seq" and
  same_seq_trans: "same_seq seq seq1 \<Longrightarrow> same_seq seq1 seq2 \<Longrightarrow> same_seq seq seq2" and
  same_seq_id: "same_seq seq seq' \<Longrightarrow> ls_seq_id seq' = ls_seq_id seq"
  by (simp_all add: same_seq_def)

lemma advance_none:
  "same_seq seq seq' \<Longrightarrow> ls_n_past seq' = ls_n_past seq \<Longrightarrow> of_seq (ls_seq_id seq) new = [] \<Longrightarrow> advance new seq seq'"
  by (simp add: advance_def)

lemma advance_one:
  "same_seq seq seq' \<Longrightarrow> ls_n_past seq' = ls_n_past seq + 1 \<Longrightarrow> bt_seq_id t = ls_seq_id seq \<Longrightarrow>
   bt_pos t = ls_n_past seq \<Longrightarrow> ls_n_past seq + 1 < 2 ^ 31 \<Longrightarrow>
   (ls_n_past seq < length (ls_prompt_tokens seq) \<longrightarrow> bt_token t = ls_prompt_tokens seq ! ls_n_past seq) \<Longrightarrow>
   advance [t] seq seq'"
  by (simp add: advance_def)

lemma advance_trans:
  assumes "advance new1 seq seq1" "advance new2 seq1 seq2"
  shows "advance (new1 @ new2) seq seq2"
proof -
  let ?own1 = "of_seq (ls_seq_id seq) new1" and ?own2 = "of_seq (ls_seq_id seq) new2"
  have s: "same_seq seq seq1" "same_seq seq1 seq2" using assms by (simp_all add: advance_def)
  have n: "ls_n_past seq1 = ls_n_past seq + length ?own1" "ls_n_past seq2 = ls_n_past seq1 + length ?own2"
    and p: "map bt_pos ?own1 = [ls_n_past seq ..< ls_n_past seq1]" "map bt_pos ?own2 = [ls_n_past seq1 ..< ls_n_past seq2]"
    using assms same_seq_id [OF s(1)] by (simp_all add: advance_def Let_def)
  have t: "bt_token ((?own1 @ ?own2) ! k) = ls_prompt_tokens seq ! (ls_n_past seq + k)"
    if "k < length (?own1 @ ?own2)" "ls_n_past seq + k < length (ls_prompt_tokens seq)" for k
  proof (cases "k < length ?own1")
    case True
    then show ?thesis using assms(1) that by (simp add: advance_def Let_def nth_append)
  next
    case False
    define j where "j = k - length ?own1"
    have j: "k = length ?own1 + j" "j < length ?own2" using False that(1) by (simp_all add: j_def)
    have "ls_prompt_tokens seq1 = ls_prompt_tokens seq" using s(1) by (simp add: same_seq_def)
    then show ?thesis
      using assms(2) that(2) j n(1) same_seq_id [OF s(1)] by (simp add: advance_def Let_def nth_append add.assoc)
  qed
  have "map bt_pos (?own1 @ ?own2) = [ls_n_past seq ..< ls_n_past seq2]"
    using p n by (simp add: upt_add_eq_append [symmetric])
  moreover have "ls_n_past seq < 2 ^ 31 \<longrightarrow> ls_n_past seq2 < 2 ^ 31" using assms unfolding advance_def Let_def by blast
  ultimately show ?thesis using s n t same_seq_trans by (auto simp: advance_def Let_def)
qed

abbreviation seq_ids :: "'s LiveSeq list \<Rightarrow> nat set" where
  "seq_ids live \<equiv> ls_seq_id ` set live"

text \<open>A pass over the live sequences that appends their tokens to the batch.\<close>

definition appends :: "'s LiveSeq list \<Rightarrow> LlamaBatch \<Rightarrow> 's LiveSeq list \<Rightarrow> LlamaBatch \<Rightarrow> bool" where
  "appends live batch live' batch' \<longleftrightarrow>
     lb_capacity batch' = lb_capacity batch \<and>
     (\<exists>new. lb_tokens batch' = lb_tokens batch @ new \<and> bt_seq_id ` set new \<subseteq> seq_ids live \<and>
        list_all2 (advance new) live live')"

lemma appends_Nil [simp]: "appends [] batch [] batch"
  by (simp add: appends_def)

lemma appends_idle: "same_seq seq seq' \<Longrightarrow> ls_n_past seq' = ls_n_past seq \<Longrightarrow> appends [seq] batch [seq'] batch"
  by (auto simp: appends_def intro: advance_none exI [of _ "[]"])

lemma appends_one_trans:
  assumes "appends [seq] batch [seq1] batch1" "appends [seq1] batch1 [seq2] batch2"
  shows "appends [seq] batch [seq2] batch2"
proof -
  obtain new1 new2 where n: "lb_tokens batch1 = lb_tokens batch @ new1" "bt_seq_id ` set new1 \<subseteq> {ls_seq_id seq}"
    "advance new1 seq seq1" "lb_tokens batch2 = lb_tokens batch1 @ new2" "bt_seq_id ` set new2 \<subseteq> {ls_seq_id seq1}"
    "advance new2 seq1 seq2" "lb_capacity batch2 = lb_capacity batch"
    using assms by (auto simp: appends_def)
  moreover have "ls_seq_id seq1 = ls_seq_id seq" using n(3) by (simp add: advance_def same_seq_def)
  ultimately show ?thesis using advance_trans [OF n(3,6)]
    by (auto simp: appends_def intro!: exI [of _ "new1 @ new2"])
qed

lemma appends_Cons:
  assumes 1: "appends [seq] batch [seq'] batch1" and 2: "appends live batch1 live' batch2"
    and new: "ls_seq_id seq \<notin> seq_ids live"
  shows "appends (seq # live) batch (seq' # live') batch2"
proof -
  obtain new1 where n1: "lb_tokens batch1 = lb_tokens batch @ new1" "bt_seq_id ` set new1 \<subseteq> {ls_seq_id seq}"
    "advance new1 seq seq'" using 1 by (auto simp: appends_def)
  obtain new2 where n2: "lb_tokens batch2 = lb_tokens batch1 @ new2" "bt_seq_id ` set new2 \<subseteq> seq_ids live"
    "list_all2 (advance new2) live live'" using 2 by (auto simp: appends_def)
  have "of_seq (ls_seq_id seq) new2 = []" using n2(2) new by (intro of_seq_empty) blast
  then have "advance (new1 @ new2) seq seq'" using n1(3) by (simp add: advance_def)
  moreover have "list_all2 (advance (new1 @ new2)) live live'"
  proof (rule list.rel_mono_strong [OF n2(3)])
    fix x x' assume "x \<in> set live" "advance new2 x x'"
    moreover have "of_seq (ls_seq_id x) new1 = []" using n1(2) new \<open>x \<in> set live\<close> by (intro of_seq_empty) (metis imageI singletonD subsetD)
    ultimately show "advance (new1 @ new2) x x'" by (simp add: advance_def)
  qed
  ultimately show ?thesis
    using 1 2 n1 n2 by (auto simp: appends_def intro!: exI [of _ "new1 @ new2"])
qed

section \<open>Decoding the prompts\<close>

definition keeps :: "'s LiveSeq \<Rightarrow> 's LiveSeq \<Rightarrow> bool" where
  "keeps seq seq' \<longleftrightarrow> same_seq seq seq' \<and> ls_active seq' = ls_active seq \<and> ls_generated seq' = ls_generated seq \<and>
     (ls_n_past seq < length (ls_prompt_tokens seq) \<longrightarrow> ls_n_past seq' < length (ls_prompt_tokens seq))"

lemma keeps_refl [simp]: "keeps seq seq"
  by (simp add: keeps_def)

lemma keeps_trans: "keeps seq seq1 \<Longrightarrow> keeps seq1 seq2 \<Longrightarrow> keeps seq seq2"
  by (auto simp: keeps_def same_seq_def)

text \<open>A sequence within its prompt, which the library has counted in 31 bits.\<close>

definition fits :: "'s LiveSeq \<Rightarrow> bool" where
  "fits seq \<longleftrightarrow> ls_n_past seq < length (ls_prompt_tokens seq) \<and> length (ls_prompt_tokens seq) < 2 ^ 31"

lemma keeps_fits: "keeps seq seq' \<Longrightarrow> fits seq \<Longrightarrow> fits seq'"
  by (auto simp: keeps_def fits_def same_seq_def)

lemma all_keeps_fits: "list_all2 keeps live live' \<Longrightarrow> \<forall>seq \<in> set live. fits seq \<Longrightarrow> \<forall>seq \<in> set live'. fits seq"
  by (induction live live' rule: list_all2_induct) (auto dest: keeps_fits)

lemma prefix_seq_spec:
  "fits seq \<Longrightarrow> \<exists>mr seq' batch'. prefix_seq seq batch = Some (mr, seq', batch') \<and>
   appends [seq] batch [seq'] batch' \<and> keeps seq seq' \<and>
   (mr \<longrightarrow> lb_capacity batch \<le> int (length (lb_tokens batch'))) \<and>
   (\<not> mr \<longrightarrow> length (ls_prompt_tokens seq) \<le> ls_n_past seq' + 1) \<and>
   (int (length (lb_tokens batch)) \<le> lb_capacity batch \<longrightarrow> int (length (lb_tokens batch')) \<le> lb_capacity batch)"
proof (induction seq batch rule: prefix_seq.induct)
  case (1 seq batch)
  have pos: "next_pos (ls_n_past seq) = Some (ls_n_past seq + 1)" using 1(2) by (auto simp: fits_def)
  show ?case
  proof (cases "ls_n_past seq + 1 < length (ls_prompt_tokens seq) \<and> int (length (lb_tokens batch)) < lb_capacity batch")
    case True
    let ?seq1 = "seq\<lparr>ls_n_past := ls_n_past seq + 1\<rparr>"
    obtain b1 where b1: "batch_add (ls_prompt_tokens seq ! ls_n_past seq) (ls_n_past seq) (ls_seq_id seq) False batch = Some b1"
      using True by (simp add: batch_add_def)
    have rec: "prefix_seq seq batch = prefix_seq ?seq1 b1"
      using True b1 pos by (subst prefix_seq.simps) (simp del: next_pos_Some)
    note t = batch_add_Some [OF b1]
    have app: "appends [seq] batch [?seq1] b1"
      using t pos by (auto simp: appends_def same_seq_def intro!: exI [of _ "[_]"] advance_one)
    have k: "keeps seq ?seq1" using True by (simp add: keeps_def same_seq_def)
    obtain mr seq' batch' where IH: "prefix_seq ?seq1 b1 = Some (mr, seq', batch')"
      "appends [?seq1] b1 [seq'] batch'" "keeps ?seq1 seq'"
      "mr \<longrightarrow> lb_capacity b1 \<le> int (length (lb_tokens batch'))"
      "\<not> mr \<longrightarrow> length (ls_prompt_tokens ?seq1) \<le> ls_n_past seq' + 1"
      "int (length (lb_tokens b1)) \<le> lb_capacity b1 \<longrightarrow> int (length (lb_tokens batch')) \<le> lb_capacity b1"
      using 1(1) [OF pos _ _ b1] True keeps_fits [OF k 1(2)] by auto
    show ?thesis
      using rec IH t True appends_one_trans [OF app IH(2)] keeps_trans [OF k IH(3)] by auto
  next
    case False
    then have "prefix_seq seq batch = Some (ls_n_past seq + 1 < length (ls_prompt_tokens seq), seq, batch)"
      using pos by (subst prefix_seq.simps) (auto simp del: next_pos_Some)
    then show ?thesis using False appends_idle [OF same_seq_refl refl, of seq batch] by auto
  qed
qed

lemma prefix_pass_spec:
  assumes "distinct (map ls_seq_id live)" and "\<forall>seq \<in> set live. fits seq"
  shows "\<exists>mr live' batch'. prefix_pass live batch = Some (mr, live', batch') \<and>
    appends live batch live' batch' \<and> list_all2 keeps live live' \<and>
    (mr \<longrightarrow> lb_capacity batch \<le> int (length (lb_tokens batch'))) \<and>
    (\<not> mr \<longrightarrow> (\<forall>seq \<in> set live'. ls_active seq \<longrightarrow> length (ls_prompt_tokens seq) \<le> ls_n_past seq + 1)) \<and>
    (int (length (lb_tokens batch)) \<le> lb_capacity batch \<longrightarrow> int (length (lb_tokens batch')) \<le> lb_capacity batch)"
  using assms
proof (induction live arbitrary: batch)
  case (Cons seq live)
  obtain mr1 seq1 batch1 where 1:
    "(if ls_active seq then prefix_seq seq batch else Some (False, seq, batch)) = Some (mr1, seq1, batch1)"
    "appends [seq] batch [seq1] batch1" "keeps seq seq1"
    "mr1 \<longrightarrow> lb_capacity batch \<le> int (length (lb_tokens batch1))"
    "\<not> mr1 \<and> ls_active seq \<longrightarrow> length (ls_prompt_tokens seq) \<le> ls_n_past seq1 + 1"
    "int (length (lb_tokens batch)) \<le> lb_capacity batch \<longrightarrow> int (length (lb_tokens batch1)) \<le> lb_capacity batch"
    using prefix_seq_spec [of seq batch] appends_idle [OF same_seq_refl refl, of seq batch] Cons.prems(2)
    by (cases "ls_active seq") auto
  have "distinct (map ls_seq_id live)" "\<forall>seq \<in> set live. fits seq" using Cons.prems by auto
  from Cons.IH [OF this, of batch1] obtain mr2 live2 batch2 where 2:
    "prefix_pass live batch1 = Some (mr2, live2, batch2)" "appends live batch1 live2 batch2"
    "list_all2 keeps live live2" "mr2 \<longrightarrow> lb_capacity batch1 \<le> int (length (lb_tokens batch2))"
    "\<not> mr2 \<longrightarrow> (\<forall>seq \<in> set live2. ls_active seq \<longrightarrow> length (ls_prompt_tokens seq) \<le> ls_n_past seq + 1)"
    "int (length (lb_tokens batch1)) \<le> lb_capacity batch1 \<longrightarrow> int (length (lb_tokens batch2)) \<le> lb_capacity batch1"
    by auto
  have c: "lb_capacity batch1 = lb_capacity batch" "length (lb_tokens batch1) \<le> length (lb_tokens batch2)"
    using 1(2) 2(2) by (auto simp: appends_def)
  have "appends (seq # live) batch (seq1 # live2) batch2"
    by (rule appends_Cons [OF 1(2) 2(2)]) (use Cons.prems in auto)
  moreover have "prefix_pass (seq # live) batch = Some (mr1 \<or> mr2, seq1 # live2, batch2)" using 1(1) 2(1) by simp
  moreover have "ls_active seq1 = ls_active seq" "ls_prompt_tokens seq1 = ls_prompt_tokens seq"
    using 1(3) by (simp_all add: keeps_def same_seq_def)
  ultimately show ?case using 1 2 c by auto
qed auto

text \<open>What decoding a list of batches does to the live sequences.\<close>

definition decodes :: "int \<Rightarrow> 's LiveSeq list \<Rightarrow> BatchToken list list \<Rightarrow> 's LiveSeq list \<Rightarrow> bool" where
  "decodes cap live calls live' \<longleftrightarrow>
     (\<forall>c \<in> set calls. c \<noteq> [] \<and> int (length c) \<le> cap \<and> bt_seq_id ` set c \<subseteq> seq_ids live) \<and>
     list_all2 (advance (concat calls)) live live'"

lemma advance_ids: "list_all2 (advance new) live live' \<Longrightarrow> map ls_seq_id live' = map ls_seq_id live"
  by (induction live live' rule: list_all2_induct) (auto simp: advance_def same_seq_def)

lemma decodes_Nil: "decodes cap live [] live"
  by (auto simp: decodes_def advance_none list_all2_same)

lemma decodes_trans:
  assumes "decodes cap live calls1 live1" "decodes cap live1 calls2 live2"
  shows "decodes cap live (calls1 @ calls2) live2"
proof -
  have "seq_ids live1 = seq_ids live" using assms(1) advance_ids by (metis decodes_def list.set_map)
  moreover have "list_all2 (advance (concat calls1 @ concat calls2)) live live2"
    by (rule list_all2_trans [OF advance_trans]) (use assms in \<open>auto simp: decodes_def\<close>)
  ultimately show ?thesis using assms unfolding decodes_def by (simp add: ball_Un)
qed

lemma decodes_pass:
  "appends live (batch_clear batch) live' batch' \<Longrightarrow> lb_tokens batch' \<noteq> [] \<Longrightarrow>
   int (length (lb_tokens batch')) \<le> cap \<Longrightarrow> decodes cap live [lb_tokens batch'] live'"
  by (auto simp: decodes_def appends_def batch_clear_def)

lemma keeps_ids: "list_all2 keeps live live' \<Longrightarrow> map ls_seq_id live' = map ls_seq_id live"
  by (induction live live' rule: list_all2_induct) (auto simp: keeps_def same_seq_def)

lemma decode_calls: "\<exists>ret ctx. decode lib batch d = (ret, ctx, snd d @ [lb_tokens batch])"
  by (simp add: decode_def case_prod_beta)

lemma prefix_stage_spec:
  "distinct (map ls_seq_id live) \<Longrightarrow> 0 < lb_capacity batch \<Longrightarrow> \<forall>seq \<in> set live. fits seq \<Longrightarrow>
   \<exists>ok live' batch' ctx' new. prefix_stage lib live batch d = Some (ok, live', batch', ctx', snd d @ new) \<and>
     decodes (lb_capacity batch) live new live' \<and> list_all2 keeps live live' \<and>
     lb_capacity batch' = lb_capacity batch \<and>
     (ok \<longrightarrow> (\<forall>seq \<in> set live'. ls_active seq \<longrightarrow> length (ls_prompt_tokens seq) \<le> ls_n_past seq + 1))"
proof (induction lib live batch d rule: prefix_stage.induct)
  case (1 lib live batch d)
  let ?cap = "lb_capacity batch"
  obtain mr live1 batch1 where p: "prefix_pass live (batch_clear batch) = Some (mr, live1, batch1)"
    "appends live (batch_clear batch) live1 batch1" "list_all2 keeps live live1"
    "mr \<longrightarrow> ?cap \<le> int (length (lb_tokens batch1))"
    "\<not> mr \<longrightarrow> (\<forall>seq \<in> set live1. ls_active seq \<longrightarrow> length (ls_prompt_tokens seq) \<le> ls_n_past seq + 1)"
    "int (length (lb_tokens batch1)) \<le> ?cap"
    using prefix_pass_spec [OF 1(2,4), of "batch_clear batch"] 1(3) by (auto simp: batch_clear_def)
  have cap: "lb_capacity batch1 = ?cap" using p(2) by (simp add: appends_def batch_clear_def)
  obtain ret ctx1 where dec: "decode lib batch1 d = (ret, ctx1, snd d @ [lb_tokens batch1])"
    using decode_calls [of lib batch1 d] by blast
  show ?case
  proof (cases "lb_tokens batch1 = []")
    case True
    have "list_all2 (advance []) live live1" using p(2) True by (auto simp: appends_def)
    then have "decodes ?cap live [] live1" by (simp add: decodes_def)
    moreover have "prefix_stage lib live batch d = Some (True, live1, batch1, fst d, snd d @ [])"
      using p(1) True by (subst prefix_stage.simps) simp
    moreover have "\<not> mr" using p(4) True 1(3) by auto
    ultimately show ?thesis using p(3,5) cap by blast
  next
    case ne: False
    note d1 = decodes_pass [OF p(2) ne p(6)]
    show ?thesis
    proof (cases "ret = 0 \<and> mr")
      case True
      have eq: "prefix_stage lib live batch d = prefix_stage lib live1 batch1 (ctx1, snd d @ [lb_tokens batch1])"
        using p(1) ne dec True by (subst prefix_stage.simps) simp
      have "distinct (map ls_seq_id live1)" using 1(2) keeps_ids [OF p(3)] by simp
      from 1(1) [OF p(1) refl refl ne dec [symmetric]] True this cap 1(3) all_keeps_fits [OF p(3) 1(4)]
      obtain ok live2 batch2 ctx2 new where IH:
        "prefix_stage lib live1 batch1 (ctx1, snd d @ [lb_tokens batch1]) =
           Some (ok, live2, batch2, ctx2, (snd d @ [lb_tokens batch1]) @ new)"
        "decodes ?cap live1 new live2" "list_all2 keeps live1 live2" "lb_capacity batch2 = ?cap"
        "ok \<longrightarrow> (\<forall>seq \<in> set live2. ls_active seq \<longrightarrow> length (ls_prompt_tokens seq) \<le> ls_n_past seq + 1)"
        by auto
      have "list_all2 keeps live live2" by (rule list_all2_trans [OF keeps_trans p(3) IH(3)])
      then show ?thesis
        using eq IH decodes_trans [OF d1 IH(2)] by (intro exI [of _ ok] exI [of _ live2] exI) auto
    next
      case False
      then have "prefix_stage lib live batch d = Some (ret = 0, live1, batch1, ctx1, snd d @ [lb_tokens batch1])"
        using p(1) ne dec by (subst prefix_stage.simps) auto
      then show ?thesis using d1 p(3,5) cap False by blast
    qed
  qed
qed

lemma bootstrap_pass_spec:
  assumes "distinct (map ls_seq_id live)" "int (length (lb_tokens batch) + length live) \<le> lb_capacity batch"
    and "\<forall>seq \<in> set live. fits seq \<and> (ls_active seq \<longrightarrow> ls_n_past seq + 1 = length (ls_prompt_tokens seq))"
  shows "\<exists>live' batch'. bootstrap_pass live batch = Some (live', batch') \<and> appends live batch live' batch' \<and>
    length (lb_tokens batch') \<le> length (lb_tokens batch) + length live \<and>
    (lb_tokens batch' = [] \<longrightarrow> (\<forall>seq \<in> set live. \<not> ls_active seq)) \<and>
    list_all2 (\<lambda>seq seq'. same_seq seq seq' \<and> ls_active seq' = ls_active seq \<and> ls_generated seq' = ls_generated seq \<and>
      ls_n_past seq' = (if ls_active seq then ls_n_past seq + 1 else ls_n_past seq)) live live'"
  using assms
proof (induction live arbitrary: batch)
  case (Cons seq live)
  let ?seq1 = "seq\<lparr>ls_logits_batch_index := int (length (lb_tokens batch)), ls_n_past := ls_n_past seq + 1\<rparr>"
  obtain seq1 batch1 where 1:
    "(if ls_active seq
      then
        (case batch_add (last (ls_prompt_tokens seq)) (ls_n_past seq) (ls_seq_id seq) True batch of
           None \<Rightarrow> None
         | Some batch1 \<Rightarrow>
             map_option (\<lambda>pos1. (seq\<lparr>ls_logits_batch_index := int (length (lb_tokens batch)),
                                   ls_n_past := pos1\<rparr>, batch1)) (next_pos (ls_n_past seq)))
      else Some (seq, batch)) = Some (seq1, batch1)"
    "appends [seq] batch [seq1] batch1" "length (lb_tokens batch1) \<le> length (lb_tokens batch) + 1"
    "lb_tokens batch1 = [] \<longrightarrow> \<not> ls_active seq" "same_seq seq seq1" "ls_active seq1 = ls_active seq"
    "ls_generated seq1 = ls_generated seq" "ls_n_past seq1 = (if ls_active seq then ls_n_past seq + 1 else ls_n_past seq)"
  proof (cases "ls_active seq")
    case True
    obtain b1 where b1: "batch_add (last (ls_prompt_tokens seq)) (ls_n_past seq) (ls_seq_id seq) True batch = Some b1"
      using Cons.prems(2) by (simp add: batch_add_def)
    have "last (ls_prompt_tokens seq) = ls_prompt_tokens seq ! ls_n_past seq"
      using Cons.prems(3) True by (metis Suc_eq_plus1 diff_Suc_1 last_conv_nth length_0_conv list.set_intros(1) nat.distinct(1))
    moreover have pos: "ls_n_past seq + 1 < 2 ^ 31" using Cons.prems(3) by (auto simp: fits_def)
    ultimately have "appends [seq] batch [?seq1] b1"
      using batch_add_Some [OF b1] by (auto simp: appends_def same_seq_def intro!: exI [of _ "[_]"] advance_one)
    then show thesis using that [of ?seq1 b1] pos True b1 batch_add_Some [OF b1] by (auto simp: same_seq_def)
  next
    case False
    then show thesis using that [of seq batch] appends_idle [OF same_seq_refl refl, of seq batch] by simp
  qed
  have cap: "lb_capacity batch1 = lb_capacity batch" using 1(2) by (simp add: appends_def)
  have "distinct (map ls_seq_id live)" "int (length (lb_tokens batch1) + length live) \<le> lb_capacity batch1"
    "\<forall>seq \<in> set live. fits seq \<and> (ls_active seq \<longrightarrow> ls_n_past seq + 1 = length (ls_prompt_tokens seq))"
    using Cons.prems 1(3) cap by auto
  from Cons.IH [OF this] obtain live2 batch2 where 2: "bootstrap_pass live batch1 = Some (live2, batch2)"
    "appends live batch1 live2 batch2" "length (lb_tokens batch2) \<le> length (lb_tokens batch1) + length live"
    "lb_tokens batch2 = [] \<longrightarrow> (\<forall>seq \<in> set live. \<not> ls_active seq)"
    "list_all2 (\<lambda>seq seq'. same_seq seq seq' \<and> ls_active seq' = ls_active seq \<and> ls_generated seq' = ls_generated seq \<and>
      ls_n_past seq' = (if ls_active seq then ls_n_past seq + 1 else ls_n_past seq)) live live2"
    by blast
  have "appends (seq # live) batch (seq1 # live2) batch2"
    by (rule appends_Cons [OF 1(2) 2(2)]) (use Cons.prems in auto)
  moreover have "bootstrap_pass (seq # live) batch = Some (seq1 # live2, batch2)" using 1(1) 2(1) by simp
  moreover have "lb_tokens batch2 = [] \<longrightarrow> lb_tokens batch1 = []" using 2(2) by (auto simp: appends_def)
  ultimately show ?case using 1 2 by (intro exI [of _ "seq1 # live2"] exI [of _ batch2]) auto
qed auto

section \<open>Generating\<close>

definition gen_ok :: "'s LiveSeq \<Rightarrow> bool" where
  "gen_ok seq \<longleftrightarrow>
     (ls_active seq \<longrightarrow> ls_n_past seq = length (ls_prompt_tokens seq) + ls_generated seq \<and>
        (ls_generated seq = 0 \<or> ls_generated seq < unat (ls_max_output seq))) \<and>
     ls_n_past seq \<le> length (ls_prompt_tokens seq) + (unat (ls_max_output seq) - 1)"

text \<open>A sequence whose positions cannot overflow.\<close>

definition roomy :: "'s LiveSeq \<Rightarrow> bool" where
  "roomy seq \<longleftrightarrow> length (ls_prompt_tokens seq) + (unat (ls_max_output seq) - 1) < 2 ^ 31"

lemma same_roomy: "same_seq seq seq' \<Longrightarrow> roomy seq' = roomy seq"
  by (simp add: roomy_def same_seq_def)

lemma advance_roomy:
  "list_all2 (advance new) live live' \<Longrightarrow> (\<exists>seq \<in> set live'. \<not> roomy seq) = (\<exists>seq \<in> set live. \<not> roomy seq)"
  by (induction live live' rule: list_all2_induct) (auto simp: advance_def same_roomy)

lemma sample_seq_total:
  assumes "int (length (lb_tokens batch)) < lb_capacity batch" and "gen_ok seq" "ls_active seq" "roomy seq"
  shows "sample_seq lib vocab ctx seq batch \<noteq> None"
proof -
  have "ls_n_past seq + 1 < 2 ^ 31" if "\<not> unat (ls_max_output seq) \<le> ls_generated seq + 1"
    using assms(2-4) that by (simp add: gen_ok_def roomy_def)
  then show ?thesis
    using assms(1) by (auto simp: sample_seq_def batch_add_def next_pos_def Let_def split: prod.splits sum.splits)
qed

lemma sample_seq_spec:
  assumes s: "sample_seq lib vocab ctx seq batch = Some (seq', r, batch')" and gen: "gen_ok seq" "ls_active seq"
  shows "appends [seq] batch [seq'] batch' \<and> gen_ok seq' \<and> same_seq seq seq' \<and> (ls_active seq' \<longleftrightarrow> r = None) \<and>
    length (lb_tokens batch') \<le> length (lb_tokens batch) + 1 \<and> (r = None \<longrightarrow> lb_tokens batch' \<noteq> []) \<and>
    (\<forall>x. r = Some x \<longrightarrow> (\<not> result_ok x \<and> res_output x = None) \<or>
       (x = finished_output seq' \<and> ls_generated seq' \<le> max 1 (unat (ls_max_output seq))))"
  using s
proof (cases rule: sample_seq_cases)
  case (ended x)
  have "gen_ok seq'" using gen(1) ended(3-5) by (simp add: gen_ok_def same_seq_def)
  moreover have "appends [seq] batch [seq'] batch'" using appends_idle [OF ended(3,5)] ended(2) by simp
  moreover have "(\<not> result_ok x \<and> res_output x = None) \<or>
     (x = finished_output seq' \<and> ls_generated seq' \<le> max 1 (unat (ls_max_output seq)))"
    using ended(6) gen by (auto simp: gen_ok_def)
  ultimately show ?thesis using ended by auto
next
  case (continues tok)
  note t = batch_add_Some [OF continues(2)]
  have "length (ls_prompt_tokens seq) \<le> ls_n_past seq" using gen by (simp add: gen_ok_def)
  then have "appends [seq] batch [seq'] batch'"
    using t continues(3,5,6) by (auto simp: appends_def intro!: exI [of _ "[_]"] advance_one)
  moreover have "gen_ok seq'" using gen continues(3-8) by (auto simp: gen_ok_def same_seq_def)
  ultimately show ?thesis using continues t gen(2) by auto
qed

lemma sample_pass_spec:
  "sample_pass lib vocab ctx live batch results = Some (any_active, live', batch', results') \<Longrightarrow>
   distinct (map ls_seq_id live) \<Longrightarrow> \<forall>seq \<in> set live. gen_ok seq \<Longrightarrow>
   appends live batch live' batch' \<and> length (lb_tokens batch') \<le> length (lb_tokens batch) + length live \<and>
   (\<forall>seq \<in> set live'. gen_ok seq) \<and> (any_active \<longleftrightarrow> (\<exists>seq \<in> set live'. ls_active seq)) \<and>
   (any_active \<longrightarrow> lb_tokens batch' \<noteq> [])"
proof (induction live arbitrary: batch results any_active live')
  case (Cons seq live)
  have new: "ls_seq_id seq \<notin> seq_ids live" "distinct (map ls_seq_id live)" using Cons.prems(2) by auto
  have gen: "gen_ok seq" "\<forall>seq \<in> set live. gen_ok seq" using Cons.prems(3) by simp_all
  show ?case
  proof (cases "ls_active seq")
    case False
    then obtain live2 where 2: "sample_pass lib vocab ctx live batch results = Some (any_active, live2, batch', results')"
      "live' = seq # live2" using Cons.prems(1) by (auto split: option.splits)
    note IH = Cons.IH [OF 2(1) new(2) gen(2)]
    then have "appends (seq # live) batch (seq # live2) batch'"
      by (intro appends_Cons [OF appends_idle [OF same_seq_refl refl] _ new(1)]) blast
    then show ?thesis using False IH 2(2) gen(1) by auto
  next
    case True
    then obtain seq1 r batch1 any2 live2 where 1: "sample_seq lib vocab ctx seq batch = Some (seq1, r, batch1)"
      and 2: "sample_pass lib vocab ctx live batch1 (case r of None \<Rightarrow> results | Some x \<Rightarrow> results[ls_result_index seq := x]) =
         Some (any2, live2, batch', results')" "any_active = (r = None \<or> any2)" "live' = seq1 # live2"
      using Cons.prems(1) by (auto split: option.splits)
    note IH = Cons.IH [OF 2(1) new(2) gen(2)] and S = sample_seq_spec [OF 1 gen(1) True]
    then have "appends (seq # live) batch (seq1 # live2) batch'" by (intro appends_Cons [OF _ _ new(1)]) blast+
    moreover have "lb_tokens batch1 \<noteq> [] \<longrightarrow> lb_tokens batch' \<noteq> []" using IH by (auto simp: appends_def)
    ultimately show ?thesis using IH S 2(2,3) by auto
  qed
qed auto

lemma sample_pass_total:
  "\<forall>seq \<in> set live. gen_ok seq \<and> roomy seq \<Longrightarrow>
   int (length (lb_tokens batch) + length live) \<le> lb_capacity batch \<Longrightarrow>
   sample_pass lib vocab ctx live batch results \<noteq> None"
proof (induction live arbitrary: batch results)
  case (Cons seq live)
  show ?case
  proof (cases "ls_active seq")
    case False
    then show ?thesis using Cons.IH [of batch results] Cons.prems by auto
  next
    case True
    have "int (length (lb_tokens batch)) < lb_capacity batch" "gen_ok seq" "roomy seq" using Cons.prems by simp_all
    then obtain seq1 r batch1 where 1: "sample_seq lib vocab ctx seq batch = Some (seq1, r, batch1)"
      using sample_seq_total [OF _ _ True, of batch lib vocab ctx] by fastforce
    have "int (length (lb_tokens batch1) + length live) \<le> lb_capacity batch1"
      using sample_seq_spec [OF 1 _ True] Cons.prems by (auto simp: appends_def)
    then show ?thesis using Cons.IH [of batch1 "case r of None \<Rightarrow> results | Some x \<Rightarrow> results[ls_result_index seq := x]"]
        Cons.prems(1) True 1 by auto
  qed
qed simp

lemma generate_spec:
  "generate lib vocab live batch d results = Some (live', d', results') \<Longrightarrow>
   distinct (map ls_seq_id live) \<Longrightarrow> int (length live) \<le> lb_capacity batch \<Longrightarrow> \<forall>seq \<in> set live. gen_ok seq \<Longrightarrow>
   (\<exists>new live1. snd d' = snd d @ new \<and> decodes (lb_capacity batch) live new live1 \<and> (\<forall>seq \<in> set live1. gen_ok seq)) \<and>
   (\<forall>seq \<in> set live'. \<not> ls_active seq)"
proof (induction lib vocab live batch d results rule: generate.induct)
  case (1 lib vocab live batch d results)
  let ?cap = "lb_capacity batch"
  obtain any_active live1 batch1 results1 where
    p: "sample_pass lib vocab (fst d) live (batch_clear batch) results = Some (any_active, live1, batch1, results1)"
    using 1(2) by (subst (asm) generate.simps) (auto split: option.splits)
  from sample_pass_spec [OF p 1(3,5)] have
    q: "appends live (batch_clear batch) live1 batch1" "length (lb_tokens batch1) \<le> length live"
    "\<forall>seq \<in> set live1. gen_ok seq" "any_active \<longleftrightarrow> (\<exists>seq \<in> set live1. ls_active seq)"
    "any_active \<longrightarrow> lb_tokens batch1 \<noteq> []" by (auto simp: batch_clear_def)
  obtain ret ctx1 where dec: "decode lib batch1 d = (ret, ctx1, snd d @ [lb_tokens batch1])"
    using decode_calls [of lib batch1 d] by blast
  show ?case
  proof (cases any_active)
    case False
    then have "live' = live1" "d' = d" using 1(2) p by (simp_all add: generate.simps)
    then show ?thesis using False q(4) 1(5) decodes_Nil [of ?cap live] by auto
  next
    case True
    have d1: "decodes ?cap live [lb_tokens batch1] live1"
      by (rule decodes_pass [OF q(1)]) (use q True 1(4) in auto)
    have same: "map ls_seq_id live1 = map ls_seq_id live" using d1 advance_ids by (auto simp: decodes_def)
    show ?thesis
    proof (cases "ret = 0")
      case False
      then show ?thesis using 1(2) p True dec d1 q(3) by (auto simp: generate.simps)
    next
      case ok: True
      have run: "generate lib vocab live1 batch1 (ctx1, snd d @ [lb_tokens batch1]) results1 = Some (live', d', results')"
        using 1(2) p True dec ok by (simp add: generate.simps)
      have "distinct (map ls_seq_id live1)" "int (length live1) \<le> lb_capacity batch1" "lb_capacity batch1 = ?cap"
        using 1(3,4) same q(1) by (auto simp: appends_def batch_clear_def dest: map_eq_imp_length_eq)
      with 1(1) [OF p refl refl refl _ dec [symmetric] _ run] True ok q(3) obtain new live3 where
        IH: "snd d' = (snd d @ [lb_tokens batch1]) @ new" "decodes ?cap live1 new live3" "\<forall>seq \<in> set live3. gen_ok seq"
        "\<forall>seq \<in> set live'. \<not> ls_active seq" by auto
      show ?thesis using IH decodes_trans [OF d1 IH(2)] by auto
    qed
  qed
qed

lemma generate_total:
  "distinct (map ls_seq_id live) \<Longrightarrow> int (length live) \<le> lb_capacity batch \<Longrightarrow>
   \<forall>seq \<in> set live. gen_ok seq \<and> roomy seq \<Longrightarrow> generate lib vocab live batch d results \<noteq> None"
proof (induction lib vocab live batch d results rule: generate.induct)
  case (1 lib vocab live batch d results)
  have "int (length (lb_tokens (batch_clear batch)) + length live) \<le> lb_capacity (batch_clear batch)"
    using 1(3) by (simp add: batch_clear_def)
  from sample_pass_total [OF 1(4) this, of lib vocab "fst d" results] obtain any_active live1 batch1 results1 where
    p: "sample_pass lib vocab (fst d) live (batch_clear batch) results = Some (any_active, live1, batch1, results1)"
    by fastforce
  have q: "appends live (batch_clear batch) live1 batch1" "\<forall>seq \<in> set live1. gen_ok seq"
    using sample_pass_spec [OF p 1(2)] 1(4) by auto
  then obtain new where adv: "list_all2 (advance new) live live1" "lb_capacity batch1 = lb_capacity batch"
    by (auto simp: appends_def batch_clear_def)
  have "distinct (map ls_seq_id live1)" "int (length live1) \<le> lb_capacity batch1" "\<forall>seq \<in> set live1. gen_ok seq \<and> roomy seq"
    using 1(2-4) advance_ids [OF adv(1)] advance_roomy [OF adv(1)] q(2) adv(2) by (auto dest: map_eq_imp_length_eq)
  with 1(1) [OF p refl refl refl] show ?case using p
    by (subst generate.simps) (auto split: prod.splits)
qed

end
