(* ===== verification/AR_Llama_Results.thy ===== *)
theory AR_Llama_Results
  imports AR_Llama_Props
begin

text \<open>
  The results of a batch of the llama.cpp backend: which requests are refused before anything
  is decoded, that every other request is answered whatever the library does, and the
  properties of the backend.
\<close>

section \<open>Answers\<close>

definition failed_result :: "InferenceResult \<Rightarrow> bool" where
  "failed_result r \<longleftrightarrow> \<not> result_ok r \<and> res_output r = None"

text \<open>A failure, or an output of at most as many tokens as asked for (and at least one is produced).\<close>

definition answered :: "nat \<Rightarrow> InferenceResult \<Rightarrow> bool" where
  "answered m r \<longleftrightarrow> failed_result r \<or>
     (result_ok r \<and> (\<exists>out. res_output r = Some out \<and> unat (out_output_tokens out) \<le> max 1 m))"

definition answers :: "InferenceResult list \<Rightarrow> 's LiveSeq list \<Rightarrow> bool" where
  "answers results live \<longleftrightarrow>
     distinct (map ls_result_index live) \<and>
     (\<forall>seq \<in> set live. ls_result_index seq < length results \<and>
        (ls_active seq \<or> answered (unat (ls_max_output seq)) (results ! ls_result_index seq)))"

abbreviation indices :: "'s LiveSeq list \<Rightarrow> nat set" where
  "indices live \<equiv> ls_result_index ` set live"

definition only_at :: "nat set \<Rightarrow> InferenceResult list \<Rightarrow> InferenceResult list \<Rightarrow> bool" where
  "only_at I results results' \<longleftrightarrow> length results' = length results \<and> (\<forall>i. i \<notin> I \<longrightarrow> results' ! i = results ! i)"

lemma only_at_refl [simp]: "only_at I results results"
  by (simp add: only_at_def)

lemma only_at_trans: "only_at I r r1 \<Longrightarrow> only_at J r1 r2 \<Longrightarrow> only_at (I \<union> J) r r2"
  by (simp add: only_at_def)

lemma only_at_update: "only_at {i} results (results[i := x])"
  by (simp add: only_at_def)

lemma answers_Cons:
  "answers results (seq # live) \<longleftrightarrow>
   ls_result_index seq \<notin> indices live \<and> ls_result_index seq < length results \<and>
   (ls_active seq \<or> answered (unat (ls_max_output seq)) (results ! ls_result_index seq)) \<and> answers results live"
  by (auto simp: answers_def)

lemma answers_elsewhere:
  assumes "answers results live" "only_at I results results'" "I \<inter> indices live = {}"
  shows "answers results' live"
proof -
  have "results' ! ls_result_index seq = results ! ls_result_index seq" if "seq \<in> set live" for seq
    using assms(2,3) that by (auto simp: only_at_def)
  then show ?thesis using assms(1,2) by (auto simp: answers_def only_at_def)
qed

lemma fail_live_seqs_spec:
  "answers results live \<Longrightarrow> \<not> status_ok st \<Longrightarrow>
   only_at (indices live) results (fail_live_seqs st live results) \<and>
   (\<forall>seq \<in> set live. answered (unat (ls_max_output seq)) (fail_live_seqs st live results ! ls_result_index seq))"
proof (induction live arbitrary: results)
  case (Cons seq live)
  let ?results1 = "if ls_active seq then results[ls_result_index seq := result_failure st] else results"
  have o1: "only_at {ls_result_index seq} results ?results1" by (simp add: only_at_update)
  have a: "answered (unat (ls_max_output seq)) (?results1 ! ls_result_index seq)"
    using Cons.prems by (auto simp: answers_Cons answered_def failed_result_def)
  have "answers ?results1 live"
    by (rule answers_elsewhere [OF _ o1]) (use Cons.prems(1) in \<open>auto simp: answers_Cons\<close>)
  note IH = Cons.IH [OF this Cons.prems(2)]
  have "fail_live_seqs st live ?results1 ! ls_result_index seq = ?results1 ! ls_result_index seq"
    using IH Cons.prems(1) by (auto simp: only_at_def answers_Cons)
  then show ?case using IH a only_at_trans [OF o1] by auto
qed simp

lemma finished_answered:
  "ls_generated seq \<le> max 1 m \<Longrightarrow> answered m (finished_output seq)"
  using mod_less_eq_dividend [of "ls_generated seq" "2 ^ 64"]
  by (auto simp: answered_def finished_output_def result_success_def result_ok_def unat_of_nat)

lemma sample_pass_answers:
  "sample_pass lib vocab ctx live batch results = Some (any_active, live', batch', results') \<Longrightarrow>
   answers results live \<Longrightarrow> \<forall>seq \<in> set live. gen_ok seq \<Longrightarrow>
   answers results' live' \<and> only_at (indices live) results results' \<and>
   map ls_result_index live' = map ls_result_index live \<and> map ls_max_output live' = map ls_max_output live"
proof (induction live arbitrary: batch results any_active live' batch' results')
  case (Cons seq live)
  show ?case
  proof (cases "ls_active seq")
    case False
    then obtain live2 where 2: "sample_pass lib vocab ctx live batch results = Some (any_active, live2, batch', results')"
      "live' = seq # live2" using Cons.prems(1) by (auto split: option.splits)
    have IH: "answers results' live2" "only_at (indices live) results results'"
      "map ls_result_index live2 = map ls_result_index live" "map ls_max_output live2 = map ls_max_output live"
      using Cons.IH [OF 2(1)] Cons.prems(2,3) by (auto simp: answers_Cons)
    have "indices live2 = indices live" using IH(3) by (metis list.set_map)
    then show ?thesis using IH 2(2) Cons.prems(2) False by (auto simp: answers_Cons only_at_def)
  next
    case True
    then obtain seq1 r batch1 where s: "sample_seq lib vocab ctx seq batch = Some (seq1, r, batch1)"
      using Cons.prems(1) by (auto split: option.splits)
    have "gen_ok seq" using Cons.prems(3) by simp
    from sample_seq_spec [OF s this True] have 1: "same_seq seq seq1" "ls_active seq1 \<longleftrightarrow> r = None"
      "\<forall>x. r = Some x \<longrightarrow> (\<not> result_ok x \<and> res_output x = None) \<or>
         (x = finished_output seq1 \<and> ls_generated seq1 \<le> max 1 (unat (ls_max_output seq)))"
      by - (elim conjE, assumption)+
    let ?i = "ls_result_index seq"
    let ?results = "case r of None \<Rightarrow> results | Some x \<Rightarrow> results[?i := x]"
    have o1: "only_at {?i} results ?results" by (auto simp: only_at_update split: option.splits)
    have same: "ls_result_index seq1 = ?i" "ls_max_output seq1 = ls_max_output seq" using 1(1) by (simp_all add: same_seq_def)
    have a1: "ls_active seq1 \<or> answered (unat (ls_max_output seq)) (?results ! ?i)"
      using 1(2,3) Cons.prems(2) finished_answered [of seq1]
      by (cases r) (auto simp: answers_Cons answered_def failed_result_def)
    obtain any2 live2 where 2: "sample_pass lib vocab ctx live batch1 ?results = Some (any2, live2, batch', results')"
      "live' = seq1 # live2" using Cons.prems(1) True s by (auto split: option.splits)
    have "answers ?results live"
      by (rule answers_elsewhere [OF _ o1]) (use Cons.prems(2) in \<open>auto simp: answers_Cons\<close>)
    then have IH: "answers results' live2" "only_at (indices live) ?results results'"
      "map ls_result_index live2 = map ls_result_index live" "map ls_max_output live2 = map ls_max_output live"
      using Cons.IH [OF 2(1)] Cons.prems(3) by auto
    have "indices live2 = indices live" using IH(3) by (metis list.set_map)
    moreover have "results' ! ?i = ?results ! ?i" "length results' = length results"
      using IH(2) o1 Cons.prems(2) by (auto simp: only_at_def answers_Cons)
    ultimately have "answers results' live'"
      using IH(1) 2(2) same a1 Cons.prems(2) by (simp add: answers_Cons)
    then show ?thesis using IH 2(2) same only_at_trans [OF o1 IH(2)] by simp
  qed
qed simp

lemma generate_answers:
  "generate lib vocab live batch d results = Some (live', d', results') \<Longrightarrow>
   distinct (map ls_seq_id live) \<Longrightarrow> int (length live) \<le> lb_capacity batch \<Longrightarrow> \<forall>seq \<in> set live. gen_ok seq \<Longrightarrow>
   answers results live \<Longrightarrow>
   answers results' live' \<and> only_at (indices live) results results' \<and>
   map ls_result_index live' = map ls_result_index live \<and> map ls_max_output live' = map ls_max_output live"
proof (induction lib vocab live batch d results rule: generate.induct)
  case (1 lib vocab live batch d results)
  obtain any_active live1 batch1 results1 where
    p1: "sample_pass lib vocab (fst d) live (batch_clear batch) results = Some (any_active, live1, batch1, results1)"
    using 1(2) by (subst (asm) generate.simps) (auto split: option.splits)
  have p: "sample_pass lib vocab (fst d) live (batch_clear batch) results = Some (any_active, live1, batch1, results1)"
    "appends live (batch_clear batch) live1 batch1" "\<forall>seq \<in> set live1. gen_ok seq"
    using p1 sample_pass_spec [OF p1 1(3,5)] by auto
  have s: "answers results1 live1" "only_at (indices live) results results1"
    "map ls_result_index live1 = map ls_result_index live" "map ls_max_output live1 = map ls_max_output live"
    using sample_pass_answers [OF p(1) 1(6,5)] by auto
  have ind: "indices live1 = indices live" using s(3) by (metis list.set_map)
  obtain ret ctx1 where dec: "decode lib batch1 d = (ret, ctx1, snd d @ [lb_tokens batch1])"
    using decode_calls [of lib batch1 d] by blast
  consider (ended) "\<not> any_active" | (failed) "any_active" "ret \<noteq> 0" | (next_round) "any_active" "ret = 0" by blast
  then show ?case
  proof cases
    case ended
    then have "live' = live1" "results' = results1" using 1(2) p(1) by (simp_all add: generate.simps)
    then show ?thesis using s by simp
  next
    case failed
    let ?st = "status_error EC_InferenceFailed ''llama_decode generation failed''"
    have r: "live' = map (\<lambda>seq. seq\<lparr>ls_active := False\<rparr>) live1" "results' = fail_live_seqs ?st live1 results1"
      using 1(2) p(1) dec failed by (simp_all add: generate.simps)
    have f: "only_at (indices live1) results1 results'"
      "\<forall>seq \<in> set live1. answered (unat (ls_max_output seq)) (results' ! ls_result_index seq)"
      using fail_live_seqs_spec [OF s(1), of ?st] r(2) by simp_all
    have "answers results' live'" using s(1) f r(1) by (auto simp: answers_def only_at_def comp_def)
    then show ?thesis using s ind only_at_trans [OF s(2) f(1)] r(1) by (simp add: comp_def)
  next
    case next_round
    have "generate lib vocab live1 batch1 (ctx1, snd d @ [lb_tokens batch1]) results1 = Some (live', d', results')"
      using 1(2) p(1) dec next_round by (simp add: generate.simps)
    moreover have "map ls_seq_id live1 = map ls_seq_id live" using p(2) advance_ids by (auto simp: appends_def)
    then have "distinct (map ls_seq_id live1)" "int (length live1) \<le> lb_capacity batch1"
      using 1(3,4) p(2) by (auto simp: appends_def batch_clear_def dest: map_eq_imp_length_eq)
    ultimately have "answers results' live' \<and> only_at (indices live1) results1 results' \<and>
       map ls_result_index live' = map ls_result_index live1 \<and> map ls_max_output live' = map ls_max_output live1"
      using 1(1) [OF p(1) refl refl refl _ dec [symmetric]] next_round p(3) s(1) by simp
    then show ?thesis using s ind only_at_trans [OF s(2), of "indices live1" results'] by simp
  qed
qed

section \<open>The decoding of a batch\<close>

text \<open>A sequence as the preparation leaves it.\<close>

definition ready :: "'s LiveSeq \<Rightarrow> bool" where
  "ready seq \<longleftrightarrow> ls_active seq \<and> ls_n_past seq = 0 \<and> ls_generated seq = 0 \<and> ls_prompt_tokens seq \<noteq> [] \<and>
     length (ls_prompt_tokens seq) < 2 ^ 31"

definition bounded :: "'s LiveSeq \<Rightarrow> bool" where
  "bounded seq \<longleftrightarrow> ls_n_past seq \<le> length (ls_prompt_tokens seq) + (unat (ls_max_output seq) - 1)"

lemma list_all2_set2: "list_all2 R xs ys \<Longrightarrow> y \<in> set ys \<Longrightarrow> \<exists>x \<in> set xs. R x y"
  by (metis in_set_conv_nth list_all2_conv_all_nth)

lemma answers_same:
  assumes "list_all2 (\<lambda>seq seq'. same_seq seq seq' \<and> ls_active seq' = ls_active seq) live live'"
  shows "answers results live' = answers results live" "indices live' = indices live"
    "map ls_result_index live' = map ls_result_index live" "map ls_max_output live' = map ls_max_output live"
  using assms
  by (induction live live' rule: list_all2_induct) (auto simp: answers_def same_seq_def)

lemma fold_inactive:
  "\<forall>seq \<in> set live. \<not> ls_active seq \<Longrightarrow>
   fold (\<lambda>seq rs. if ls_active seq then rs[ls_result_index seq := finished_output seq] else rs) live results = results"
  by (induction live) simp_all

definition all_answered :: "InferenceResult list \<Rightarrow> 's LiveSeq list \<Rightarrow> bool" where
  "all_answered results live \<longleftrightarrow>
     (\<forall>seq \<in> set live. answered (unat (ls_max_output seq)) (results ! ls_result_index seq))"

lemma all_answered_maps:
  fixes live live' :: "'s LiveSeq list"
  assumes "map ls_result_index live' = map ls_result_index live" "map ls_max_output live' = map ls_max_output live"
  shows "all_answered results live' = all_answered results live"
proof -
  have zip: "map (\<lambda>seq. (ls_result_index seq, ls_max_output seq)) l = zip (map ls_result_index l) (map ls_max_output l)"
    for l :: "'s LiveSeq list" by (induction l) auto
  have "map (\<lambda>seq. (ls_result_index seq, ls_max_output seq)) live' = map (\<lambda>seq. (ls_result_index seq, ls_max_output seq)) live"
    unfolding zip assms by (rule refl)
  from arg_cong [OF this, of set] have img: "(\<lambda>seq. (ls_result_index seq, ls_max_output seq)) ` set live' = (\<lambda>seq. (ls_result_index seq, ls_max_output seq)) ` set live"
    unfolding list.set_map .
  have all: "all_answered results l \<longleftrightarrow>
      (\<forall>x \<in> (\<lambda>seq. (ls_result_index seq, ls_max_output seq)) ` set l. answered (unat (snd x)) (results ! fst x))" for l :: "'s LiveSeq list"
    by (simp add: all_answered_def)
  show ?thesis unfolding all img ..
qed

lemma failed_all_answered:
  fixes live live1 :: "'s LiveSeq list"
  assumes "answers results live1" "\<not> status_ok st"
    and "map ls_result_index live1 = map ls_result_index live" "map ls_max_output live1 = map ls_max_output live"
  shows "only_at (indices live) results (fail_live_seqs st live1 results) \<and>
    all_answered (fail_live_seqs st live1 results) live"
proof -
  have "indices live1 = indices live" using assms(3) by (metis list.set_map)
  moreover have "all_answered (fail_live_seqs st live1 results) live1"
    using fail_live_seqs_spec [OF assms(1,2)] by (simp add: all_answered_def)
  ultimately show ?thesis
    using fail_live_seqs_spec [OF assms(1,2)] all_answered_maps [OF assms(3,4)] by simp
qed

text \<open>
  What running the live sequences gives: calls of \<^verbatim>\<open>llama_decode\<close> and answers, or undefined
  behaviour, which needs a sequence whose positions can overflow.
\<close>

definition ran :: "int \<Rightarrow> 's LiveSeq list \<Rightarrow> InferenceResult list \<Rightarrow> 'c decoding \<Rightarrow> ('c decoding \<times> InferenceResult list) option \<Rightarrow> bool" where
  "ran cap live results d outcome \<longleftrightarrow>
     outcome = None \<and> (\<exists>seq \<in> set live. \<not> roomy seq) \<or>
     (\<exists>ctx new results' live'. outcome = Some ((ctx, snd d @ new), results') \<and>
        decodes cap live new live' \<and> (\<forall>seq \<in> set live'. bounded seq) \<and>
        only_at (indices live) results results' \<and> all_answered results' live)"

lemma ran_trans:
  assumes d1: "decodes cap live new1 live1" and r: "ran cap live1 results (ctx1, snd d @ new1) outcome"
    and maps: "map ls_result_index live1 = map ls_result_index live" "map ls_max_output live1 = map ls_max_output live"
  shows "ran cap live results d outcome"
proof (cases outcome)
  case None
  have "list_all2 (advance (concat new1)) live live1" using d1 by (simp add: decodes_def)
  then show ?thesis using r None by (simp add: ran_def advance_roomy)
next
  case (Some out)
  obtain ctx new results' live' where o: "outcome = Some ((ctx, (snd d @ new1) @ new), results')"
    "decodes cap live1 new live'" "\<forall>seq \<in> set live'. bounded seq" "only_at (indices live1) results results'"
    "all_answered results' live1" using r Some by (auto simp: ran_def)
  have "indices live1 = indices live" using maps(1) by (metis list.set_map)
  then show ?thesis
    using o decodes_trans [OF d1 o(2)] all_answered_maps [OF maps] by (auto simp: ran_def)
qed

lemma ran_failed:
  assumes "answers results live" "\<forall>seq \<in> set live. bounded seq" "\<not> status_ok st"
  shows "ran cap live results (ctx, calls) (Some ((ctx, calls), fail_live_seqs st live results))"
  using assms(2) failed_all_answered [OF assms(1,3) refl refl] decodes_Nil [of cap live]
  by (auto simp: ran_def)

text \<open>The bootstrap and the generation, after the prefixes have been decoded.\<close>

definition booted :: "'s LiveSeq \<Rightarrow> bool" where
  "booted seq \<longleftrightarrow> ls_active seq \<and> ls_generated seq = 0 \<and> ls_prompt_tokens seq \<noteq> [] \<and>
     ls_n_past seq = length (ls_prompt_tokens seq)"

lemma booted_gen: "booted seq \<Longrightarrow> gen_ok seq" and booted_bounded: "booted seq \<Longrightarrow> bounded seq"
  by (auto simp: booted_def gen_ok_def bounded_def)

lemma generate_ran:
  assumes ids: "distinct (map ls_seq_id live)" and cap: "int (length live) \<le> lb_capacity batch"
    and boot: "\<forall>seq \<in> set live. booted seq" and ans: "answers results live"
  shows "ran (lb_capacity batch) live results d
      (case generate lib vocab live batch d results of
         None \<Rightarrow> None
       | Some (live', d', results') \<Rightarrow>
           Some (d', fold (\<lambda>seq rs. if ls_active seq then rs[ls_result_index seq := finished_output seq] else rs) live' results'))"
proof (cases "generate lib vocab live batch d results")
  case None
  have "\<forall>seq \<in> set live. gen_ok seq" using boot booted_gen by blast
  then show ?thesis using None generate_total [OF ids cap, of lib vocab d results] by (auto simp: ran_def)
next
  case (Some out)
  have gen: "\<forall>seq \<in> set live. gen_ok seq" using boot booted_gen by blast
  obtain live' d1 results' where g1: "generate lib vocab live batch d results = Some (live', d1, results')"
    using Some by (metis prod.exhaust)
  from generate_spec [OF this ids cap gen] obtain ctx' new live1 where g:
    "generate lib vocab live batch d results = Some (live', (ctx', snd d @ new), results')"
    "decodes (lb_capacity batch) live new live1" "\<forall>seq \<in> set live1. gen_ok seq" "\<forall>seq \<in> set live'. \<not> ls_active seq"
    using g1 by (metis prod.collapse)
  have a: "answers results' live'" "only_at (indices live) results results'"
    "map ls_result_index live' = map ls_result_index live" "map ls_max_output live' = map ls_max_output live"
    using generate_answers [OF g(1) ids cap gen ans] by blast+
  have "all_answered results' live'" using a(1) g(4) by (auto simp: answers_def all_answered_def)
  then have "all_answered results' live" using all_answered_maps [OF a(3,4)] by simp
  moreover have "\<forall>seq \<in> set live1. bounded seq" using g(3) by (simp add: gen_ok_def bounded_def)
  ultimately show ?thesis
    using g(1,2) a(2) fold_inactive [OF g(4), of results'] by (auto simp: ran_def)
qed

lemma bootstrap_ran:
  assumes st: "\<forall>seq \<in> set live. ls_active seq \<and> ls_generated seq = 0 \<and> fits seq \<and>
      ls_n_past seq + 1 = length (ls_prompt_tokens seq)"
    and ans: "answers results live" and ids: "distinct (map ls_seq_id live)" and ne: "live \<noteq> []"
    and cap: "int (length live) \<le> lb_capacity batch"
  shows "ran (lb_capacity batch) live results d (boot_and_generate lib vocab live batch results d)"
proof -
  let ?cap = "lb_capacity batch"
  have "int (length (lb_tokens (batch_clear batch)) + length live) \<le> lb_capacity (batch_clear batch)"
    using cap by (simp add: batch_clear_def)
  from bootstrap_pass_spec [OF ids this] st obtain live2 batch2 where b:
    "bootstrap_pass live (batch_clear batch) = Some (live2, batch2)" "appends live (batch_clear batch) live2 batch2"
    "length (lb_tokens batch2) \<le> length live" "lb_tokens batch2 = [] \<longrightarrow> (\<forall>seq \<in> set live. \<not> ls_active seq)"
    "list_all2 (\<lambda>seq seq'. same_seq seq seq' \<and> ls_active seq' = ls_active seq \<and> ls_generated seq' = ls_generated seq \<and>
      ls_n_past seq' = (if ls_active seq then ls_n_past seq + 1 else ls_n_past seq)) live live2"
    by (auto simp: batch_clear_def)
  have boot: "\<forall>seq \<in> set live2. booted seq"
  proof
    fix seq assume "seq \<in> set live2"
    from list_all2_set2 [OF b(5) this] st show "booted seq" by (auto simp: booted_def same_seq_def)
  qed
  have "list_all2 (\<lambda>seq seq'. same_seq seq seq' \<and> ls_active seq' = ls_active seq) live live2"
    by (rule list_all2_mono [OF b(5)]) simp
  note same = answers_same [OF this]
  have ans2: "answers results live2" using ans same(1) by simp
  have "lb_tokens batch2 \<noteq> []" using b(4) st ne by (metis list.set_intros(1) neq_Nil_conv)
  then have d1: "decodes ?cap live [lb_tokens batch2] live2" using decodes_pass [OF b(2)] b(3) cap by simp
  obtain ret ctx2 where dec: "decode lib batch2 d = (ret, ctx2, snd d @ [lb_tokens batch2])"
    using decode_calls [of lib batch2 d] by blast
  have "ran ?cap live2 results (ctx2, snd d @ [lb_tokens batch2]) (boot_and_generate lib vocab live batch results d)"
  proof (cases "ret = 0")
    case True
    have cap2: "lb_capacity batch2 = ?cap" and ids2: "map ls_seq_id live2 = map ls_seq_id live"
      using b(2) d1 advance_ids by (auto simp: appends_def batch_clear_def decodes_def)
    have "distinct (map ls_seq_id live2)" "int (length live2) \<le> lb_capacity batch2"
      using ids cap cap2 ids2 by (auto dest: map_eq_imp_length_eq)
    from generate_ran [OF this boot ans2, where lib = lib and vocab = vocab and d = "(ctx2, snd d @ [lb_tokens batch2])"] show ?thesis
      using b(1) dec True cap2 \<open>lb_tokens batch2 \<noteq> []\<close> by (auto simp: boot_and_generate_def)
  next
    case False
    have "\<forall>seq \<in> set live2. bounded seq" using boot booted_bounded by blast
    from ran_failed [OF ans2 this, of "status_error EC_InferenceFailed ''llama_decode bootstrap failed''"] False
    show ?thesis using b(1) dec \<open>lb_tokens batch2 \<noteq> []\<close> by (simp add: boot_and_generate_def)
  qed
  then show ?thesis by (rule ran_trans [OF d1 _ same(3,4)])
qed

lemma run_live_seqs_spec:
  assumes ids: "distinct (map ls_seq_id live)" and ne: "live \<noteq> []" and ready: "\<forall>seq \<in> set live. ready seq"
    and ans: "answers results live"
    and cap: "0 < sint (lm_n_batch (ld_model_config entry))" "int (length live) \<le> sint (lm_n_batch (ld_model_config entry))"
  shows "ran (sint (lm_n_batch (ld_model_config entry))) live results d (run_live_seqs lib entry live results d)"
proof -
  let ?cap = "sint (lm_n_batch (ld_model_config entry))"
  let ?batch = "\<lparr>lb_capacity = ?cap, lb_tokens = []\<rparr>"
  have fits: "\<forall>seq \<in> set live. fits seq" using ready by (simp add: ready_def fits_def)
  obtain ok live1 batch1 ctx1 new1 where p:
    "prefix_stage lib live ?batch d = Some (ok, live1, batch1, ctx1, snd d @ new1)"
    "decodes ?cap live new1 live1" "list_all2 keeps live live1" "lb_capacity batch1 = ?cap"
    "ok \<longrightarrow> (\<forall>seq \<in> set live1. ls_active seq \<longrightarrow> length (ls_prompt_tokens seq) \<le> ls_n_past seq + 1)"
    using prefix_stage_spec [OF ids, of ?batch lib d] cap(1) fits by auto
  have st1: "ls_active seq \<and> ls_generated seq = 0 \<and> fits seq" if seq1: "seq \<in> set live1" for seq
    using list_all2_set2 [OF p(3) seq1] ready all_keeps_fits [OF p(3) fits] seq1
    by (auto simp: keeps_def ready_def same_seq_def)
  have "list_all2 (\<lambda>seq seq'. same_seq seq seq' \<and> ls_active seq' = ls_active seq) live live1"
    by (rule list_all2_mono [OF p(3)]) (simp add: keeps_def)
  note same1 = answers_same [OF this]
  have ids1: "map ls_seq_id live1 = map ls_seq_id live" by (rule keeps_ids [OF p(3)])
  then have len1: "length live1 = length live" by (rule map_eq_imp_length_eq)
  then have ne1: "live1 \<noteq> []" using ne by auto
  have ans1: "answers results live1" using ans same1(1) by simp
  have "ran ?cap live1 results (ctx1, snd d @ new1) (run_live_seqs lib entry live results d)"
  proof (cases ok)
    case False
    then have "run_live_seqs lib entry live results d = Some ((ctx1, snd d @ new1),
        fail_live_seqs (status_error EC_InferenceFailed ''llama_decode prefix failed'') live1 results)"
      using p(1) by (simp add: run_live_seqs_def)
    moreover have "\<forall>seq \<in> set live1. bounded seq" using st1 by (fastforce simp: bounded_def fits_def)
    ultimately show ?thesis
      using ran_failed [OF ans1, of "status_error EC_InferenceFailed ''llama_decode prefix failed''" ?cap ctx1] by simp
  next
    case True
    have "\<forall>seq \<in> set live1. ls_active seq \<and> ls_generated seq = 0 \<and> fits seq \<and>
        ls_n_past seq + 1 = length (ls_prompt_tokens seq)"
      using p(5) st1 True by (fastforce simp: fits_def)
    from bootstrap_ran [OF this ans1, where batch = batch1 and lib = lib and vocab = "ld_vocab entry"
        and d = "(ctx1, snd d @ new1)"] show ?thesis
      using p(1,4) True ids ids1 len1 cap ne1 by (auto simp: run_live_seqs_def Let_def)
  qed
  then show ?thesis by (rule ran_trans [OF p(2) _ same1(3,4)])
qed

section \<open>Preparing the sequences\<close>

lemma resize_length [simp]: "length (resize zero n xs) = n"
  by (simp add: resize_def)

lemma sint_i32_less: "nat (sint (w :: i32)) < 2 ^ 31"
  using sint_lt [of w] by (simp add: nat_less_iff)

lemma tokenize_length: "tokenize_prompt lib vocab prompt = Inr tokens \<Longrightarrow> length tokens < 2 ^ 31"
  using sint_i32_less by (auto simp: tokenize_prompt_def Let_def split: if_splits prod.splits)

text \<open>The sequence of a request that passed the checks, and the state of the preparation after n requests.\<close>

definition accepted ::
  "('m, 'v, 'c, 's) LlamaLib \<Rightarrow> ('m, 'v, 'c) LoadedModel \<Rightarrow> InferenceRequest list \<Rightarrow> 's LiveSeq \<Rightarrow> bool" where
  "accepted lib entry reqs seq \<longleftrightarrow>
     ready seq \<and> ls_result_index seq < length reqs \<and>
     (let req = reqs ! ls_result_index seq in
      tokenize_prompt lib (ld_vocab entry) (rq_prompt req) = Inr (ls_prompt_tokens seq) \<and>
      ls_max_output seq = rq_max_output_tokens req \<and>
      of_nat (length (ls_prompt_tokens seq)) + rq_max_output_tokens req
        \<le> (ucast (lm_context_tokens_per_sequence (ld_model_config entry)) :: u64))"

definition admitted :: "('m, 'v, 'c, 's) LlamaLib \<Rightarrow> ('m, 'v, 'c) LoadedModel \<Rightarrow> InferenceRequest \<Rightarrow> bool" where
  "admitted lib entry req \<longleftrightarrow> \<not> isl (setup_seq lib entry 0 0 req)"

lemma isl_setup_seq: "isl (setup_seq lib entry i n req) \<longleftrightarrow> \<not> admitted lib entry req"
  by (simp add: admitted_def setup_seq_def Let_def split: sum.splits option.splits)

definition prepared ::
  "('m, 'v, 'c, 's) LlamaLib \<Rightarrow> ('m, 'v, 'c) LoadedModel \<Rightarrow> InferenceRequest list \<Rightarrow> nat \<Rightarrow>
   's LiveSeq list \<Rightarrow> InferenceResult list \<Rightarrow> bool" where
  "prepared lib entry reqs n live results \<longleftrightarrow>
     length results = length reqs \<and> map ls_seq_id live = [0..<length live] \<and> length live \<le> n \<and>
     (\<forall>seq \<in> set live. accepted lib entry reqs seq \<and> ls_result_index seq < n) \<and>
     distinct (map ls_result_index live) \<and>
     map ls_result_index live = filter (\<lambda>j. admitted lib entry (reqs ! j)) [0..<n] \<and>
     (\<forall>j < n. j \<in> indices live \<or> failed_result (results ! j))"

lemma setup_seq_spec:
  assumes "n < length reqs"
  shows "case setup_seq lib entry n k (reqs ! n) of
      Inl r \<Rightarrow> failed_result r
    | Inr seq \<Rightarrow> accepted lib entry reqs seq \<and> ls_result_index seq = n \<and> ls_seq_id seq = k"
  using assms
  by (auto simp: setup_seq_def accepted_def ready_def failed_result_def Let_def not_less
      split: sum.splits option.splits dest: tokenize_length)

lemma setup_live_spec:
  "setup_live lib entry n (drop n reqs) live results = (live', results') \<Longrightarrow> n \<le> length reqs \<Longrightarrow>
   prepared lib entry reqs n live results \<Longrightarrow> prepared lib entry reqs (length reqs) live' results'"
proof (induction "length reqs - n" arbitrary: n live results)
  case (Suc k)
  then have n: "n < length reqs" by simp
  then have "drop n reqs = reqs ! n # drop (Suc n) reqs" by (simp add: Cons_nth_drop_Suc)
  with Suc.prems(1) have run: "(case setup_seq lib entry n (length live) (reqs ! n) of
      Inl r \<Rightarrow> setup_live lib entry (n + 1) (drop (Suc n) reqs) live (results[n := r])
    | Inr seq \<Rightarrow> setup_live lib entry (n + 1) (drop (Suc n) reqs) (live @ [seq]) results) = (live', results')"
    by simp
  have k: "k = length reqs - Suc n" "Suc n \<le> length reqs" using Suc.hyps(2) n by simp_all
  note s = setup_seq_spec [OF n, of lib entry "length live"] and a = isl_setup_seq [of lib entry n "length live" "reqs ! n"]
  note p = Suc.prems(3) [unfolded prepared_def]
  show ?case
  proof (cases "setup_seq lib entry n (length live) (reqs ! n)")
    case (Inl r)
    have "prepared lib entry reqs (Suc n) live (results[n := r])"
      using p s a Inl n by (auto simp: prepared_def less_Suc_eq nth_list_update)
    from Suc.hyps(1) [OF k(1) _ k(2) this] run Inl show ?thesis by simp
  next
    case (Inr seq)
    have "prepared lib entry reqs (Suc n) (live @ [seq]) results"
      using p s a Inr by (auto simp: prepared_def less_Suc_eq)
    from Suc.hyps(1) [OF k(1) _ k(2) this] run Inr show ?thesis by simp
  qed
qed simp

section \<open>The backend\<close>

definition llama_inv :: "('m, 'v, 'c) LlamaCppBackend \<Rightarrow> bool" where
  "llama_inv b \<longleftrightarrow>
     status_ok (validate (lk_config b)) \<and>
     (\<forall>m entry. map_of (lk_loaded b) m = Some entry \<longrightarrow>
        map_of (lc_models (lk_config b)) m = Some (ld_model_config entry))"

text \<open>The capacity of a batch is a 32 bit signed integer.\<close>

definition small_batches :: "('m, 'v, 'c) LlamaCppBackend \<Rightarrow> bool" where
  "small_batches b \<longleftrightarrow> (\<forall>x \<in> set (lc_models (lk_config b)). unat (lm_n_batch (snd x)) < 2 ^ 31)"

text \<open>Every position within a context is a 32 bit signed integer.\<close>

definition small_contexts :: "('m, 'v, 'c) LlamaCppBackend \<Rightarrow> bool" where
  "small_contexts b \<longleftrightarrow>
     (\<forall>x \<in> set (lc_models (lk_config b)). unat (lm_context_tokens_per_sequence (snd x)) \<le> 2 ^ 31)"

lemma llama_make_inv: "llama_make runtime config = Inr b \<Longrightarrow> llama_inv b"
  by (auto simp: llama_make_def llama_inv_def Let_def split: if_splits)

lemma llama_load_inv: "llama_load lib spec b = (st, b') \<Longrightarrow> llama_inv b \<Longrightarrow> llama_inv b'"
  by (auto simp: llama_load_def load_locked_def open_model_def llama_inv_def update_conv' Let_def
      split: option.splits if_splits sum.splits)

lemma llama_unload_inv: "llama_unload m b = (st, b') \<Longrightarrow> llama_inv b \<Longrightarrow> llama_inv b'"
  by (auto simp: llama_unload_def llama_inv_def delete_conv' split: if_splits)

lemma sint_small: "unat (w :: u32) < 2 ^ 31 \<Longrightarrow> sint w = int (unat w)"
  using sint_nonnegative [of w] by simp

lemma model_config_valid:
  assumes "llama_inv b" "map_of (lk_loaded b) m = Some entry"
  shows "map_of (lc_models (lk_config b)) m = Some (ld_model_config entry)"
    "model_valid (lc_max_sequences (lk_config b)) (m, ld_model_config entry)"
proof -
  show c: "map_of (lc_models (lk_config b)) m = Some (ld_model_config entry)" using assms by (simp add: llama_inv_def)
  show "model_valid (lc_max_sequences (lk_config b)) (m, ld_model_config entry)"
    using assms(1) map_of_SomeD [OF c] by (auto simp: llama_inv_def validate_iff)
qed

lemma loaded_capacity:
  assumes "llama_inv b" "small_batches b" "map_of (lk_loaded b) m = Some entry"
  shows "sint (lm_n_batch (ld_model_config entry)) = int (unat (lm_n_batch (ld_model_config entry)))"
    "lc_max_sequences (lk_config b) \<le> unat (lm_n_batch (ld_model_config entry))"
    "1 \<le> lc_max_sequences (lk_config b)"
proof -
  have "(m, ld_model_config entry) \<in> set (lc_models (lk_config b))"
    by (rule map_of_SomeD [OF model_config_valid(1) [OF assms(1,3)]])
  then have "unat (lm_n_batch (ld_model_config entry)) < 2 ^ 31"
    using assms(2) unfolding small_batches_def by fastforce
  then show "sint (lm_n_batch (ld_model_config entry)) = int (unat (lm_n_batch (ld_model_config entry)))"
    by (rule sint_small)
  show "lc_max_sequences (lk_config b) \<le> unat (lm_n_batch (ld_model_config entry))"
    using model_config_valid(2) [OF assms(1,3)] by (simp add: model_valid_def)
  show "1 \<le> lc_max_sequences (lk_config b)" using assms(1) by (simp add: llama_inv_def validate_iff)
qed

text \<open>A batch that gets past the checks of its members.\<close>

definition same_model :: "InferenceRequest option list \<Rightarrow> bool" where
  "same_model requests \<longleftrightarrow> (\<forall>v \<in> set requests. rq_model_id (the v) = rq_model_id (the (hd requests)))"

definition runnable :: "InferenceRequest option list \<Rightarrow> ('m, 'v, 'c) LlamaCppBackend \<Rightarrow> ('m, 'v, 'c) LoadedModel \<Rightarrow> bool" where
  "runnable requests b entry \<longleftrightarrow>
     requests \<noteq> [] \<and> None \<notin> set requests \<and> length requests \<le> lc_max_sequences (lk_config b) \<and>
     same_model requests \<and> map_of (lk_loaded b) (rq_model_id (the (hd requests))) = Some entry"

lemma tl_models:
  "requests \<noteq> [] \<Longrightarrow> (\<exists>r \<in> set (tl (map the requests)). rq_model_id r \<noteq> rq_model_id (hd (map the requests))) \<longleftrightarrow>
   \<not> same_model requests"
  by (cases requests) (auto simp: same_model_def)

lemma infer_batch_checked:
  assumes "requests \<noteq> []" "None \<notin> set requests"
  shows "infer_batch_locked lib requests b =
    (let m = rq_model_id (the (hd requests)); results = initial_results requests;
         failed = (\<lambda>code msg. Some (all_failed (status_error code msg) results, [], b)) in
     if \<not> same_model requests then failed EC_InternalError ''incompatible batch member''
     else if length requests > lc_max_sequences (lk_config b)
     then failed EC_InternalError ''batch exceeds max_sequences''
     else
       (case map_of (lk_loaded b) m of
          None \<Rightarrow> failed EC_InferenceFailed ''model is not loaded''
        | Some entry \<Rightarrow>
            (case setup_live lib entry 0 (map the requests) [] results of (live, results1) \<Rightarrow>
             case (if live = [] then Some ((clear_memory lib (ld_context entry), []), results1)
                   else run_live_seqs lib entry live results1 (clear_memory lib (ld_context entry), [])) of
               None \<Rightarrow> None
             | Some ((ctx, calls), results2) \<Rightarrow>
                 Some (results2, calls, b\<lparr>lk_loaded := AList.update m
                   (entry\<lparr>ld_context := clear_memory lib ctx\<rparr>) (lk_loaded b)\<rparr>))))"
proof -
  have hd: "hd (map the requests) = the (hd requests)" using assms(1) by (simp add: hd_map)
  show ?thesis
    using assms unfolding infer_batch_locked_def Let_def tl_models [OF assms(1)] unfolding hd by (simp only: if_False)
qed

lemma not_runnable:
  assumes "\<And>entry. \<not> runnable requests b entry"
  shows "\<exists>results. infer_batch_locked lib requests b = Some (results, [], b) \<and> length results = length requests"
proof (cases "requests = [] \<or> None \<in> set requests")
  case False
  then have ne: "requests \<noteq> []" "None \<notin> set requests" by auto
  let ?m = "rq_model_id (the (hd requests))"
  have len: "length (all_failed st (initial_results requests)) = length requests" for st
    by (simp add: all_failed_def initial_results_def)
  consider "\<not> same_model requests"
    | "same_model requests \<and> length requests > lc_max_sequences (lk_config b)"
    | "same_model requests \<and> \<not> length requests > lc_max_sequences (lk_config b) \<and>
        map_of (lk_loaded b) ?m = None"
    using assms ne unfolding runnable_def by (metis linorder_not_less option.exhaust)
  then show ?thesis using len unfolding infer_batch_checked [OF ne] Let_def by cases simp_all
qed (auto simp: infer_batch_locked_def initial_results_def Let_def)

lemma runnable_run:
  assumes run: "runnable requests b entry"
  shows "\<exists>live results1. setup_live lib entry 0 (map the requests) [] (initial_results requests) = (live, results1) \<and>
    prepared lib entry (map the requests) (length requests) live results1 \<and>
    infer_batch_locked lib requests b =
      (case (if live = [] then Some ((clear_memory lib (ld_context entry), []), results1)
             else run_live_seqs lib entry live results1 (clear_memory lib (ld_context entry), [])) of
         None \<Rightarrow> None
       | Some ((ctx, calls), results2) \<Rightarrow>
           Some (results2, calls, b\<lparr>lk_loaded := AList.update (rq_model_id (the (hd requests)))
             (entry\<lparr>ld_context := clear_memory lib ctx\<rparr>) (lk_loaded b)\<rparr>))"
proof -
  obtain live results1 where s: "setup_live lib entry 0 (map the requests) [] (initial_results requests) = (live, results1)"
    by fastforce
  have ne: "requests \<noteq> []" "None \<notin> set requests" using run by (simp_all add: runnable_def)
  have "prepared lib entry (map the requests) 0 [] (initial_results requests)"
    by (simp add: prepared_def initial_results_def)
  from setup_live_spec [of lib entry 0 "map the requests" "[]" "initial_results requests" live results1] this s
  have "prepared lib entry (map the requests) (length requests) live results1" by simp
  moreover have "\<not> length requests > lc_max_sequences (lk_config b)"
    "map_of (lk_loaded b) (rq_model_id (the (hd requests))) = Some entry"
    "same_model requests"
    using run by (auto simp: runnable_def)
  ultimately show ?thesis using s unfolding infer_batch_checked [OF ne] Let_def by simp
qed

lemma runnable_spec:
  assumes inv: "llama_inv b" "small_batches b" and run: "runnable requests b entry"
  shows "\<exists>live results1. prepared lib entry (map the requests) (length requests) live results1 \<and>
    (infer_batch_locked lib requests b = None \<and> (\<exists>seq \<in> set live. \<not> roomy seq) \<or>
     (\<exists>calls results b' live'. infer_batch_locked lib requests b = Some (results, calls, b') \<and>
        decodes (int (unat (lm_n_batch (ld_model_config entry)))) live calls live' \<and> (\<forall>seq \<in> set live'. bounded seq) \<and>
        only_at (indices live) results1 results \<and> all_answered results live))"
proof -
  let ?d = "(clear_memory lib (ld_context entry), [])"
  obtain live results1 where s: "prepared lib entry (map the requests) (length requests) live results1"
    "infer_batch_locked lib requests b =
      (case (if live = [] then Some (?d, results1) else run_live_seqs lib entry live results1 ?d) of
         None \<Rightarrow> None
       | Some ((ctx, calls), results2) \<Rightarrow>
           Some (results2, calls, b\<lparr>lk_loaded := AList.update (rq_model_id (the (hd requests)))
             (entry\<lparr>ld_context := clear_memory lib ctx\<rparr>) (lk_loaded b)\<rparr>))"
    using runnable_run [OF run, of lib] by blast
  have loaded: "map_of (lk_loaded b) (rq_model_id (the (hd requests))) = Some entry"
    and len: "length live \<le> lc_max_sequences (lk_config b)"
    using run s(1) by (auto simp: runnable_def prepared_def)
  note cap = loaded_capacity [OF inv loaded]
  show ?thesis
  proof (cases "live = []")
    case True
    then show ?thesis using s decodes_Nil [of "int (unat (lm_n_batch (ld_model_config entry)))" live]
      by (intro exI [of _ live] exI [of _ results1]) (auto simp: all_answered_def)
  next
    case False
    have "distinct (map ls_seq_id live)" "\<forall>seq \<in> set live. ready seq" "answers results1 live"
      using s(1) by (auto simp: prepared_def accepted_def answers_def ready_def)
    moreover have "0 < sint (lm_n_batch (ld_model_config entry))" "int (length live) \<le> sint (lm_n_batch (ld_model_config entry))"
      using cap len by linarith+
    ultimately have "ran (sint (lm_n_batch (ld_model_config entry))) live results1 ?d (run_live_seqs lib entry live results1 ?d)"
      using run_live_seqs_spec [of live results1 entry ?d lib] False by blast
    then show ?thesis using s False cap(1)
      by (intro exI [of _ live] exI [of _ results1]) (fastforce simp: ran_def)
  qed
qed

text \<open>The tokens of one sequence over all calls, and how far they reach.\<close>

lemma decodes_seq:
  assumes d: "decodes cap live calls live'" and p: "prepared lib entry reqs n live results"
    and t: "t \<in> set (concat calls)"
  obtains seq seq' where "seq \<in> set live" "seq' \<in> set live'" "ls_seq_id seq = bt_seq_id t"
    "advance (concat calls) seq seq'" "accepted lib entry reqs seq" "bt_seq_id t < length live" "bt_pos t < ls_n_past seq'"
proof -
  obtain c where c: "c \<in> set calls" "t \<in> set c" using t by auto
  then have "bt_seq_id t \<in> seq_ids live" using d by (auto simp: decodes_def)
  then obtain i where i: "i < length live" "ls_seq_id (live ! i) = bt_seq_id t" by (auto simp: in_set_conv_nth)
  have adv: "advance (concat calls) (live ! i) (live' ! i)" and "i < length live'"
    using d i(1) by (auto simp: decodes_def list_all2_conv_all_nth)
  have acc: "accepted lib entry reqs (live ! i)" using p i(1) by (simp add: prepared_def)
  have "t \<in> set (of_seq (ls_seq_id (live ! i)) (concat calls))" using t i(2) by (simp add: of_seq_def)
  then have "bt_pos t \<in> set (map bt_pos (of_seq (ls_seq_id (live ! i)) (concat calls)))" unfolding list.set_map by (rule imageI)
  moreover have "map bt_pos (of_seq (ls_seq_id (live ! i)) (concat calls)) = [ls_n_past (live ! i) ..< ls_n_past (live' ! i)]"
    using adv by (simp add: advance_def Let_def)
  ultimately have "bt_pos t < ls_n_past (live' ! i)" by (metis atLeastLessThan_iff set_upt)
  moreover have "bt_seq_id t < length live"
    using p i by (auto simp: prepared_def dest: arg_cong [where f = "\<lambda>xs. xs ! i"])
  ultimately show thesis using that [of "live ! i" "live' ! i"] i adv acc \<open>i < length live'\<close> by simp
qed

lemma prepared_seq:
  assumes "prepared lib entry reqs n live results" "seq \<in> set live"
  shows "ls_seq_id seq < length live \<and> seq = live ! ls_seq_id seq"
proof -
  obtain i where i: "i < length live" "seq = live ! i" using assms(2) by (auto simp: in_set_conv_nth)
  have "map ls_seq_id live ! i = [0..<length live] ! i" using assms(1) by (simp add: prepared_def)
  then show ?thesis using i by simp
qed

lemma prepared_admitted:
  assumes "prepared lib entry (map the requests) (length requests) live results"
  shows "map ls_result_index live = filter (\<lambda>j. admitted lib entry (the (requests ! j))) [0..<length requests]"
  using assms by (auto simp: prepared_def intro!: filter_cong)

text \<open>Within the context, as long as the sum in the check does not wrap around.\<close>

lemma accepted_room:
  assumes "accepted lib entry reqs seq" "unat (ls_max_output seq) \<le> 2 ^ 63"
  shows "length (ls_prompt_tokens seq) + unat (ls_max_output seq)
    \<le> unat (lm_context_tokens_per_sequence (ld_model_config entry))"
proof -
  let ?n = "length (ls_prompt_tokens seq)"
  have "?n < 2 ^ 31" using assms(1) tokenize_length by (auto simp: accepted_def Let_def)
  then have "unat (of_nat ?n :: u64) = ?n" "?n + unat (ls_max_output seq) < 2 ^ 64"
    using assms(2) by (simp_all add: unat_of_nat)
  then have "unat (of_nat ?n + ls_max_output seq) = ?n + unat (ls_max_output seq)"
    by (subst unat_add_u64) simp_all
  moreover have "of_nat ?n + ls_max_output seq \<le> (ucast (lm_context_tokens_per_sequence (ld_model_config entry)) :: u64)"
    using assms(1) by (simp add: accepted_def Let_def)
  ultimately show ?thesis by (simp add: word_le_nat_alt unat_ucast_u64)
qed

lemma accepted_roomy:
  assumes "accepted lib entry reqs seq" "unat (ls_max_output seq) \<le> 2 ^ 63"
    and "unat (lm_context_tokens_per_sequence (ld_model_config entry)) \<le> 2 ^ 31"
  shows "roomy seq"
proof -
  have "length (ls_prompt_tokens seq) < 2 ^ 31" using assms(1) by (simp add: accepted_def ready_def)
  then show ?thesis using accepted_room [OF assms(1,2)] assms(3) by (auto simp: roomy_def)
qed

lemma accepted_request:
  assumes "accepted lib entry (map the requests) seq" "None \<notin> set requests"
  obtains r where "requests ! ls_result_index seq = Some r" "Some r \<in> set requests" "ls_prompt_tokens seq \<noteq> []"
    "tokenize_prompt lib (ld_vocab entry) (rq_prompt r) = Inr (ls_prompt_tokens seq)"
    "ls_max_output seq = rq_max_output_tokens r"
proof -
  have i: "ls_result_index seq < length requests" using assms(1) by (simp add: accepted_def)
  then have "requests ! ls_result_index seq \<in> set requests" by simp
  then obtain r where "requests ! ls_result_index seq = Some r" "Some r \<in> set requests"
    using assms(2) by (metis option.exhaust)
  then show thesis using that assms(1) i by (simp add: accepted_def ready_def Let_def)
qed

lemma prepared_roomy:
  assumes inv: "llama_inv b" "small_contexts b" and run: "runnable requests b entry"
    and max: "\<forall>v \<in> set requests. case v of None \<Rightarrow> True | Some r \<Rightarrow> unat (rq_max_output_tokens r) \<le> 2 ^ 63"
    and prep: "prepared lib entry (map the requests) n live results" and seq: "seq \<in> set live"
  shows "roomy seq"
proof -
  have loaded: "map_of (lk_loaded b) (rq_model_id (the (hd requests))) = Some entry" and none: "None \<notin> set requests"
    using run by (simp_all add: runnable_def)
  from map_of_SomeD [OF model_config_valid(1) [OF inv(1) loaded]]
  have ctx: "unat (lm_context_tokens_per_sequence (ld_model_config entry)) \<le> 2 ^ 31"
    using inv(2) unfolding small_contexts_def by fastforce
  have acc: "accepted lib entry (map the requests) seq" using prep seq by (simp add: prepared_def)
  obtain r where "Some r \<in> set requests" "ls_max_output seq = rq_max_output_tokens r"
    by (rule accepted_request [OF acc none])
  then have "unat (ls_max_output seq) \<le> 2 ^ 63" using max by fastforce
  then show ?thesis by (rule accepted_roomy [OF acc _ ctx])
qed

section \<open>Properties\<close>

text \<open>
  C13: Running a batch is memory safe and stays within the context. For a backend as its
  constructor and its operations leave it, with batch sizes that fit a signed 32 bit integer,
  contexts of at most $2^{31}$ tokens, and requests for at most $2^{63}$ tokens, whatever the
  library answers: the inference ends without writing outside the arrays of the \<^verbatim>\<open>llama_batch\<close>
  and without an overflow of a signed 32 bit position, gives one result per request, and every
  batch it decodes is non-empty, has at most \<^verbatim>\<open>n_batch\<close> tokens, all at positions below
  \<^verbatim>\<open>context_tokens_per_sequence\<close> and of sequences below \<^verbatim>\<open>max_sequences\<close>.
\<close>

theorem llama_batch_safe:
  assumes inv: "llama_inv b" "small_batches b" "small_contexts b"
    and max: "\<forall>v \<in> set requests. case v of None \<Rightarrow> True | Some r \<Rightarrow> unat (rq_max_output_tokens r) \<le> 2 ^ 63"
  shows "\<exists>results calls b'. infer_batch_locked lib requests b = Some (results, calls, b') \<and>
    length results = length requests \<and>
    (\<forall>c \<in> set calls. \<exists>mcfg.
       map_of (lc_models (lk_config b)) (rq_model_id (the (hd requests))) = Some mcfg \<and>
       c \<noteq> [] \<and> length c \<le> unat (lm_n_batch mcfg) \<and>
       (\<forall>t \<in> set c. bt_pos t < unat (lm_context_tokens_per_sequence mcfg) \<and>
          bt_seq_id t < lc_max_sequences (lk_config b)))"
proof (cases "\<exists>entry. runnable requests b entry")
  case False
  then show ?thesis using not_runnable [of requests b lib] by fastforce
next
  case True
  then obtain entry where run: "runnable requests b entry" by blast
  let ?mcfg = "ld_model_config entry"
  obtain live results1 calls results b' live' where s:
    "prepared lib entry (map the requests) (length requests) live results1"
    "infer_batch_locked lib requests b = Some (results, calls, b')"
    "decodes (int (unat (lm_n_batch ?mcfg))) live calls live'" "\<forall>seq \<in> set live'. bounded seq"
    "only_at (indices live) results1 results"
    using runnable_spec [OF inv(1,2) run, of lib] prepared_roomy [OF inv(1,3) run max] by blast
  have cfg: "map_of (lc_models (lk_config b)) (rq_model_id (the (hd requests))) = Some ?mcfg"
    using model_config_valid(1) [OF inv(1)] run by (simp add: runnable_def)
  have len: "length live \<le> lc_max_sequences (lk_config b)" using s(1) run by (auto simp: prepared_def runnable_def)
  have "bt_pos t < unat (lm_context_tokens_per_sequence ?mcfg) \<and> bt_seq_id t < lc_max_sequences (lk_config b)"
    if "c \<in> set calls" "t \<in> set c" for c t
  proof -
    have "t \<in> set (concat calls)" using that by auto
    then obtain seq seq' where q: "seq' \<in> set live'" "advance (concat calls) seq seq'"
      "accepted lib entry (map the requests) seq" "bt_seq_id t < length live" "bt_pos t < ls_n_past seq'"
      by (rule decodes_seq [OF s(3,1)])
    have same: "ls_prompt_tokens seq' = ls_prompt_tokens seq" "ls_max_output seq' = ls_max_output seq"
      using q(2) by (simp_all add: advance_def same_seq_def)
    have "None \<notin> set requests" using run by (simp add: runnable_def)
    then obtain r where r: "Some r \<in> set requests" "ls_prompt_tokens seq \<noteq> []" "ls_max_output seq = rq_max_output_tokens r"
      by (rule accepted_request [OF q(3)])
    then have "unat (ls_max_output seq) \<le> 2 ^ 63" using max by fastforce
    from accepted_room [OF q(3) this] s(4) q(1,5) same r(2)
    have "bt_pos t < unat (lm_context_tokens_per_sequence ?mcfg)"
      by (fastforce simp: bounded_def length_greater_0_conv [symmetric] simp del: length_greater_0_conv)
    then show ?thesis using q(4) len by simp
  qed
  moreover have "c \<noteq> [] \<and> length c \<le> unat (lm_n_batch ?mcfg)" if "c \<in> set calls" for c
    using s(3) that unfolding decodes_def by (metis of_nat_le_iff)
  moreover have "length results = length requests" using s(1,5) by (simp add: prepared_def only_at_def)
  ultimately show ?thesis using s(2) cfg by blast
qed

text \<open>
  C36: The tokens of every sequence are decoded in order. Sequence numbers go to the requests that
  pass the checks, in the order of the batch: over all calls of \<^verbatim>\<open>llama_decode\<close> of one
  inference, the tokens with the number n are those of the n-th such request. They have the
  positions 0, 1, 2 and so on without gaps, all of which are 32 bit signed integers, and as far as
  they reach into the prompt of that request they are the tokens of its prompt in order.
\<close>

theorem llama_sequences:
  assumes inv: "llama_inv b" "small_batches b" and run: "runnable requests b entry"
    and res: "infer_batch_locked lib requests b = Some (results, calls, b')"
  shows "let own = of_seq sid (concat calls);
         js = filter (\<lambda>j. admitted lib entry (the (requests ! j))) [0..<length requests] in
    map bt_pos own = [0..<length own] \<and> length own < 2 ^ 31 \<and>
    (own \<noteq> [] \<longrightarrow> sid < length js \<and> (\<exists>tokens.
       tokenize_prompt lib (ld_vocab entry) (rq_prompt (the (requests ! (js ! sid)))) = Inr tokens \<and>
       (\<forall>k < min (length own) (length tokens). bt_token (own ! k) = tokens ! k)))"
proof (cases "of_seq sid (concat calls) = []")
  case False
  let ?js = "filter (\<lambda>j. admitted lib entry (the (requests ! j))) [0..<length requests]"
  obtain live results1 live' where s: "prepared lib entry (map the requests) (length requests) live results1"
    "decodes (int (unat (lm_n_batch (ld_model_config entry)))) live calls live'"
    using runnable_spec [OF inv run, of lib] res by auto
  obtain t where t: "t \<in> set (concat calls)" "bt_seq_id t = sid"
    using False by (auto simp: of_seq_def filter_empty_conv)
  then obtain seq seq' where q: "seq = live ! sid" "advance (concat calls) seq seq'"
    "accepted lib entry (map the requests) seq" "sid < length live" "ls_seq_id seq = sid"
    using decodes_seq [OF s(2,1) t(1)] prepared_seq [OF s(1)] by metis
  have js: "map ls_result_index live = ?js" using prepared_admitted [OF s(1)] .
  then have len: "sid < length ?js" and idx: "?js ! sid = ls_result_index seq"
    using q(1,4) by (metis length_map, metis nth_map)
  have "tokenize_prompt lib (ld_vocab entry) (rq_prompt (the (requests ! (?js ! sid)))) = Inr (ls_prompt_tokens seq)"
    using q(3) unfolding idx by (auto simp: accepted_def Let_def)
  moreover have "ls_n_past seq = 0" using q(3) by (simp add: accepted_def ready_def)
  ultimately show ?thesis using q(2,5) len by (auto simp: advance_def Let_def)
qed simp

text \<open>
  C37: Every request of a batch is answered. For requests of one loaded model, at most as many
  as the backend has sequences, and whatever the library does (tokenizing, sampling or decoding may
  fail at any point), each result is a failure with an error and no output, or a success
  with an output of at most as many tokens as the request asked for (one if it asked for
  none); the default result is never left in place.
\<close>

theorem llama_answers:
  assumes inv: "llama_inv b" "small_batches b" and run: "runnable requests b entry"
    and res: "infer_batch_locked lib requests b = Some (results, calls, b')" and i: "i < length requests"
  shows "answered (unat (rq_max_output_tokens (the (requests ! i)))) (results ! i)"
proof -
  obtain live results1 where s: "prepared lib entry (map the requests) (length requests) live results1"
    "only_at (indices live) results1 results" "all_answered results live"
    using runnable_spec [OF inv run, of lib] res by auto
  show ?thesis
  proof (cases "i \<in> indices live")
    case True
    then obtain seq where seq: "seq \<in> set live" "ls_result_index seq = i" by auto
    then have "ls_max_output seq = rq_max_output_tokens (the (requests ! i))"
      using s(1) i by (auto simp: prepared_def accepted_def Let_def)
    then show ?thesis using s(3) seq by (auto simp: all_answered_def)
  next
    case False
    then show ?thesis using s(1,2) i by (auto simp: prepared_def only_at_def answered_def)
  qed
qed

text \<open>
  Loading opens the context with room for every sequence. For a configured model that is
  not loaded, loading succeeds exactly if the file is there, the product of the context per
  sequence and the number of sequences fits 32 bits, and the library opens the model with
  exactly that product as the size of its context; the factors are not truncated. The model is
  loaded afterwards if and only if loading succeeded.
\<close>

lemma llama_load_room:
  assumes inv: "llama_inv b" and cfg: "map_of (lc_models (lk_config b)) (ms_model_id spec) = Some mcfg"
    and new: "\<not> llama_is_loaded (ms_model_id spec) b" and run: "llama_load lib spec b = (st, b')"
  shows "let n_ctx = unat (lm_context_tokens_per_sequence mcfg) * lc_max_sequences (lk_config b) in
    (status_ok st \<longleftrightarrow> fs_exists lib (lm_gguf_path mcfg) \<and> fs_is_regular_file lib (lm_gguf_path mcfg) \<and>
       n_ctx < 2 ^ 32 \<and> \<not> isl (open_model lib (lk_config b) mcfg (of_nat n_ctx))) \<and>
    (llama_is_loaded (ms_model_id spec) b' \<longleftrightarrow> status_ok st)"
proof -
  let ?max = "lc_max_sequences (lk_config b)"
  have "model_valid ?max (ms_model_id spec, mcfg)"
    using inv map_of_SomeD [OF cfg] by (auto simp: llama_inv_def validate_iff)
  moreover have "unat (lm_n_batch mcfg) < 2 ^ 32" using unsigned_less [of "lm_n_batch mcfg"] by simp
  ultimately have "?max < 2 ^ 32" by (simp add: model_valid_def)
  then have max: "unat (of_nat ?max :: u32) = ?max" by (simp add: unat_of_nat)
  have mul: "checked_mul_u32 (lm_context_tokens_per_sequence mcfg) (of_nat ?max) =
      (if unat (lm_context_tokens_per_sequence mcfg) * ?max < 2 ^ 32
       then Some (of_nat (unat (lm_context_tokens_per_sequence mcfg) * ?max)) else None)"
    unfolding checked_mul_u32_spec max by simp
  have "llama_is_loaded (ms_model_id spec) b' \<longleftrightarrow> status_ok st" using llama.load_loaded [OF run new] by simp
  moreover have "st_code st \<noteq> EC_None" if "open_model lib (lk_config b) mcfg n = Inl st" for n
    using that by (auto simp: open_model_def Let_def split: option.splits if_splits)
  ultimately show ?thesis
    using run cfg new mul
    by (auto simp: llama_load_def load_locked_def llama_is_loaded_def status_ok_def Let_def
        split: option.splits if_splits sum.splits)
qed

section \<open>An example\<close>

text \<open>
  A library with one token per character, whose samplers end the generation when the context
  holds more than ten tokens.
\<close>

definition example_lib :: "(unit, unit, nat, unit) LlamaLib" where
  "example_lib =
     \<lparr>ll_model_load_from_file = \<lambda>_ _. Some (), ll_model_has_decoder = \<lambda>_. True, ll_model_is_diffusion = \<lambda>_. False,
      ll_init_from_model = \<lambda>_ _. Some 0, ll_model_get_vocab = \<lambda>_. Some (),
      ll_tokenize = \<lambda>_ s n. (if n = 0 then - of_nat (length s) else of_nat (length s), map (\<lambda>_. 1) s),
      ll_token_to_piece = \<lambda>_ _ _. (1, ''x''), ll_vocab_is_eog = \<lambda>_ tok. tok = 7,
      ll_decode = \<lambda>toks ctx. (0, ctx + length toks), ll_has_memory = \<lambda>_. True, ll_memory_clear = \<lambda>_. 0,
      ll_sampler_chain_init = Some (), ll_sampler_chain_add_greedy = id,
      ll_sampler_sample = \<lambda>s ctx _. (if 10 < ctx then 7 else 5, s), ll_sampler_accept = \<lambda>_ s. s,
      ll_supports_gpu_offload = False, fs_exists = \<lambda>_. True, fs_is_regular_file = \<lambda>_. True\<rparr>"

definition example_llama_config :: LlamaCppBackendConfig where
  "example_llama_config =
     \<lparr>lc_models = [(''m'', \<lparr>lm_gguf_path = ''m.gguf'', lm_context_tokens_per_sequence = 16, lm_n_batch = 4,
        lm_n_ubatch = 4, lm_n_gpu_layers = None, lm_n_threads = None, lm_n_threads_batch = None\<rparr>)],
      lc_max_sequences = 2\<rparr>"

definition example_model :: ModelSpec where
  "example_model = \<lparr>ms_model_id = ''m'', ms_estimated_memory_bytes = 1, ms_estimated_load_cost = 1\<rparr>"

definition example_llama :: "(unit, unit, nat) LlamaCppBackend" where
  "example_llama = snd (llama_load example_lib example_model (projr (llama_make True example_llama_config)))"

definition example_batch :: "InferenceRequest option list" where
  "example_batch = [Some (new_request ''a'' ''m'' ''hello'' 3), Some (new_request ''b'' ''m'' ''hi'' 9)]"

lemma example_made_inv: "llama_inv (projr (llama_make True example_llama_config) :: (unit, unit, nat) LlamaCppBackend)"
proof -
  let ?made = "llama_make True example_llama_config :: (unit, unit, nat) LlamaCppBackend or_throw"
  have "\<not> isl ?made" by code_simp
  then have "?made = Inr (projr ?made)" by simp
  then show ?thesis by (rule llama_make_inv)
qed

lemma example_llama_inv: "llama_inv example_llama"
  unfolding example_llama_def by (rule llama_load_inv [OF surjective_pairing example_made_inv])

lemma example_small: "small_batches example_llama"
proof -
  have "map (lm_n_batch \<circ> snd) (lc_models (lk_config example_llama)) = [4]" by code_simp
  then have "\<forall>x \<in> set (lc_models (lk_config example_llama)). lm_n_batch (snd x) = 4" by auto
  then show ?thesis by (simp add: small_batches_def)
qed

lemma example_contexts: "small_contexts example_llama"
proof -
  have "map (lm_context_tokens_per_sequence \<circ> snd) (lc_models (lk_config example_llama)) = [16]" by code_simp
  then have "\<forall>x \<in> set (lc_models (lk_config example_llama)). lm_context_tokens_per_sequence (snd x) = 16" by auto
  then show ?thesis by (simp add: small_contexts_def)
qed

lemma example_runnable: "\<exists>entry. runnable example_batch example_llama entry"
proof -
  have "same_model example_batch" unfolding same_model_def by code_simp
  moreover have "example_batch \<noteq> []" "None \<notin> set example_batch"
    "length example_batch \<le> lc_max_sequences (lk_config example_llama)" by code_simp+
  moreover have "map_of (lk_loaded example_llama) (rq_model_id (the (hd example_batch))) \<noteq> None" by code_simp
  ultimately show ?thesis by (auto simp: runnable_def)
qed

theorem llama_batch_safe_witness:
  "\<exists>results calls b'. infer_batch_locked example_lib example_batch example_llama = Some (results, calls, b') \<and>
     length results = 2"
proof -
  have "\<forall>v \<in> set example_batch. case v of None \<Rightarrow> True | Some r \<Rightarrow> unat (rq_max_output_tokens r) \<le> 2 ^ 63"
    by (simp add: example_batch_def new_request_def)
  moreover have "length example_batch = 2" by code_simp
  ultimately show ?thesis using llama_batch_safe [OF example_llama_inv example_small example_contexts, of example_batch example_lib] by auto
qed

theorem llama_sequences_witness:
  "\<exists>results calls b'. infer_batch_locked example_lib example_batch example_llama = Some (results, calls, b') \<and>
     map bt_pos (of_seq 1 (concat calls)) = [0, 1, 2, 3]"
proof -
  obtain entry where run: "runnable example_batch example_llama entry" using example_runnable by blast
  have "case infer_batch_locked example_lib example_batch example_llama of
      None \<Rightarrow> False | Some (_, calls, _) \<Rightarrow> length (of_seq 1 (concat calls)) = 4" by code_simp
  then obtain results calls b' where res: "infer_batch_locked example_lib example_batch example_llama = Some (results, calls, b')"
    "length (of_seq 1 (concat calls)) = 4" by (auto split: option.splits)
  have "map bt_pos (of_seq 1 (concat calls)) = [0..<4]"
    using llama_sequences [OF example_llama_inv example_small run res(1), of 1] res(2) by (simp add: Let_def)
  then show ?thesis using res(1) by (auto simp: upt_rec)
qed

theorem llama_answers_witness:
  "\<exists>results calls b'. infer_batch_locked example_lib example_batch example_llama = Some (results, calls, b') \<and>
     answered 3 (results ! 0) \<and> map (\<lambda>r. map_option out_text (res_output r)) results = [Some ''xx'', Some ''xx'']"
proof -
  obtain entry where run: "runnable example_batch example_llama entry" using example_runnable by blast
  have "case infer_batch_locked example_lib example_batch example_llama of
      None \<Rightarrow> False | Some (results, _, _) \<Rightarrow>
        map (\<lambda>r. map_option out_text (res_output r)) results = [Some ''xx'', Some ''xx'']" by code_simp
  then obtain results calls b' where res: "infer_batch_locked example_lib example_batch example_llama = Some (results, calls, b')"
    "map (\<lambda>r. map_option out_text (res_output r)) results = [Some ''xx'', Some ''xx'']" by (auto split: option.splits)
  have "0 < length example_batch" "unat (rq_max_output_tokens (the (example_batch ! 0))) = 3" by code_simp+
  then show ?thesis using llama_answers [OF example_llama_inv example_small run res(1), of 0] res by auto
qed

lemma llama_load_room_witness:
  "llama_is_loaded ''m'' example_llama"
proof -
  let ?b = "projr (llama_make True example_llama_config) :: (unit, unit, nat) LlamaCppBackend"
  let ?run = "llama_load example_lib example_model ?b"
  have inv: "llama_inv ?b" by (rule example_made_inv)
  have cfg: "map_of (lc_models (lk_config ?b)) (ms_model_id example_model) = Some (snd (hd (lc_models example_llama_config)))"
    by code_simp
  have new: "\<not> llama_is_loaded (ms_model_id example_model) ?b" by code_simp
  have run: "?run = (fst ?run, snd ?run)" by simp
  have "status_ok (fst ?run)" by code_simp
  then show ?thesis
    using llama_load_room [OF inv cfg new run] by (simp add: Let_def example_llama_def example_model_def)
qed

end
