(* ===== verification/AR_Main_Examples.thy ===== *)
theory AR_Main_Examples
  imports AR_Main_Props AR_Site_Examples AR_Llama_Results
begin

text \<open>
  The program started without arguments, and a signal that arrives while requests wait in the
  scheduler and a client is connected.
\<close>

definition example_platform :: "(unit, unit, nat, unit) Platform" where
  "example_platform =
     \<lparr>pf_llama_enabled = True, pf_llama = example_lib, pf_file_size = \<lambda>_. Some 4096, pf_make_address = \<lambda>_. True,
      pf_open_ec = NoError, pf_bind_ec = NoError, pf_listen_ec = NoError\<rparr>"

definition llama_args :: "string list" where
  "llama_args = [''--backend'', ''llama'', ''--model-id'', ''m'', ''--model-path'', ''m.gguf'']"

definition llama_options :: ServerOptions where
  "llama_options = default_options\<lparr>so_backend := ''llama'', so_model_id := ''m'', so_model_path := ''m.gguf''\<rparr>"

lemma parse_no_args: "parse_args [] = Inr default_options"
  by (simp add: parse_args_def default_options_def)

lemma parse_llama_args: "parse_args llama_args = Inr llama_options"
  by (simp add: parse_args_def llama_args_def llama_options_def default_options_def set_option_def)


text \<open>
  What the checks of the command line let pass. A context size is cut down to 32 bits after it has
  been checked; a negative size passes if a blank comes before the sign, and what follows the
  digits is ignored; and the exit code is 0 for every refused command line that contains the
  option for help anywhere, even as a later argument.
\<close>

lemma ctx_size_truncated:
  "parse_args [''--ctx-size'', ''4294967297''] = Inr (default_options\<lparr>so_ctx_size := 1\<rparr>)"
  by (simp add: parse_args_def default_options_def set_option_def store_def parse_positive_size_def stoull_def
      scan_number_def is_space_def is_digit_def digit_value_def)

lemma negative_size_wraps: "parse_positive_size name '' -1 worker'' = Inr (2 ^ 64 - 1)"
  by (simp add: parse_positive_size_def stoull_def scan_number_def is_space_def is_digit_def digit_value_def)

lemma help_hides_error:
  "main pf [''--port'', ''http'', ''--help''] w = Exit 0 ''malformed value for --port''"
  by (simp add: main_def parse_args_def set_option_def store_def parse_port_def stoi_def scan_number_def is_space_def
      is_digit_def digit_value_def help_only_def)

definition serving_env :: "SyntheticModelBackend Env" where
  "serving_env = example_env\<lparr>en_live := [], en_runtime := fst demo_full, en_world := snd demo_full\<rparr>"

definition connected_site :: "SyntheticModelBackend Site" where
  "connected_site = on_accept NoError (session_make, serving_env)"

lemma connected_run: "(site_step example_lib_json)\<^sup>*\<^sup>* (session_make, serving_env) connected_site"
proof -
  have "\<not> sv_ioc_stopped example_server" "sv_accept_pending example_server" by code_simp+
  then have "site_step example_lib_json (session_make, serving_env) connected_site"
    unfolding connected_site_def by (intro site_step.accepts) (simp_all add: serving_env_def example_env_def)
  then show ?thesis by blast
qed

lemma connected_parts:
  "en_runtime (snd connected_site) = fst demo_full \<and> en_world (snd connected_site) = snd demo_full \<and>
   en_live (snd connected_site) = [2]"
proof -
  have "\<not> sv_stopping example_server" by code_simp
  then show ?thesis
    by (simp add: connected_site_def serving_env_def on_accept_def do_accept_def example_env_def Let_def)
qed


end
